(* ===== verification/Cics_Prelude.thy ===== *)
theory Cics_Prelude
  imports Main "HOL-Library.Word" "HOL-Library.List_Lexorder" "HOL-Library.Multiset"
    "HOL-Library.AList" "HOL-Library.Monad_Syntax"
begin

text \<open>
  Shared material of the development: the machine types, the parts of Rust's standard
  library the source calls (binary search and partition point on slices, \<open>swap_remove\<close>,
  \<open>position\<close>, \<open>chunks\<close>, insertion and removal by index, the byte order conversions of
  integers), and the generic lemmas on lists and multisets that the components share.

  A Rust operation that can panic is an option here, with None for the panic.
\<close>

section \<open>Machine types\<close>

type_synonym byte = "8 word"
type_synonym bytes = "byte list"
type_synonym u32 = "32 word"
type_synonym u64 = "64 word"

definition u64_max :: u64 where
  "u64_max = - 1"

named_theorems std_spec "what the standard library functions return"
named_theorems frame_intro "which part of the store an operation leaves alone"

lemma u64_max_greatest [simp]: "x \<le> u64_max"
  by (simp add: u64_max_def)

lemma unat_plus_one: "x \<noteq> u64_max \<Longrightarrow> unat (x + (1::u64)) = Suc (unat x)"
  by (metis add.commute add_eq_0_iff u64_max_def unatSuc)

lemma less_plus_one: "x \<noteq> u64_max \<Longrightarrow> x < x + (1::u64)"
  by (simp add: word_less_nat_alt unat_plus_one)

lemma less_plus_one_iff: "x \<noteq> u64_max \<Longrightarrow> (y < x + (1::u64)) = (y \<le> x)"
  by (simp add: word_less_nat_alt word_le_nat_alt unat_plus_one less_Suc_eq_le)

lemma pages_plus_one: "x \<noteq> u64_max \<Longrightarrow> a \<le> x \<Longrightarrow> {a..<x + (1::u64)} = insert x {a..<x}"
  by (auto simp: less_plus_one_iff)

lemma pages_split: "a \<le> x \<Longrightarrow> x \<le> y \<Longrightarrow> {a..<x} \<union> {x..<y} = {a..<y :: u64}"
  by (rule ivl_disj_un_two(3))

lemma unat_u64_max: "unat u64_max = 2 ^ 64 - 1"
proof -
  have "unat (- 1 :: u64) = nat (uint (- 1 :: u64))" by simp
  also have "uint (- 1 :: u64) = 2 ^ 64 - 1"
    by (simp add: unsigned_minus_1_eq_mask mask_eq_exp_minus_1)
  finally show ?thesis by (simp add: u64_max_def)
qed

section \<open>Slices\<close>

text \<open>Indexing, slicing and the index operations of a vector; None is the panic.\<close>

definition get_at :: "'a list \<Rightarrow> nat \<Rightarrow> 'a option" where
  "get_at xs i = (if i < length xs then Some (xs ! i) else None)"

definition set_at :: "'a list \<Rightarrow> nat \<Rightarrow> 'a \<Rightarrow> 'a list option" where
  "set_at xs i x = (if i < length xs then Some (xs[i := x]) else None)"

definition insert_at :: "'a list \<Rightarrow> nat \<Rightarrow> 'a \<Rightarrow> 'a list option" where
  "insert_at xs i x = (if i \<le> length xs then Some (take i xs @ x # drop i xs) else None)"

definition remove_at :: "'a list \<Rightarrow> nat \<Rightarrow> ('a \<times> 'a list) option" where
  "remove_at xs i =
     (if i < length xs then Some (xs ! i, take i xs @ drop (Suc i) xs) else None)"

definition slice_from :: "'a list \<Rightarrow> nat \<Rightarrow> 'a list option" where
  "slice_from xs i = (if i \<le> length xs then Some (drop i xs) else None)"

definition slice_to :: "'a list \<Rightarrow> nat \<Rightarrow> 'a list option" where
  "slice_to xs i = (if i \<le> length xs then Some (take i xs) else None)"

lemma get_at_append [simp]: "get_at (xs @ x # ys) (length xs) = Some x"
  by (simp add: get_at_def)

lemma set_at_append [simp]: "set_at (xs @ x # ys) (length xs) y = Some (xs @ y # ys)"
  by (simp add: set_at_def)

lemma insert_at_append [simp]: "insert_at (xs @ ys) (length xs) x = Some (xs @ x # ys)"
  by (simp add: insert_at_def)

lemma remove_at_append [simp]: "remove_at (xs @ x # ys) (length xs) = Some (x, xs @ ys)"
  by (simp add: remove_at_def)

lemma slice_from_append [simp]: "slice_from (xs @ ys) (length xs) = Some ys"
  by (simp add: slice_from_def)

lemma slice_to_append [simp]: "slice_to (xs @ ys) (length xs) = Some xs"
  by (simp add: slice_to_def)

text \<open>\<open>Vec::swap_remove\<close>: the last element takes the place of the one removed.\<close>

definition swap_remove :: "nat \<Rightarrow> 'a list \<Rightarrow> 'a list" where
  "swap_remove i xs = butlast (xs[i := last xs])"

lemma mset_swap_remove [std_spec]:
  assumes "i < length xs"
  shows "mset xs = add_mset (xs ! i) (mset (swap_remove i xs))"
proof -
  obtain ys y where xs: "xs = ys @ [y]"
    using assms by (metis append_butlast_last_id length_greater_0_conv not_less0 length_0_conv)
  show ?thesis
  proof (cases "i < length ys")
    case True
    then have "swap_remove i xs = ys[i := y]"
      by (simp add: swap_remove_def xs list_update_append)
    moreover have "mset ys = add_mset (ys ! i) (mset ys - {#ys ! i#})"
      using True by simp
    ultimately show ?thesis
      using True by (simp add: xs nth_append mset_update)
  next
    case False
    then have "i = length ys" using assms xs by simp
    then show ?thesis by (simp add: swap_remove_def xs nth_append)
  qed
qed

lemma set_swap_remove_subset: "i < length xs \<Longrightarrow> set (swap_remove i xs) \<subseteq> set xs"
  by (metis mset_subset_eqD mset_swap_remove mset_subset_eq_add_right add_mset_add_single
      set_mset_mset subsetI union_commute)

text \<open>\<open>Iterator::position\<close>: the index of the first element with the property.\<close>

fun position :: "('a \<Rightarrow> bool) \<Rightarrow> 'a list \<Rightarrow> nat option" where
  "position P [] = None"
| "position P (x # xs) = (if P x then Some 0 else map_option Suc (position P xs))"

lemma position_Some [std_spec]: "position P xs = Some i \<Longrightarrow> i < length xs \<and> P (xs ! i)"
  by (induction xs arbitrary: i) (auto split: if_splits)

lemma position_None [std_spec]: "position P xs = None \<longleftrightarrow> (\<forall>x\<in>set xs. \<not> P x)"
  by (induction xs) auto

text \<open>\<open>slice::chunks\<close>: consecutive pieces of the given length, the last possibly shorter.\<close>

function chunks :: "nat \<Rightarrow> 'a list \<Rightarrow> 'a list list" where
  "chunks n xs = (if xs = [] \<or> n = 0 then [] else take n xs # chunks n (drop n xs))"
  by pat_completeness auto
termination
  by (relation "measure (\<lambda>(n, xs). length xs)") auto

declare chunks.simps [simp del]

lemma chunks_Nil [simp]: "chunks n [] = []"
  by (simp add: chunks.simps)

lemma concat_chunks [std_spec]: "0 < n \<Longrightarrow> concat (chunks n xs) = xs"
proof (induction n xs rule: chunks.induct)
  case (1 n xs)
  then show ?case by (cases "xs = []") (auto simp: chunks.simps [of n xs])
qed

lemma chunks_length [std_spec]: "ys \<in> set (chunks n xs) \<Longrightarrow> ys \<noteq> [] \<and> length ys \<le> n"
proof (induction n xs rule: chunks.induct)
  case (1 n xs)
  then show ?case
    by (auto simp: chunks.simps [of n xs] split: if_splits)
qed

lemma chunks_not_Nil [std_spec]: "0 < n \<Longrightarrow> xs \<noteq> [] \<Longrightarrow> chunks n xs \<noteq> []"
  by (simp add: chunks.simps)

lemma length_chunks [std_spec]: "0 < n \<Longrightarrow> length (chunks n xs) = (length xs + n - 1) div n"
proof (induction n xs rule: chunks.induct)
  case (1 n xs)
  show ?case
  proof (cases "xs = []")
    case True
    then show ?thesis using 1 by simp
  next
    case False
    then have len: "length (chunks n xs) = Suc ((length xs - n + n - 1) div n)"
      using 1 by (simp add: chunks.simps [of n xs])
    show ?thesis
    proof (cases "n \<le> length xs")
      case True
      then have "length xs + n - 1 = (length xs - n + n - 1) + n" using 1 by simp
      then have "(length xs + n - 1) div n = Suc ((length xs - n + n - 1) div n)"
        using 1 by (metis div_add_self2 Suc_eq_plus1 less_numeral_extra(3))
      then show ?thesis using len by simp
    next
      case less: False
      have "length xs + n - 1 = n + (length xs - 1)" using False by (cases xs) auto
      moreover have "(length xs - 1) div n = 0" using less by simp
      moreover have "(length xs - n + n - 1) div n = 0" using less 1 by simp
      moreover have "(n + (length xs - 1)) div n = Suc ((length xs - 1) div n)"
        using 1 by (metis div_add_self1 Suc_eq_plus1 less_numeral_extra(3))
      ultimately show ?thesis using len by metis
    qed
  qed
qed

section \<open>Binary search\<close>

text \<open>
  \<open>slice::binary_search_by\<close> and \<open>slice::partition_point\<close> as the standard library has
  them: the size is halved until one candidate is left, and the partition point is the
  search for the boundary of a predicate.
\<close>

datatype ordering = Less | Equal | Greater

datatype search = Found nat | Missing nat

function search_base :: "('a \<Rightarrow> ordering) \<Rightarrow> 'a list \<Rightarrow> nat \<Rightarrow> nat \<Rightarrow> nat" where
  "search_base f xs base sz =
     (if sz \<le> 1 then base
      else let half = sz div 2; mid = base + half
           in search_base f xs (if f (xs ! mid) = Greater then base else mid) (sz - half))"
  by pat_completeness auto
termination
  by (relation "measure (\<lambda>(f, xs, base, sz). sz)") auto

declare search_base.simps [simp del]

definition binary_search_by :: "('a \<Rightarrow> ordering) \<Rightarrow> 'a list \<Rightarrow> search" where
  "binary_search_by f xs =
     (if xs = [] then Missing 0
      else let base = search_base f xs 0 (length xs)
           in case f (xs ! base) of Equal \<Rightarrow> Found base
              | Less \<Rightarrow> Missing (Suc base) | Greater \<Rightarrow> Missing base)"

definition partition_point :: "('a \<Rightarrow> bool) \<Rightarrow> 'a list \<Rightarrow> nat" where
  "partition_point P xs =
     (case binary_search_by (\<lambda>x. if P x then Less else Greater) xs of
        Found i \<Rightarrow> i | Missing i \<Rightarrow> i)"

definition cmp :: "'a::linorder \<Rightarrow> 'a \<Rightarrow> ordering" where
  "cmp x y = (if x < y then Less else if x = y then Equal else Greater)"

text \<open>The comparison is monotone along the slice: first Less, then Equal, then Greater.\<close>

definition search_sorted :: "('a \<Rightarrow> ordering) \<Rightarrow> 'a list \<Rightarrow> bool" where
  "search_sorted f xs \<longleftrightarrow> (\<forall>i j. i < j \<longrightarrow> j < length xs \<longrightarrow>
     (f (xs ! j) \<noteq> Greater \<longrightarrow> f (xs ! i) \<noteq> Greater) \<and> (f (xs ! i) \<noteq> Less \<longrightarrow> f (xs ! j) \<noteq> Less))"

lemma search_base_inv:
  assumes "search_sorted f xs" "0 < sz" "base + sz \<le> length xs"
    "base = 0 \<or> f (xs ! base) \<noteq> Greater"
    "base + sz = length xs \<or> f (xs ! (base + sz)) = Greater"
  shows "let b = search_base f xs base sz in
     b < length xs \<and> (b = 0 \<or> f (xs ! b) \<noteq> Greater) \<and>
     (Suc b = length xs \<or> f (xs ! Suc b) = Greater)"
  using assms
proof (induction f xs base sz rule: search_base.induct)
  case (1 f xs base sz)
  show ?case
  proof (cases "sz \<le> 1")
    case True
    then have "sz = 1" using "1.prems"(2) by simp
    then show ?thesis using "1.prems" by (simp add: search_base.simps [of f xs base "Suc 0"])
  next
    case False
    let ?half = "sz div 2"
    let ?mid = "base + ?half"
    let ?b = "if f (xs ! ?mid) = Greater then base else ?mid"
    have h: "0 < ?half" "?half < sz" using False by auto
    have mid: "?mid < length xs" using h "1.prems" by linarith
    have upper: "?b + (sz - ?half) = length xs \<or> f (xs ! (?b + (sz - ?half))) = Greater"
    proof (cases "f (xs ! ?mid) = Greater")
      case True
      have "?mid = base + (sz - ?half) \<or> ?mid < base + (sz - ?half)" by linarith
      then show ?thesis
      proof
        assume "?mid = base + (sz - ?half)"
        then show ?thesis using True by simp
      next
        assume lt: "?mid < base + (sz - ?half)"
        have "base + (sz - ?half) < length xs" using h "1.prems"(3) by linarith
        then have "f (xs ! (base + (sz - ?half))) = Greater"
          using True lt "1.prems"(1) unfolding search_sorted_def by blast
        then show ?thesis using True by simp
      qed
    next
      case False
      then have "?b + (sz - ?half) = base + sz" using h by simp
      then show ?thesis using "1.prems"(5) by metis
    qed
    have "let b = search_base f xs ?b (sz - ?half) in
       b < length xs \<and> (b = 0 \<or> f (xs ! b) \<noteq> Greater) \<and>
       (Suc b = length xs \<or> f (xs ! Suc b) = Greater)"
    proof (rule "1.IH" [OF False refl refl "1.prems"(1)])
      show "0 < sz - ?half" using h by simp
      show "?b + (sz - ?half) \<le> length xs" using h "1.prems"(3) by (simp split: if_split) linarith
      show "?b = 0 \<or> f (xs ! ?b) \<noteq> Greater" using "1.prems"(4) by auto
    qed (rule upper)
    then show ?thesis using False by (simp add: search_base.simps [of f xs base sz] Let_def)
  qed
qed

lemma binary_search_Found:
  assumes "search_sorted f xs" "binary_search_by f xs = Found i"
  shows "i < length xs" "f (xs ! i) = Equal"
  using search_base_inv [OF assms(1), of "length xs" 0] assms(2)
  by (auto simp: binary_search_by_def Let_def split: if_splits ordering.splits)

lemma binary_search_Missing:
  assumes s: "search_sorted f xs" and m: "binary_search_by f xs = Missing i"
  shows "i \<le> length xs" "\<And>j. j < i \<Longrightarrow> f (xs ! j) = Less"
    "\<And>j. i \<le> j \<Longrightarrow> j < length xs \<Longrightarrow> f (xs ! j) = Greater"
proof -
  have all: "i \<le> length xs \<and> (\<forall>j<i. f (xs ! j) = Less) \<and>
      (\<forall>j. i \<le> j \<longrightarrow> j < length xs \<longrightarrow> f (xs ! j) = Greater)"
  proof (cases "xs = []")
    case True
    then show ?thesis using m by (simp add: binary_search_by_def)
  next
    case False
    define b where "b = search_base f xs 0 (length xs)"
    have b: "b < length xs" "b = 0 \<or> f (xs ! b) \<noteq> Greater"
        "Suc b = length xs \<or> f (xs ! Suc b) = Greater"
      using search_base_inv [OF s, of "length xs" 0] False by (auto simp: b_def Let_def)
    have mono: "j < k \<Longrightarrow> k < length xs \<Longrightarrow> f (xs ! k) \<noteq> Greater \<Longrightarrow> f (xs ! j) \<noteq> Greater"
        "j < k \<Longrightarrow> k < length xs \<Longrightarrow> f (xs ! j) \<noteq> Less \<Longrightarrow> f (xs ! k) \<noteq> Less" for j k
      using s by (auto simp: search_sorted_def)
    show ?thesis
    proof (cases "f (xs ! b)")
      case Less
      then have i: "i = Suc b" using m False by (simp add: binary_search_by_def b_def Let_def)
      have "f (xs ! j) = Less" if "j < i" for j
        using that Less mono(2) [of j b] b(1) i by (metis less_SucE)
      moreover have "f (xs ! j) = Greater" if "i \<le> j" "j < length xs" for j
      proof (cases "j = i")
        case True
        then show ?thesis using that b(3) i by auto
      next
        case False
        then show ?thesis using that b(3) mono(1) [of i j] i by fastforce
      qed
      ultimately show ?thesis using i b(1) by auto
    next
      case Greater
      then have i: "i = b" using m False by (simp add: binary_search_by_def b_def Let_def)
      then have "i = 0" using b Greater by simp
      moreover have "f (xs ! j) = Greater" if "j < length xs" for j
        using that Greater mono(1) [of 0 j] i \<open>i = 0\<close> by (metis bot_nat_0.not_eq_extremum)
      ultimately show ?thesis by auto
    next
      case Equal
      then show ?thesis using m False by (simp add: binary_search_by_def b_def Let_def)
    qed
  qed
  then show "i \<le> length xs" "\<And>j. j < i \<Longrightarrow> f (xs ! j) = Less"
    "\<And>j. i \<le> j \<Longrightarrow> j < length xs \<Longrightarrow> f (xs ! j) = Greater" by auto
qed

text \<open>On a sorted slice the searches split it where the key belongs.\<close>

lemma search_sorted_cmp: "sorted ks \<Longrightarrow> search_sorted (\<lambda>x. cmp x (k::'a::linorder)) ks"
  unfolding search_sorted_def cmp_def
  by (auto split: if_splits dest: sorted_nth_mono [OF _ less_imp_le])

lemma search_sorted_le: "sorted ks \<Longrightarrow>
    search_sorted (\<lambda>x. if x \<le> (k::'a::linorder) then Less else Greater) ks"
  unfolding search_sorted_def
  by (auto split: if_splits dest: sorted_nth_mono [OF _ less_imp_le])

lemma binary_search_key_Found [std_spec]:
  assumes "sorted ks" "binary_search_by (\<lambda>x. cmp x (k::'a::linorder)) ks = Found i"
  shows "i < length ks \<and> ks ! i = k"
  using binary_search_Found [OF search_sorted_cmp [OF assms(1)] assms(2)]
  by (simp add: cmp_def split: if_splits)

lemma binary_search_key_Missing [std_spec]:
  assumes "sorted ks" "binary_search_by (\<lambda>x. cmp x (k::'a::linorder)) ks = Missing i"
  shows "i \<le> length ks \<and> (\<forall>x\<in>set (take i ks). x < k) \<and> (\<forall>x\<in>set (drop i ks). k < x)"
proof -
  note bs = binary_search_Missing [OF search_sorted_cmp [OF assms(1)] assms(2)]
  have "ks ! j < k" if "j < i" for j
    using bs(2) [OF that] by (simp add: cmp_def split: if_splits)
  moreover have "k < ks ! j" if "i \<le> j" "j < length ks" for j
    using bs(3) [OF that] by (simp add: cmp_def split: if_splits)
  ultimately show ?thesis using bs(1) by (simp add: all_set_conv_all_nth)
qed

lemma partition_point_le [std_spec]:
  fixes k :: "'a::linorder"
  assumes "sorted ks"
  defines "i \<equiv> partition_point (\<lambda>x. x \<le> k) ks"
  shows "i \<le> length ks \<and> (\<forall>x\<in>set (take i ks). x \<le> k) \<and> (\<forall>x\<in>set (drop i ks). k < x)"
proof (cases "binary_search_by (\<lambda>x. if x \<le> k then Less else Greater) ks")
  case (Found j)
  then show ?thesis
    using binary_search_Found [OF search_sorted_le [OF assms(1)] Found] by (simp split: if_splits)
next
  case (Missing j)
  then have "i = j" by (simp add: i_def partition_point_def)
  note bs = binary_search_Missing [OF search_sorted_le [OF assms(1)] Missing]
  have "ks ! l \<le> k" if "l < j" for l
    using bs(2) [OF that] by (simp split: if_splits)
  moreover have "k < ks ! l" if "j \<le> l" "l < length ks" for l
    using bs(3) [OF that] by (simp split: if_splits)
  ultimately show ?thesis using bs(1) \<open>i = j\<close> by (simp add: all_set_conv_all_nth)
qed

section \<open>Byte order conversions\<close>

definition le_bytes :: "nat \<Rightarrow> 'a::len word \<Rightarrow> bytes" where
  "le_bytes n w = map (\<lambda>i. ucast (drop_bit (8 * i) w)) [0..<n]"

definition of_le_bytes :: "bytes \<Rightarrow> 'a::len word" where
  "of_le_bytes bs = foldr (\<lambda>b w. ucast b + 256 * w) bs 0"

definition be_bytes :: "nat \<Rightarrow> 'a::len word \<Rightarrow> bytes" where
  "be_bytes n w = rev (le_bytes n w)"

lemma length_le_bytes [simp]: "length (le_bytes n w) = n"
  by (simp add: le_bytes_def)

lemma length_be_bytes [simp]: "length (be_bytes n w) = n"
  by (simp add: be_bytes_def)

lemma le_bytes_Suc: "le_bytes (Suc n) w = ucast w # le_bytes n (drop_bit 8 w)"
proof -
  have "le_bytes (Suc n) w = map (\<lambda>i. ucast (drop_bit (8 * i) w)) (0 # map Suc [0..<n])"
    by (simp only: le_bytes_def map_Suc_upt upt_conv_Cons [OF zero_less_Suc])
  then show ?thesis
    by (simp add: le_bytes_def drop_bit_drop_bit algebra_simps)
qed

lemma of_le_bytes_Cons: "of_le_bytes (b # bs) = ucast b + 256 * (of_le_bytes bs :: 'a::len word)"
  by (simp add: of_le_bytes_def)

lemma ucast_plus_256:
  fixes w :: "'a::len word"
  shows "ucast (ucast w :: byte) + 256 * drop_bit 8 w = w"
proof -
  have "ucast (ucast w :: byte) = take_bit 8 w"
    by (rule bit_word_eqI) (auto simp: bit_simps)
  moreover have "256 * drop_bit 8 w = push_bit 8 (drop_bit 8 w)"
    by (simp add: push_bit_eq_mult)
  ultimately show ?thesis
    by (metis add.commute bits_ident)
qed

lemma of_le_bytes_le_bytes: "drop_bit (8 * n) w = 0 \<Longrightarrow> of_le_bytes (le_bytes n w) = (w :: 'a::len word)"
proof (induction n arbitrary: w)
  case 0
  then show ?case by (simp add: le_bytes_def of_le_bytes_def)
next
  case (Suc n)
  have "drop_bit (8 * n) (drop_bit 8 w) = 0"
    using Suc.prems by (simp add: drop_bit_drop_bit algebra_simps)
  then show ?case
    using Suc.IH [of "drop_bit 8 w"] by (simp add: le_bytes_Suc of_le_bytes_Cons ucast_plus_256)
qed

lemma of_le_bytes_u32 [simp]: "of_le_bytes (le_bytes 4 (w :: u32)) = w"
  by (rule of_le_bytes_le_bytes) (rule bit_word_eqI, simp add: bit_simps)

lemma of_le_bytes_u64 [simp]: "of_le_bytes (le_bytes 8 (w :: u64)) = w"
  by (rule of_le_bytes_le_bytes) (rule bit_word_eqI, simp add: bit_simps)

lemma be_bytes_u32_inj [simp]: "be_bytes 4 (x :: u32) = be_bytes 4 y \<longleftrightarrow> x = y"
  by (metis be_bytes_def of_le_bytes_u32 rev_rev_ident)

section \<open>Multisets without repetition\<close>

text \<open>
  Page accounting is by multisets: every page number of a transaction is in exactly one
  place, so the sum of the places has no repetition.
\<close>

definition nodup :: "'a multiset \<Rightarrow> bool" where
  "nodup M \<longleftrightarrow> (\<forall>x. count M x \<le> 1)"

lemma nodup_empty [simp]: "nodup {#}"
  by (simp add: nodup_def)

lemma nodup_add_mset [simp]: "nodup (add_mset x M) \<longleftrightarrow> x \<notin># M \<and> nodup M"
proof
  assume n: "nodup (add_mset x M)"
  have "count M y \<le> 1" for y
    using n by (metis add_mset_add_single count_union le_add1 le_trans nodup_def)
  moreover have "count M x = 0"
    using n by (metis Suc_le_mono One_nat_def count_add_mset le_zero_eq nodup_def)
  ultimately show "x \<notin># M \<and> nodup M" by (simp add: nodup_def not_in_iff)
next
  assume "x \<notin># M \<and> nodup M"
  then show "nodup (add_mset x M)" by (simp add: nodup_def not_in_iff)
qed

lemma nodup_mono: "nodup N \<Longrightarrow> M \<subseteq># N \<Longrightarrow> nodup M"
  unfolding nodup_def by (meson le_trans mset_subset_eq_count)

lemma nodup_union: "nodup (M + N) \<longleftrightarrow> nodup M \<and> nodup N \<and> set_mset M \<inter> set_mset N = {}"
  by (induction M) auto

lemma nodup_mset_set [simp]: "nodup (mset_set A)"
  by (cases "finite A") (simp_all add: nodup_def count_mset_set')

lemma mset_set_nodup: "nodup M \<Longrightarrow> mset_set (set_mset M) = M"
  by (rule multiset_eqI) (metis count_mset_set(1,3) finite_set_mset nodup_def le_eq_less_or_eq less_one
      not_in_iff)

lemma nodup_mset [simp]: "nodup (mset xs) \<longleftrightarrow> distinct xs"
  by (induction xs) auto

lemma bind_Some_iff: "Option.bind m f = Some y \<longleftrightarrow> (\<exists>x. m = Some x \<and> f x = Some y)"
  by (cases m) auto

end
