(* ===== verification/Pages.thy ===== *)
theory Pages
  imports Cics_Prelude
begin

text \<open>
  The types the store writes to disk (\<open>Meta\<close> of src/storage/pager.rs, \<open>StoredValue\<close> and
  \<open>Node\<close> of src/storage/btree.rs, \<open>FreeListPage\<close> of src/storage/freelist.rs,
  \<open>OverflowPage\<close> of src/storage/overflow.rs), the interface of the two libraries that
  turn them into bytes, and src/storage/codec.rs, which frames a serialised value in a
  checksummed page.

  The libraries are parameters. A serialiser is a dictionary \<open>'a serde\<close>, what Rust's
  generic \<open>T: Serialize + DeserializeOwned\<close> stands for together with
  \<open>bincode::{serialize, deserialize, serialized_size}\<close>; \<open>crc32\<close> is
  \<open>crc32fast::hash\<close>. The laws the code relies on are the locale \<open>serde_laws\<close>: a
  value whose serialisation fits in a page is read back from a buffer that begins with it
  (\<open>bincode::deserialize\<close> ignores trailing bytes) and \<open>serialized_size\<close> is the length of
  the serialisation. The theory Bincode defines bincode's fixed width format and crc32 and
  interprets the locale on them.
\<close>

section \<open>The types on disk\<close>

definition PAGE_SIZE :: nat where
  "PAGE_SIZE = 4096"

type_synonym page_id = u64

record meta =
  magic :: u32
  txn_id :: u64
  root :: "page_id option"
  next_page :: page_id
  free_list_head :: "page_id option"

datatype stored_value = Inline bytes | Overflow page_id u64

datatype node =
    Leaf "bytes list" "stored_value list"
  | Internal "bytes list" "page_id list"

record free_list_page =
  fp_next :: "page_id option"
  fp_entries :: "(u64 \<times> page_id) list"

record overflow_page =
  op_next :: "page_id option"
  op_data :: bytes

section \<open>The serialisation libraries\<close>

record 'a serde =
  serialize :: "'a \<Rightarrow> bytes"
  deserialize :: "bytes \<Rightarrow> 'a option"
  serialized_size :: "'a \<Rightarrow> nat"

record lib =
  crc32 :: "bytes \<Rightarrow> u32"
  sd_meta :: "meta serde"
  sd_node :: "node serde"
  sd_free :: "free_list_page serde"
  sd_over :: "overflow_page serde"

section \<open>codec.rs\<close>

definition encode_page :: "lib \<Rightarrow> 'a serde \<Rightarrow> 'a \<Rightarrow> bytes option" where
  "encode_page L S value =
     (let body = serialize S value in
      if length body + 4 \<le> PAGE_SIZE
      then Some (le_bytes 4 (crc32 L body) @ body @ replicate (PAGE_SIZE - 4 - length body) 0)
      else None)"

definition decode_page :: "lib \<Rightarrow> 'a serde \<Rightarrow> bytes \<Rightarrow> 'a option" where
  "decode_page L S buf =
     (let checksum = of_le_bytes (take 4 buf) in
      case deserialize S (drop 4 buf) of None \<Rightarrow> None
      | Some value \<Rightarrow>
          let body = serialize S value in
          if length body > length buf - 4 \<or> crc32 L body \<noteq> checksum then None else Some value)"

definition encoded_len :: "'a serde \<Rightarrow> 'a \<Rightarrow> nat" where
  "encoded_len S value = serialized_size S value + 4"

locale serde_laws =
  fixes S :: "'a serde"
  assumes deserialize_serialize:
      "length (serialize S v) + 4 \<le> PAGE_SIZE \<Longrightarrow> deserialize S (serialize S v @ rest) = Some v"
    and serialized_size_eq: "serialized_size S v = length (serialize S v)"
begin

lemma encode_page_iff: "encode_page L S v \<noteq> None \<longleftrightarrow> encoded_len S v \<le> PAGE_SIZE"
  by (simp add: encode_page_def encoded_len_def serialized_size_eq Let_def)

lemma encode_page_length: "encode_page L S v = Some buf \<Longrightarrow> length buf = PAGE_SIZE"
  by (auto simp: encode_page_def Let_def split: if_splits)

lemma decode_encode: "encode_page L S v = Some buf \<Longrightarrow> decode_page L S buf = Some v"
  by (auto simp: encode_page_def decode_page_def Let_def deserialize_serialize split: if_splits)

lemma encode_inj: "encode_page L S v = Some buf \<Longrightarrow> encode_page L S w = Some buf \<Longrightarrow> v = w"
  by (metis decode_encode option.inject)

end

lemma decode_page_checksum:
  "decode_page L S buf = Some v \<Longrightarrow>
   length (serialize S v) \<le> length buf - 4 \<and> crc32 L (serialize S v) = of_le_bytes (take 4 buf)"
  by (auto simp: decode_page_def Let_def split: option.splits if_splits)

text \<open>What the development assumes of the libraries, and the parts of the store see of it.\<close>

definition lib_ok :: "lib \<Rightarrow> bool" where
  "lib_ok L \<longleftrightarrow> serde_laws (sd_meta L) \<and> serde_laws (sd_node L) \<and>
     serde_laws (sd_free L) \<and> serde_laws (sd_over L)"

lemma lib_ok_laws:
  assumes "lib_ok L"
  shows "serde_laws (sd_meta L)" "serde_laws (sd_node L)"
    "serde_laws (sd_free L)" "serde_laws (sd_over L)"
  using assms by (auto simp: lib_ok_def)

lemmas decode_encode_laws = lib_ok_laws [THEN serde_laws.decode_encode]

section \<open>Sizes of the serialised values\<close>

text \<open>
  The documented sizes of bincode's fixed width format: a length or a u64 takes 8 bytes, an
  enum tag 4, an option tag 1. What returns at all, rather than panic in \<open>encode_page\<close>, is
  proved from \<open>lib_sizes\<close>.
\<close>

definition opt_size :: "nat \<Rightarrow> 'a option \<Rightarrow> nat" where
  "opt_size n v = (case v of None \<Rightarrow> 1 | Some x \<Rightarrow> 1 + n)"

definition meta_size :: "meta \<Rightarrow> nat" where
  "meta_size m = 20 + opt_size 8 (root m) + opt_size 8 (free_list_head m)"

fun value_size :: "stored_value \<Rightarrow> nat" where
  "value_size (Inline b) = 12 + length b"
| "value_size (Overflow head len) = 20"

fun node_size :: "node \<Rightarrow> nat" where
  "node_size (Leaf keys values) =
     20 + sum_list (map (\<lambda>k. 8 + length k) keys) + sum_list (map value_size values)"
| "node_size (Internal keys children) =
     20 + sum_list (map (\<lambda>k. 8 + length k) keys) + 8 * length children"

definition free_size :: "free_list_page \<Rightarrow> nat" where
  "free_size f = opt_size 8 (fp_next f) + 8 + 16 * length (fp_entries f)"

definition over_size :: "overflow_page \<Rightarrow> nat" where
  "over_size v = opt_size 8 (op_next v) + 8 + length (op_data v)"

definition lib_sizes :: "lib \<Rightarrow> bool" where
  "lib_sizes L \<longleftrightarrow> (\<forall>m. serialized_size (sd_meta L) m = meta_size m) \<and>
     (\<forall>n. serialized_size (sd_node L) n = node_size n) \<and>
     (\<forall>f. serialized_size (sd_free L) f = free_size f) \<and>
     (\<forall>v. serialized_size (sd_over L) v = over_size v)"

lemma encode_fits:
  assumes "lib_ok L" "lib_sizes L"
  shows "meta_size m \<le> 4092 \<Longrightarrow> \<exists>buf. encode_page L (sd_meta L) m = Some buf"
    "node_size n \<le> 4092 \<Longrightarrow> \<exists>buf. encode_page L (sd_node L) n = Some buf"
    "free_size f \<le> 4092 \<Longrightarrow> \<exists>buf. encode_page L (sd_free L) f = Some buf"
    "over_size v \<le> 4092 \<Longrightarrow> \<exists>buf. encode_page L (sd_over L) v = Some buf"
  using assms lib_ok_laws [OF assms(1), THEN serde_laws.serialized_size_eq]
  by (auto simp: encode_page_def PAGE_SIZE_def lib_sizes_def Let_def)

lemma opt_size_le [simp]: "opt_size n v \<le> Suc n"
  by (simp add: opt_size_def split: option.split)

lemma encode_meta_page:
  "lib_ok L \<Longrightarrow> lib_sizes L \<Longrightarrow> \<exists>buf. encode_page L (sd_meta L) m = Some buf"
  by (rule encode_fits(1)) (use opt_size_le [of 8 "root m"] opt_size_le [of 8 "free_list_head m"] in
      \<open>auto simp: meta_size_def\<close>)

end
