(* ===== verification/Pager.thy ===== *)
theory Pager
  imports Pages
begin

text \<open>
  src/storage/pager.rs: page-granular file access, the double-buffered meta page and the
  choice of the meta page at open.

  The file is a list of page buffers. The operating system keeps writes in its cache until
  \<open>sync_data\<close>: \<open>p_file\<close> is what a read sees, \<open>p_durable\<close> is what is on the platter
  since the last sync, and \<open>p_pending\<close> are the writes in between, oldest first. A write
  fails past \<open>p_limit\<close> pages (the space the file system has for the file, at most \<open>2 ^ 52\<close>
  pages, since byte offsets are u64); a read fails past the end of the file. \<open>p_syncs\<close> says
  how the next syncs end, all others succeed; a sync that fails says nothing about which
  writes reached the platter. An operation that can fail gives the pager and either the
  I/O error or its value; one that can panic gives None for the panic.
\<close>

definition MAGIC :: u32 where
  "MAGIC = 0xC1C57B0B"

definition META_PAGE_COUNT :: u64 where
  "META_PAGE_COUNT = 2"

definition advance :: "meta \<Rightarrow> page_id option \<Rightarrow> page_id \<Rightarrow> page_id option \<Rightarrow> meta" where
  "advance m r np fh =
     \<lparr>magic = magic m, txn_id = txn_id m + 1, root = r, next_page = np, free_list_head = fh\<rparr>"

definition encode_meta :: "lib \<Rightarrow> meta \<Rightarrow> bytes option" where
  "encode_meta L m = encode_page L (sd_meta L) m"

definition decode_meta :: "lib \<Rightarrow> bytes \<Rightarrow> meta option" where
  "decode_meta L buf =
     (case decode_page L (sd_meta L) buf of None \<Rightarrow> None
      | Some m \<Rightarrow> if magic m \<noteq> MAGIC then None else Some m)"

record pager =
  p_file :: "bytes list"
  p_durable :: "bytes list"
  p_pending :: "(page_id \<times> bytes) list"
  p_limit :: nat
  p_syncs :: "bool list"
  active_meta_slot :: u64

datatype io_error = WriteFailed | SyncFailed | InvalidData

section \<open>Page input and output\<close>

definition zero_page :: bytes where
  "zero_page = replicate PAGE_SIZE 0"

text \<open>Writing past the end of a file fills the gap with zeroes.\<close>

definition file_write :: "bytes list \<Rightarrow> page_id \<Rightarrow> bytes \<Rightarrow> bytes list" where
  "file_write f i buf =
     (if unat i < length f then f[unat i := buf]
      else f @ replicate (unat i - length f) zero_page @ [buf])"

definition file_read :: "bytes list \<Rightarrow> page_id \<Rightarrow> bytes option" where
  "file_read f i = get_at f (unat i)"

definition read_page :: "pager \<Rightarrow> page_id \<Rightarrow> bytes option" where
  "read_page p i = file_read (p_file p) i"

definition write_page :: "pager \<Rightarrow> page_id \<Rightarrow> bytes \<Rightarrow> pager option" where
  "write_page p i buf =
     (if unat i < p_limit p
      then Some (p\<lparr>p_file := file_write (p_file p) i buf, p_pending := p_pending p @ [(i, buf)]\<rparr>)
      else None)"

definition sync_data :: "pager \<Rightarrow> pager \<times> (io_error + unit)" where
  "sync_data p =
     (let p1 = p\<lparr>p_syncs := tl (p_syncs p)\<rparr> in
      if p_syncs p = [] \<or> hd (p_syncs p)
      then (p1\<lparr>p_durable := p_file p, p_pending := []\<rparr>, Inr ())
      else (p1, Inl SyncFailed))"

lemma file_read_write:
  "file_read (file_write f i buf) j =
     (if j = i then Some buf
      else if unat j < length f then Some (f ! unat j)
      else if unat j < unat i then Some zero_page else None)"
proof -
  have ne: "unat j \<noteq> unat i" if "j \<noteq> i" using that by (simp add: word_unat_eq_iff)
  consider "j = i" | "j \<noteq> i" "unat j < length f" | "j \<noteq> i" "length f \<le> unat j" "unat j < unat i"
    | "j \<noteq> i" "length f \<le> unat j" "unat i < unat j"
    using ne by fastforce
  then show ?thesis
    using ne by cases (auto simp: file_read_def file_write_def get_at_def nth_append nth_list_update)
qed

lemma file_read_write_same [simp]: "file_read (file_write f i buf) i = Some buf"
  by (simp add: file_read_write)

lemma file_read_write_keep:
  "file_read f j = Some b \<Longrightarrow> j \<noteq> i \<Longrightarrow> file_read (file_write f i buf) j = Some b"
  by (simp add: file_read_write) (auto simp: file_read_def get_at_def split: if_splits)

lemma file_write_commute_less:
  assumes "unat i < unat j"
  shows "file_write (file_write f i a) j b = file_write (file_write f j b) i a"
proof -
  consider "unat j < length f" | "unat i < length f" "length f \<le> unat j" | "length f \<le> unat i"
    by linarith
  then show ?thesis
  proof cases
    case 3
    have "replicate (unat j - length f) zero_page =
        replicate (unat i - length f) zero_page @ zero_page # replicate (unat j - Suc (unat i)) zero_page"
      using assms 3 by (simp flip: replicate_Suc replicate_add)
    then show ?thesis using assms 3 by (simp add: file_write_def list_update_append)
  qed (use assms in \<open>simp_all add: file_write_def list_update_append list_update_swap\<close>)
qed

lemma file_write_commute:
  assumes "i \<noteq> j"
  shows "file_write (file_write f i a) j b = file_write (file_write f j b) i a"
  using assms file_write_commute_less [of i j] file_write_commute_less [of j i]
  by (metis linorder_neq_iff word_unat_eq_iff)

lemma read_page_write_same: "write_page p i buf = Some p' \<Longrightarrow> read_page p' i = Some buf"
  by (auto simp: write_page_def read_page_def split: if_splits)

lemma read_page_write_keep:
  "write_page p i buf = Some p' \<Longrightarrow> j \<noteq> i \<Longrightarrow> read_page p j = Some b \<Longrightarrow> read_page p' j = Some b"
  by (auto simp: write_page_def read_page_def file_read_write_keep split: if_splits)

lemma write_page_fields:
  "write_page p i buf = Some p' \<Longrightarrow>
     p_limit p' = p_limit p \<and> p_durable p' = p_durable p \<and> active_meta_slot p' = active_meta_slot p \<and>
     p_syncs p' = p_syncs p"
  by (auto simp: write_page_def split: if_splits)

lemma sync_data_ok:
  "sync_data p = (p', Inr u) \<Longrightarrow>
     p' = p\<lparr>p_syncs := tl (p_syncs p), p_durable := p_file p, p_pending := []\<rparr>"
  by (auto simp: sync_data_def Let_def split: if_splits)

lemma sync_data_fail:
  "sync_data p = (p', Inl e) \<Longrightarrow> p' = p\<lparr>p_syncs := tl (p_syncs p)\<rparr> \<and> e = SyncFailed"
  by (auto simp: sync_data_def Let_def split: if_splits)

lemma p_file_sync [simp]: "p_file (fst (sync_data p)) = p_file p"
  "p_limit (fst (sync_data p)) = p_limit p" "active_meta_slot (fst (sync_data p)) = active_meta_slot p"
  by (simp_all add: sync_data_def Let_def)

section \<open>The meta page\<close>

definition read_meta_slot :: "lib \<Rightarrow> bytes list \<Rightarrow> u64 \<Rightarrow> meta option" where
  "read_meta_slot L f slot =
     (case file_read f slot of None \<Rightarrow> None | Some buf \<Rightarrow> decode_meta L buf)"

definition write_meta_slot :: "lib \<Rightarrow> pager \<Rightarrow> u64 \<Rightarrow> meta \<Rightarrow> (pager \<times> (io_error + unit)) option" where
  "write_meta_slot L p slot m =
     (case encode_meta L m of None \<Rightarrow> None
      | Some buf \<Rightarrow>
          Some (case write_page p slot buf of None \<Rightarrow> (p, Inl WriteFailed) | Some p' \<Rightarrow> sync_data p'))"

definition commit_meta :: "lib \<Rightarrow> pager \<Rightarrow> meta \<Rightarrow> (pager \<times> (io_error + unit)) option" where
  "commit_meta L p m =
     (let next_slot = 1 - active_meta_slot p in
      case write_meta_slot L p next_slot m of None \<Rightarrow> None
      | Some (p', Inl e) \<Rightarrow> Some (p', Inl e)
      | Some (p', Inr _) \<Rightarrow> Some (p'\<lparr>active_meta_slot := next_slot\<rparr>, Inr ()))"

definition initial_meta :: meta where
  "initial_meta = \<lparr>magic = MAGIC, txn_id = 0, root = None, next_page = META_PAGE_COUNT,
     free_list_head = None\<rparr>"

definition choose_meta :: "meta option \<Rightarrow> meta option \<Rightarrow> (u64 \<times> meta) option" where
  "choose_meta m0 m1 =
     (case (m0, m1) of
        (Some a, Some b) \<Rightarrow> if txn_id b \<le> txn_id a then Some (0, a) else Some (1, b)
      | (Some a, None) \<Rightarrow> Some (0, a)
      | (None, Some b) \<Rightarrow> Some (1, b)
      | (None, None) \<Rightarrow> None)"

definition open_file :: "nat \<Rightarrow> bool list \<Rightarrow> bytes list \<Rightarrow> pager" where
  "open_file lim syncs f =
     \<lparr>p_file = f, p_durable = f, p_pending = [], p_limit = lim, p_syncs = syncs,
      active_meta_slot = 0\<rparr>"

text \<open>
  \<open>Pager::open\<close>: the argument is the file's content, None when the path does not exist.
\<close>

definition open_pager :: "lib \<Rightarrow> nat \<Rightarrow> bool list \<Rightarrow> bytes list option \<Rightarrow>
    (io_error + pager \<times> meta) option" where
  "open_pager L lim syncs existing =
     (case existing of
        None \<Rightarrow>
          (let p = open_file lim syncs [zero_page, zero_page] in
           case write_meta_slot L p 0 initial_meta of None \<Rightarrow> None
           | Some (_, Inl e) \<Rightarrow> Some (Inl e)
           | Some (p0, Inr _) \<Rightarrow>
               (case write_meta_slot L p0 1 initial_meta of None \<Rightarrow> None
                | Some (_, Inl e) \<Rightarrow> Some (Inl e)
                | Some (p1, Inr _) \<Rightarrow> Some (Inr (p1, initial_meta))))
      | Some f \<Rightarrow>
          (case choose_meta (read_meta_slot L f 0) (read_meta_slot L f 1) of
             None \<Rightarrow> Some (Inl InvalidData)
           | Some (slot, m) \<Rightarrow> Some (Inr ((open_file lim syncs f)\<lparr>active_meta_slot := slot\<rparr>, m))))"

text \<open>
  The slots of a healthy pager: the active slot holds the committed meta page, the other
  one an older meta page. Slot 0 may tie with slot 1, since open prefers slot 0.
\<close>

definition slots_ok :: "lib \<Rightarrow> bytes list \<Rightarrow> u64 \<Rightarrow> meta \<Rightarrow> bool" where
  "slots_ok L f slot m \<longleftrightarrow>
     (slot = 0 \<or> slot = 1) \<and> read_meta_slot L f slot = Some m \<and>
     (\<forall>m'. read_meta_slot L f (1 - slot) = Some m' \<longrightarrow>
        (if slot = 0 then txn_id m' \<le> txn_id m else txn_id m' < txn_id m))"

lemma slots_ok_choose:
  "slots_ok L f slot m \<Longrightarrow>
     choose_meta (read_meta_slot L f 0) (read_meta_slot L f 1) = Some (slot, m)"
  by (auto simp: slots_ok_def choose_meta_def split: option.splits)

lemma read_meta_slot_write:
  assumes "lib_ok L" "encode_meta L m = Some buf" "magic m = MAGIC"
  shows "read_meta_slot L (file_write f slot buf) slot = Some m"
  using decode_encode_laws(1) [OF assms(1), of L m buf] assms(2,3)
  by (simp add: read_meta_slot_def encode_meta_def decode_meta_def)

lemma read_meta_slot_keep:
  "read_meta_slot L f s = Some m \<Longrightarrow> i \<noteq> s \<Longrightarrow> read_meta_slot L (file_write f i buf) s = Some m"
  by (auto simp: read_meta_slot_def file_read_write_keep split: option.splits)

lemma commit_meta_slots_ok:
  assumes L: "lib_ok L" and ok: "slots_ok L (p_file p) (active_meta_slot p) m"
    and c: "commit_meta L p m' = Some (p', Inr u)" and m': "magic m' = MAGIC" "txn_id m < txn_id m'"
  shows "slots_ok L (p_file p') (active_meta_slot p') m'"
proof -
  let ?s = "active_meta_slot p"
  from c obtain buf where buf: "encode_meta L m' = Some buf"
      and p': "p_file p' = file_write (p_file p) (1 - ?s) buf" "active_meta_slot p' = 1 - ?s"
    by (auto simp: commit_meta_def write_meta_slot_def write_page_def Let_def dest: sync_data_ok
        split: option.splits if_splits sum.splits prod.splits)
  have s: "?s = 0 \<or> ?s = 1" "read_meta_slot L (p_file p) ?s = Some m"
    using ok by (auto simp: slots_ok_def)
  have "read_meta_slot L (p_file p') ?s = Some m"
    unfolding p' by (rule read_meta_slot_keep) (use s in auto)
  moreover have "read_meta_slot L (p_file p') (1 - ?s) = Some m'"
    unfolding p' by (rule read_meta_slot_write [OF L buf m'(1)])
  ultimately show ?thesis
    using s(1) m'(2) p'(2) by (auto simp: slots_ok_def)
qed

end
