(* ===== verification/Chains.thy ===== *)
theory Chains
  imports Pager
begin

text \<open>
  src/storage/overflow.rs and src/storage/freelist.rs: the two singly linked chains of pages
  of the store. \<open>read_chain\<close> reassembles an overflowed value, \<open>load\<close> reads the free list
  back, \<open>store\<close> writes it out as a fresh chain.

  A walk along a chain that runs into a page it cannot read or decode panics (the source
  \<open>expect\<close>s both), and on a cyclic chain it does not return; both are None. That the walk
  returns is proved from \<open>over_chain\<close> and \<open>free_chain\<close>, which say that the pages of a
  list hold the chain.
\<close>

section \<open>Overflow pages\<close>

definition OVERFLOW_CHUNK :: nat where
  "OVERFLOW_CHUNK = 4000"

definition over_at :: "lib \<Rightarrow> pager \<Rightarrow> page_id \<Rightarrow> overflow_page option" where
  "over_at L p i = do { buf \<leftarrow> read_page p i; decode_page L (sd_over L) buf }"

partial_function (option) read_chain_loop ::
    "lib \<Rightarrow> pager \<Rightarrow> page_id option \<Rightarrow> bytes \<Rightarrow> bytes option" where
  "read_chain_loop L p cur out =
     (case cur of None \<Rightarrow> Some out
      | Some i \<Rightarrow> do { page \<leftarrow> over_at L p i;
                      read_chain_loop L p (op_next page) (out @ op_data page) })"

definition read_chain :: "lib \<Rightarrow> pager \<Rightarrow> page_id \<Rightarrow> u64 \<Rightarrow> bytes option" where
  "read_chain L p head len = read_chain_loop L p (Some head) []"

fun hd_opt :: "'a list \<Rightarrow> 'a option" where
  "hd_opt [] = None"
| "hd_opt (x # xs) = Some x"

lemma hd_opt_not_Nil: "xs \<noteq> [] \<Longrightarrow> hd_opt xs = Some (hd xs)"
  by (cases xs) auto

fun over_chain :: "lib \<Rightarrow> pager \<Rightarrow> page_id list \<Rightarrow> bytes list \<Rightarrow> bool" where
  "over_chain L p [] [] = True"
| "over_chain L p (i # is) (d # ds) =
     (over_at L p i = Some \<lparr>op_next = hd_opt is, op_data = d\<rparr> \<and> over_chain L p is ds)"
| "over_chain L p _ _ = False"

lemma read_chain_loop_ok:
  "over_chain L p is ds \<Longrightarrow> read_chain_loop L p (hd_opt is) out = Some (out @ concat ds)"
proof (induction L p "is" ds arbitrary: out rule: over_chain.induct)
  case (1 L p)
  then show ?case by (simp add: read_chain_loop.simps)
next
  case (2 L p i "is" d ds)
  then show ?case by (simp add: read_chain_loop.simps [of L p "Some i"])
qed auto

lemma read_chain_ok:
  "over_chain L p is ds \<Longrightarrow> is \<noteq> [] \<Longrightarrow> read_chain L p (hd is) len = Some (concat ds)"
  using read_chain_loop_ok [of L p "is" ds "[]"] by (simp add: read_chain_def hd_opt_not_Nil)

text \<open>Reading goes on as before when the pages that could be read still can.\<close>

definition keeps :: "pager \<Rightarrow> pager \<Rightarrow> page_id \<Rightarrow> bool" where
  "keeps p p' i \<longleftrightarrow> (\<forall>b. read_page p i = Some b \<longrightarrow> read_page p' i = Some b)"

lemma keeps_refl [simp]: "keeps p p i"
  by (simp add: keeps_def)

lemma keeps_trans: "keeps p q i \<Longrightarrow> keeps q r i \<Longrightarrow> keeps p r i"
  by (simp add: keeps_def)

lemma keeps_write: "write_page p i buf = Some p' \<Longrightarrow> j \<noteq> i \<Longrightarrow> keeps p p' j"
  by (auto simp: keeps_def intro: read_page_write_keep)

lemma over_at_keeps: "keeps p p' i \<Longrightarrow> over_at L p i = Some v \<Longrightarrow> over_at L p' i = Some v"
  by (auto simp: over_at_def keeps_def bind_Some_iff)

lemma over_chain_keeps:
  "over_chain L p is ds \<Longrightarrow> (\<And>i. i \<in> set is \<Longrightarrow> keeps p p' i) \<Longrightarrow> over_chain L p' is ds"
  by (induction L p "is" ds rule: over_chain.induct) (auto intro: over_at_keeps)

lemma over_chain_length: "over_chain L p is ds \<Longrightarrow> length is = length ds"
  by (induction L p "is" ds rule: over_chain.induct) auto

section \<open>Writing to a set of pages\<close>

definition apply_writes :: "(page_id \<times> bytes) list \<Rightarrow> bytes list \<Rightarrow> bytes list" where
  "apply_writes ws f = foldl (\<lambda>f (i, b). file_write f i b) f ws"

definition wrote :: "page_id set \<Rightarrow> pager \<Rightarrow> pager \<Rightarrow> bool" where
  "wrote X p p' \<longleftrightarrow> (\<exists>ws. fst ` set ws \<subseteq> X \<and>
     p' = p\<lparr>p_file := apply_writes ws (p_file p), p_pending := p_pending p @ ws\<rparr>)"

lemma apply_writes_Nil [simp]: "apply_writes [] f = f"
  by (simp add: apply_writes_def)

lemma apply_writes_Cons [simp]:
  "apply_writes ((i, b) # ws) f = apply_writes ws (file_write f i b)"
  by (simp add: apply_writes_def)

lemma apply_writes_append: "apply_writes (vs @ ws) f = apply_writes ws (apply_writes vs f)"
  by (simp add: apply_writes_def)

lemma file_read_apply_writes:
  "file_read f i = Some b \<Longrightarrow> i \<notin> fst ` set ws \<Longrightarrow> file_read (apply_writes ws f) i = Some b"
  by (induction ws arbitrary: f) (auto simp: file_read_write_keep)

lemma wrote_refl [simp]: "wrote X p p"
  unfolding wrote_def by (rule exI [of _ "[]"]) simp

lemma wrote_trans: "wrote X p q \<Longrightarrow> wrote Y q r \<Longrightarrow> wrote (X \<union> Y) p r"
  unfolding wrote_def by (elim exE, rule_tac x = "ws @ wsa" in exI) (auto simp: apply_writes_append)

lemma wrote_mono: "wrote X p q \<Longrightarrow> X \<subseteq> Y \<Longrightarrow> wrote Y p q"
  unfolding wrote_def by blast

lemma wrote_write: "write_page p i b = Some p' \<Longrightarrow> wrote {i} p p'"
  unfolding wrote_def write_page_def
  by (rule exI [of _ "[(i, b)]"]) (auto split: if_splits)

lemma wrote_keeps:
  assumes "wrote X p p'" "i \<notin> X"
  shows "keeps p p' i"
proof -
  obtain ws where ws: "fst ` set ws \<subseteq> X" "p_file p' = apply_writes ws (p_file p)"
    using assms(1) by (auto simp: wrote_def)
  then have "i \<notin> fst ` set ws" using assms(2) by blast
  then show ?thesis by (simp add: keeps_def read_page_def ws(2) file_read_apply_writes)
qed

lemma wrote_fields: "wrote X p p' \<Longrightarrow>
    p_limit p' = p_limit p \<and> p_durable p' = p_durable p \<and> active_meta_slot p' = active_meta_slot p \<and>
    p_syncs p' = p_syncs p"
  by (auto simp: wrote_def)

section \<open>Sources of page numbers\<close>

text \<open>
  Both chains are written by a loop that asks an allocator for a page per chunk. The
  contract of the allocator: while its invariant holds, a page it hands out was available
  and is not available afterwards.
\<close>

locale page_source =
  fixes alloc :: "'s \<Rightarrow> (page_id \<times> 's) option"
    and avail :: "'s \<Rightarrow> page_id set"
    and inv :: "'s \<Rightarrow> bool"
  assumes alloc_inv: "inv s \<Longrightarrow> alloc s = Some (i, s') \<Longrightarrow> inv s'"
    and alloc_avail: "inv s \<Longrightarrow> alloc s = Some (i, s') \<Longrightarrow> i \<in> avail s"
    and alloc_used: "inv s \<Longrightarrow> alloc s = Some (i, s') \<Longrightarrow> avail s' = avail s - {i}"

section \<open>The free list\<close>

definition FREELIST_CHUNK :: nat where
  "FREELIST_CHUNK = 200"

definition free_at :: "lib \<Rightarrow> pager \<Rightarrow> page_id \<Rightarrow> free_list_page option" where
  "free_at L p i = do { buf \<leftarrow> read_page p i; decode_page L (sd_free L) buf }"

partial_function (option) load_loop ::
    "lib \<Rightarrow> pager \<Rightarrow> page_id option \<Rightarrow> (u64 \<times> page_id) list \<Rightarrow> (u64 \<times> page_id) list option" where
  "load_loop L p cur out =
     (case cur of None \<Rightarrow> Some out
      | Some i \<Rightarrow> do { page \<leftarrow> free_at L p i;
                      load_loop L p (fp_next page) (out @ fp_entries page) })"

definition load :: "lib \<Rightarrow> pager \<Rightarrow> page_id option \<Rightarrow> (u64 \<times> page_id) list option" where
  "load L p head = load_loop L p head []"

fun store_chunks :: "lib \<Rightarrow> ('s \<Rightarrow> (page_id \<times> 's) option) \<Rightarrow> pager \<Rightarrow> 's \<Rightarrow> page_id option \<Rightarrow>
    (u64 \<times> page_id) list list \<Rightarrow> (pager \<times> (io_error + 's \<times> page_id option)) option" where
  "store_chunks L alloc p s next [] = Some (p, Inr (s, next))"
| "store_chunks L alloc p s next (chunk # rest) =
     (case alloc s of None \<Rightarrow> None
      | Some (i, s') \<Rightarrow>
          (case encode_page L (sd_free L) \<lparr>fp_next = next, fp_entries = chunk\<rparr> of None \<Rightarrow> None
           | Some buf \<Rightarrow>
               (case write_page p i buf of
                  None \<Rightarrow> Some (p, Inl WriteFailed)
                | Some p' \<Rightarrow> store_chunks L alloc p' s' (Some i) rest)))"

definition store :: "lib \<Rightarrow> ('s \<Rightarrow> (page_id \<times> 's) option) \<Rightarrow> pager \<Rightarrow> 's \<Rightarrow>
    (u64 \<times> page_id) list \<Rightarrow> (pager \<times> (io_error + 's \<times> page_id option)) option" where
  "store L alloc p s entries = store_chunks L alloc p s None (chunks FREELIST_CHUNK entries)"

fun free_chain :: "lib \<Rightarrow> pager \<Rightarrow> page_id list \<Rightarrow> (u64 \<times> page_id) list list \<Rightarrow> bool" where
  "free_chain L p [] [] = True"
| "free_chain L p (i # is) (e # es) =
     (free_at L p i = Some \<lparr>fp_next = hd_opt is, fp_entries = e\<rparr> \<and> free_chain L p is es)"
| "free_chain L p _ _ = False"

lemma load_loop_ok:
  "free_chain L p is es \<Longrightarrow> load_loop L p (hd_opt is) out = Some (out @ concat es)"
proof (induction L p "is" es arbitrary: out rule: free_chain.induct)
  case (1 L p)
  then show ?case by (simp add: load_loop.simps)
next
  case (2 L p i "is" e es)
  then show ?case by (simp add: load_loop.simps [of L p "Some i"])
qed auto

lemma load_ok: "free_chain L p is es \<Longrightarrow> load L p (hd_opt is) = Some (concat es)"
  by (simp add: load_def load_loop_ok)

lemma free_at_keeps: "keeps p p' i \<Longrightarrow> free_at L p i = Some v \<Longrightarrow> free_at L p' i = Some v"
  by (auto simp: free_at_def keeps_def bind_Some_iff)

lemma free_chain_keeps:
  "free_chain L p is es \<Longrightarrow> (\<And>i. i \<in> set is \<Longrightarrow> keeps p p' i) \<Longrightarrow> free_chain L p' is es"
  by (induction L p "is" es rule: free_chain.induct) (auto intro: free_at_keeps)

lemma free_at_write:
  assumes "lib_ok L" "encode_page L (sd_free L) v = Some buf" "write_page p i buf = Some p'"
  shows "free_at L p' i = Some v"
  using read_page_write_same [OF assms(3)] decode_encode_laws(3) [OF assms(1,2)]
  by (simp add: free_at_def)

lemma over_at_write:
  assumes "lib_ok L" "encode_page L (sd_over L) v = Some buf" "write_page p i buf = Some p'"
  shows "over_at L p' i = Some v"
  using read_page_write_same [OF assms(3)] decode_encode_laws(4) [OF assms(1,2)]
  by (simp add: over_at_def)

lemma mset_concat_rev: "mset (concat (rev xss)) = mset (concat xss)"
  by (induction xss) auto

context page_source
begin

text \<open>
  The client's view of \<open>store\<close>: it writes available pages only, each once, and leaves a
  chain that loads back to the chunks in reverse order.
\<close>

lemma store_chunks_ok:
  assumes "lib_ok L" "inv s" "free_chain L p is es" "set is \<inter> avail s = {}"
    "store_chunks L alloc p s (hd_opt is) cs = Some (p', Inr (s', head))"
  shows "\<exists>new. head = hd_opt (new @ is) \<and> free_chain L p' (new @ is) (rev cs @ es) \<and>
     set new \<subseteq> avail s \<and> avail s' = avail s - set new \<and> inv s' \<and>
     (\<forall>i. i \<notin> avail s \<longrightarrow> keeps p p' i)"
  using assms
proof (induction cs arbitrary: p s "is" es)
  case Nil
  then show ?case by (intro exI [of _ "[]"]) auto
next
  case (Cons c cs)
  from Cons.prems(5) obtain i s1 buf p1 where
      i: "alloc s = Some (i, s1)"
      and buf: "encode_page L (sd_free L) \<lparr>fp_next = hd_opt is, fp_entries = c\<rparr> = Some buf"
      and p1: "write_page p i buf = Some p1"
      and rest: "store_chunks L alloc p1 s1 (hd_opt (i # is)) cs = Some (p', Inr (s', head))"
    by (auto split: option.splits prod.splits)
  note al = alloc_inv [OF Cons.prems(2) i] alloc_avail [OF Cons.prems(2) i]
    alloc_used [OF Cons.prems(2) i]
  have keep1: "keeps p p1 j" if "j \<noteq> i" for j
    by (rule keeps_write [OF p1 that])
  have "free_chain L p1 is es"
    using Cons.prems(3,4) al(2) by (auto intro!: free_chain_keeps [OF _ keep1])
  then have chain: "free_chain L p1 (i # is) (c # es)"
    using free_at_write [OF Cons.prems(1) buf p1] by simp
  have disj: "set (i # is) \<inter> avail s1 = {}" using Cons.prems(4) al(3) by auto
  obtain new where new: "head = hd_opt (new @ i # is)"
      "free_chain L p' (new @ i # is) (rev cs @ c # es)" "set new \<subseteq> avail s1"
      "avail s' = avail s1 - set new" "inv s'" "\<forall>j. j \<notin> avail s1 \<longrightarrow> keeps p1 p' j"
    using Cons.IH [OF Cons.prems(1) al(1) chain disj rest] by blast
  have "keeps p p' j" if "j \<notin> avail s" for j
  proof (rule keeps_trans)
    show "keeps p p1 j" using that al(2) by (intro keep1) auto
    show "keeps p1 p' j" using that al(3) new(6) by auto
  qed
  moreover have "avail s' = avail s - set (new @ [i])" "set (new @ [i]) \<subseteq> avail s"
    using new(3,4) al(2,3) by auto
  ultimately show ?case
    using new(1,2,5) by (intro exI [of _ "new @ [i]"]) simp
qed

lemma store_ok:
  assumes "lib_ok L" "inv s" "store L alloc p s entries = Some (p', Inr (s', head))"
  shows "\<exists>is. head = hd_opt is \<and> free_chain L p' is (rev (chunks FREELIST_CHUNK entries)) \<and>
     set is \<subseteq> avail s \<and> avail s' = avail s - set is \<and> inv s' \<and>
     (\<forall>i. i \<notin> avail s \<longrightarrow> keeps p p' i)"
  using store_chunks_ok [OF assms(1,2), of p "[]" "[]" "chunks FREELIST_CHUNK entries" p' s' head]
    assms(3)
  by (auto simp: store_def)

lemma store_chunks_wrote:
  "inv s \<Longrightarrow> store_chunks L alloc p s next cs = Some (p', r) \<Longrightarrow> wrote (avail s) p p'"
proof (induction cs arbitrary: p s "next")
  case Nil
  then show ?case by simp
next
  case (Cons c cs)
  from Cons.prems(2) obtain i s1 buf where i: "alloc s = Some (i, s1)"
      and rest: "(case write_page p i buf of None \<Rightarrow> Some (p, Inl WriteFailed)
        | Some p1 \<Rightarrow> store_chunks L alloc p1 s1 (Some i) cs) = Some (p', r)"
    by (auto split: option.splits prod.splits)
  note al = alloc_inv [OF Cons.prems(1) i] alloc_avail [OF Cons.prems(1) i]
    alloc_used [OF Cons.prems(1) i]
  show ?case
  proof (cases "write_page p i buf")
    case None
    then show ?thesis using rest by simp
  next
    case (Some p1)
    then have "wrote (avail s1) p1 p'" using Cons.IH [OF al(1)] rest by simp
    with wrote_write [OF Some] have "wrote ({i} \<union> avail s1) p p'" by (rule wrote_trans)
    then show ?thesis by (rule wrote_mono) (use al in auto)
  qed
qed

lemma store_wrote: "inv s \<Longrightarrow> store L alloc p s entries = Some (p', r) \<Longrightarrow> wrote (avail s) p p'"
  unfolding store_def by (rule store_chunks_wrote)

lemma store_load_mset:
  assumes "lib_ok L" "inv s" "store L alloc p s entries = Some (p', Inr (s', head))"
  shows "\<exists>out. load L p' head = Some out \<and> mset out = mset entries"
proof -
  obtain "is" where "head = hd_opt is" "free_chain L p' is (rev (chunks FREELIST_CHUNK entries))"
    using store_ok [OF assms] by blast
  then have "load L p' head = Some (concat (rev (chunks FREELIST_CHUNK entries)))"
    by (simp add: load_ok)
  moreover have "mset (concat (rev (chunks FREELIST_CHUNK entries))) = mset entries"
    by (simp add: mset_concat_rev FREELIST_CHUNK_def concat_chunks)
  ultimately show ?thesis by blast
qed

end

text \<open>The bump allocator that \<open>commit\<close> passes to \<open>store\<close>: page numbers past \<open>next_page\<close>.\<close>

definition bump :: "page_id \<Rightarrow> (page_id \<times> page_id) option" where
  "bump np = (if np = u64_max then None else Some (np, np + 1))"

lemma bump_Some: "bump np = Some (i, np') \<longleftrightarrow> np \<noteq> u64_max \<and> i = np \<and> np' = np + 1"
  by (auto simp: bump_def)

interpretation bump_source: page_source bump "\<lambda>np. {i. np \<le> i}" "\<lambda>_. True"
proof unfold_locales
  fix s i s'
  assume b: "bump s = Some (i, s')"
  then show "i \<in> {i. s \<le> i}" by (simp add: bump_Some)
  show "{i. s' \<le> i} = {i. s \<le> i} - {i}"
    using b by (auto simp: bump_Some less_plus_one_iff simp flip: not_less)
qed simp

end
