(* ===== verification/BTree_Ops.thy ===== *)
theory BTree_Ops
  imports Chains
begin

text \<open>
  src/storage/btree.rs: the copy-on-write B-tree, its page allocation and page retirement.

  The state is the record \<open>ctx\<close>, the source's \<open>Ctx\<close> with what it borrows: the pager, the
  overlay of dirty nodes (a hash map in the source, an association list without repeated
  keys here), the bump allocator, the free list, the pages this transaction obsoletes and
  its scratch pool. An operation that can panic or that may not return on a corrupt store
  gives an option; the recursions over page numbers are \<open>partial_function (option)\<close>, and
  the theories on their correctness prove that they return on a well-formed store.

  The source repeats the same three lines wherever a node is replaced (mark the page
  obsolete unless it is scratch, then reuse it if it is scratch or else allocate); they are
  \<open>cow_page\<close> here. The two merge attempts of \<open>delete_rec\<close> (right, then left sibling) are
  the same steps one index apart and are \<open>merge_at\<close>.
\<close>

definition SPLIT_THRESHOLD :: nat where
  "SPLIT_THRESHOLD = 3072"

definition MERGE_THRESHOLD :: nat where
  "MERGE_THRESHOLD = SPLIT_THRESHOLD div 4"

definition INLINE_VALUE_LIMIT :: nat where
  "INLINE_VALUE_LIMIT = 512"

type_synonym overlay = "(page_id \<times> node) list"

section \<open>Reading\<close>

definition read_node :: "lib \<Rightarrow> pager \<Rightarrow> overlay \<Rightarrow> page_id \<Rightarrow> node option" where
  "read_node L p ov i =
     (case map_of ov i of Some n \<Rightarrow> Some n
      | None \<Rightarrow> do { buf \<leftarrow> read_page p i; decode_page L (sd_node L) buf })"

definition child_index :: "bytes list \<Rightarrow> bytes \<Rightarrow> nat" where
  "child_index keys key = partition_point (\<lambda>k. k \<le> key) keys"

fun resolve_value :: "lib \<Rightarrow> pager \<Rightarrow> stored_value \<Rightarrow> bytes option" where
  "resolve_value L p (Inline b) = Some b"
| "resolve_value L p (Overflow head len) = read_chain L p head len"

partial_function (option) get_loop ::
    "lib \<Rightarrow> pager \<Rightarrow> overlay \<Rightarrow> bytes \<Rightarrow> page_id \<Rightarrow> bytes option option" where
  "get_loop L p ov key cur =
     do { n \<leftarrow> read_node L p ov cur;
          case n of
            Leaf keys values \<Rightarrow>
              (case binary_search_by (\<lambda>k. cmp k key) keys of
                 Found i \<Rightarrow> do { v \<leftarrow> get_at values i; b \<leftarrow> resolve_value L p v; Some (Some b) }
               | Missing i \<Rightarrow> Some None)
          | Internal keys children \<Rightarrow>
              do { child \<leftarrow> get_at children (child_index keys key);
                   get_loop L p ov key child } }"

definition btree_get :: "lib \<Rightarrow> pager \<Rightarrow> overlay \<Rightarrow> page_id option \<Rightarrow> bytes \<Rightarrow> bytes option option" where
  "btree_get L p ov r key =
     (case r of None \<Rightarrow> Some None | Some i \<Rightarrow> get_loop L p ov key i)"

definition in_range :: "bytes option \<Rightarrow> bytes option \<Rightarrow> bytes \<Rightarrow> bool" where
  "in_range lo hi k \<longleftrightarrow>
     (case lo of None \<Rightarrow> True | Some s \<Rightarrow> s \<le> k) \<and> (case hi of None \<Rightarrow> True | Some e \<Rightarrow> k < e)"

fun collect_leaf :: "lib \<Rightarrow> pager \<Rightarrow> bytes option \<Rightarrow> bytes option \<Rightarrow> (bytes \<times> stored_value) list \<Rightarrow>
    (bytes \<times> bytes) list option" where
  "collect_leaf L p lo hi [] = Some []"
| "collect_leaf L p lo hi ((k, v) # kvs) =
     (if in_range lo hi k
      then do { b \<leftarrow> resolve_value L p v; rest \<leftarrow> collect_leaf L p lo hi kvs; Some ((k, b) # rest) }
      else collect_leaf L p lo hi kvs)"

text \<open>\<open>collect\<close> over a list of nodes: the source's call is the list of one node, its loop over
  the children of an internal node is the list of the children.\<close>

partial_function (option) collect :: "lib \<Rightarrow> pager \<Rightarrow> overlay \<Rightarrow> bytes option \<Rightarrow> bytes option \<Rightarrow>
    page_id list \<Rightarrow> (bytes \<times> bytes) list option" where
  "collect L p ov lo hi ids =
     (case ids of [] \<Rightarrow> Some []
      | i # rest \<Rightarrow>
          do { n \<leftarrow> read_node L p ov i;
               here \<leftarrow> (case n of Leaf keys values \<Rightarrow> collect_leaf L p lo hi (zip keys values)
                         | Internal keys children \<Rightarrow> collect L p ov lo hi children);
               there \<leftarrow> collect L p ov lo hi rest;
               Some (here @ there) })"

definition btree_range :: "lib \<Rightarrow> pager \<Rightarrow> overlay \<Rightarrow> page_id option \<Rightarrow> bytes option \<Rightarrow>
    bytes option \<Rightarrow> (bytes \<times> bytes) list option" where
  "btree_range L p ov r lo hi =
     (case r of None \<Rightarrow> Some [] | Some i \<Rightarrow> collect L p ov lo hi [i])"

section \<open>The write context\<close>

record ctx =
  c_pager :: pager
  c_overlay :: overlay
  c_next_page :: page_id
  c_free_list :: "(u64 \<times> page_id) list"
  c_obsolete :: "page_id list"
  c_scratch_pool :: "page_id list"
  c_watermark :: u64

definition alloc :: "ctx \<Rightarrow> (page_id \<times> ctx) option" where
  "alloc c =
     (if c_scratch_pool c \<noteq> []
      then Some (last (c_scratch_pool c), c\<lparr>c_scratch_pool := butlast (c_scratch_pool c)\<rparr>)
      else case position (\<lambda>(freed_at, _). freed_at \<le> c_watermark c) (c_free_list c) of
        Some pos \<Rightarrow>
          Some (snd (c_free_list c ! pos), c\<lparr>c_free_list := swap_remove pos (c_free_list c)\<rparr>)
      | None \<Rightarrow>
          if c_next_page c = u64_max then None
          else Some (c_next_page c, c\<lparr>c_next_page := c_next_page c + 1\<rparr>))"

definition is_scratch :: "ctx \<Rightarrow> page_id \<Rightarrow> bool" where
  "is_scratch c i \<longleftrightarrow> map_of (c_overlay c) i \<noteq> None"

definition mark_obsolete :: "ctx \<Rightarrow> page_id \<Rightarrow> ctx" where
  "mark_obsolete c i = (if is_scratch c i then c else c\<lparr>c_obsolete := c_obsolete c @ [i]\<rparr>)"

definition retire :: "ctx \<Rightarrow> page_id \<Rightarrow> ctx" where
  "retire c i =
     (if is_scratch c i
      then c\<lparr>c_overlay := AList.delete i (c_overlay c), c_scratch_pool := c_scratch_pool c @ [i]\<rparr>
      else c\<lparr>c_obsolete := c_obsolete c @ [i]\<rparr>)"

definition put_node :: "ctx \<Rightarrow> page_id \<Rightarrow> node \<Rightarrow> ctx" where
  "put_node c i n = c\<lparr>c_overlay := AList.update i n (c_overlay c)\<rparr>"

definition ctx_read :: "lib \<Rightarrow> ctx \<Rightarrow> page_id \<Rightarrow> node option" where
  "ctx_read L c i = read_node L (c_pager c) (c_overlay c) i"

fun write_chunks :: "lib \<Rightarrow> ctx \<Rightarrow> page_id option \<Rightarrow> bytes list \<Rightarrow> (page_id option \<times> ctx) option" where
  "write_chunks L c next [] = Some (next, c)"
| "write_chunks L c next (chunk # rest) =
     do { (i, c1) \<leftarrow> alloc c;
          buf \<leftarrow> encode_page L (sd_over L) \<lparr>op_next = next, op_data = chunk\<rparr>;
          p \<leftarrow> write_page (c_pager c1) i buf;
          write_chunks L (c1\<lparr>c_pager := p\<rparr>) (Some i) rest }"

definition store_value :: "lib \<Rightarrow> ctx \<Rightarrow> bytes \<Rightarrow> (stored_value \<times> ctx) option" where
  "store_value L c value =
     (if length value \<le> INLINE_VALUE_LIMIT then Some (Inline value, c)
      else do { (next, c1) \<leftarrow> write_chunks L c None (rev (chunks OVERFLOW_CHUNK value));
                head \<leftarrow> next;
                Some (Overflow head (of_nat (length value)), c1) })"

partial_function (option) retire_chain :: "lib \<Rightarrow> ctx \<Rightarrow> page_id option \<Rightarrow> ctx option" where
  "retire_chain L c cur =
     (case cur of None \<Rightarrow> Some c
      | Some i \<Rightarrow> do { page \<leftarrow> over_at L (c_pager c) i;
                      retire_chain L (c\<lparr>c_obsolete := c_obsolete c @ [i]\<rparr>) (op_next page) })"

fun retire_value :: "lib \<Rightarrow> ctx \<Rightarrow> stored_value \<Rightarrow> ctx option" where
  "retire_value L c (Inline b) = Some c"
| "retire_value L c (Overflow head len) = retire_chain L c (Some head)"

definition cow_page :: "ctx \<Rightarrow> bool \<Rightarrow> page_id \<Rightarrow> (page_id \<times> ctx) option" where
  "cow_page c scratch i = (if scratch then Some (i, c) else alloc (mark_obsolete c i))"

section \<open>Insertion\<close>

type_synonym descend_result = "page_id \<times> (bytes \<times> page_id) option"

definition insert_leaf :: "lib \<Rightarrow> ctx \<Rightarrow> bytes \<Rightarrow> bytes \<Rightarrow> bytes list \<Rightarrow> stored_value list \<Rightarrow>
    ((bytes list \<times> stored_value list) \<times> ctx) option" where
  "insert_leaf L c key value keys values =
     (case binary_search_by (\<lambda>k. cmp k key) keys of
        Found idx \<Rightarrow>
          do { old \<leftarrow> get_at values idx;
               c1 \<leftarrow> retire_value L c old;
               (sv, c2) \<leftarrow> store_value L c1 value;
               values' \<leftarrow> set_at values idx sv;
               Some ((keys, values'), c2) }
      | Missing idx \<Rightarrow>
          do { keys' \<leftarrow> insert_at keys idx key;
               (sv, c1) \<leftarrow> store_value L c value;
               values' \<leftarrow> insert_at values idx sv;
               Some ((keys', values'), c1) })"

definition finish_leaf :: "lib \<Rightarrow> ctx \<Rightarrow> bool \<Rightarrow> page_id \<Rightarrow> bytes list \<Rightarrow> stored_value list \<Rightarrow>
    (descend_result \<times> ctx) option" where
  "finish_leaf L c scratch node_id keys values =
     (if SPLIT_THRESHOLD < encoded_len (sd_node L) (Leaf keys values)
      then do {
        let mid = length keys div 2;
        right_values \<leftarrow> slice_from values mid;
        left_values \<leftarrow> slice_to values mid;
        sep \<leftarrow> get_at (drop mid keys) 0;
        (left_id, c1) \<leftarrow> cow_page c scratch node_id;
        (right_id, c2) \<leftarrow> alloc c1;
        let c3 = put_node c2 left_id (Leaf (take mid keys) left_values);
        let c4 = put_node c3 right_id (Leaf (drop mid keys) right_values);
        Some ((left_id, Some (sep, right_id)), c4) }
      else do {
        (new_id, c1) \<leftarrow> cow_page c scratch node_id;
        Some ((new_id, None), put_node c1 new_id (Leaf keys values)) })"

definition finish_internal :: "lib \<Rightarrow> ctx \<Rightarrow> bool \<Rightarrow> page_id \<Rightarrow> bytes list \<Rightarrow> page_id list \<Rightarrow>
    (descend_result \<times> ctx) option" where
  "finish_internal L c scratch node_id keys children =
     (if SPLIT_THRESHOLD < encoded_len (sd_node L) (Internal keys children)
      then do {
        let mid = length keys div 2;
        promoted \<leftarrow> get_at keys mid;
        right_keys \<leftarrow> slice_from keys (Suc mid);
        left_children \<leftarrow> slice_to children (Suc mid);
        right_children \<leftarrow> slice_from children (Suc mid);
        (left_id, c1) \<leftarrow> cow_page c scratch node_id;
        (right_id, c2) \<leftarrow> alloc c1;
        let c3 = put_node c2 left_id (Internal (take mid keys) left_children);
        let c4 = put_node c3 right_id (Internal right_keys right_children);
        Some ((left_id, Some (promoted, right_id)), c4) }
      else do {
        (new_id, c1) \<leftarrow> cow_page c scratch node_id;
        Some ((new_id, None), put_node c1 new_id (Internal keys children)) })"

definition absorb_split :: "bytes list \<Rightarrow> page_id list \<Rightarrow> nat \<Rightarrow> descend_result \<Rightarrow>
    (bytes list \<times> page_id list) option" where
  "absorb_split keys children idx res =
     do { children1 \<leftarrow> set_at children idx (fst res);
          (case snd res of
             None \<Rightarrow> Some (keys, children1)
           | Some (sep, sibling_id) \<Rightarrow>
               do { keys' \<leftarrow> insert_at keys idx sep;
                    children' \<leftarrow> insert_at children1 (Suc idx) sibling_id;
                    Some (keys', children') }) }"

partial_function (option) insert_rec ::
    "lib \<Rightarrow> bytes \<Rightarrow> bytes \<Rightarrow> ctx \<Rightarrow> page_id \<Rightarrow> (descend_result \<times> ctx) option" where
  "insert_rec L key value c node_id =
     do { n \<leftarrow> ctx_read L c node_id;
          case n of
            Leaf keys values \<Rightarrow>
              do { ((keys', values'), c1) \<leftarrow> insert_leaf L c key value keys values;
                   finish_leaf L c1 (is_scratch c node_id) node_id keys' values' }
          | Internal keys children \<Rightarrow>
              do { child \<leftarrow> get_at children (child_index keys key);
                   (res, c1) \<leftarrow> insert_rec L key value c child;
                   (keys', children') \<leftarrow> absorb_split keys children (child_index keys key) res;
                   finish_internal L c1 (is_scratch c node_id) node_id keys' children' } }"

definition btree_put :: "lib \<Rightarrow> ctx \<Rightarrow> page_id option \<Rightarrow> bytes \<Rightarrow> bytes \<Rightarrow> (page_id \<times> ctx) option" where
  "btree_put L c r key value =
     (case r of
        None \<Rightarrow>
          do { (stored, c1) \<leftarrow> store_value L c value;
               (i, c2) \<leftarrow> alloc c1;
               Some (i, put_node c2 i (Leaf [key] [stored])) }
      | Some root_id \<Rightarrow>
          do { ((new_root, split), c1) \<leftarrow> insert_rec L key value c root_id;
               (case split of
                  None \<Rightarrow> Some (new_root, c1)
                | Some (sep, sibling) \<Rightarrow>
                    do { (i, c2) \<leftarrow> alloc c1;
                         Some (i, put_node c2 i (Internal [sep] [new_root, sibling])) }) })"

section \<open>Deletion\<close>

fun try_merge :: "lib \<Rightarrow> node \<Rightarrow> node \<Rightarrow> bytes option \<Rightarrow> node option option" where
  "try_merge L (Leaf lk lv) (Leaf rk rv) separator =
     (let merged = Leaf (lk @ rk) (lv @ rv)
      in Some (if encoded_len (sd_node L) merged \<le> SPLIT_THRESHOLD then Some merged else None))"
| "try_merge L (Internal lk lc) (Internal rk rc) separator =
     (case separator of None \<Rightarrow> None
      | Some sep \<Rightarrow>
          let merged = Internal (lk @ [sep] @ rk) (lc @ rc)
          in Some (if encoded_len (sd_node L) merged \<le> SPLIT_THRESHOLD then Some merged else None))"
| "try_merge L _ _ separator = Some None"

definition is_underfull :: "lib \<Rightarrow> node \<Rightarrow> bool" where
  "is_underfull L n \<longleftrightarrow> encoded_len (sd_node L) n < MERGE_THRESHOLD"

text \<open>Merge the children at \<open>i\<close> and \<open>i + 1\<close> if the merged node is small enough.\<close>

definition merge_at :: "lib \<Rightarrow> ctx \<Rightarrow> nat \<Rightarrow> bytes list \<Rightarrow> page_id list \<Rightarrow>
    ((bool \<times> bytes list \<times> page_id list) \<times> ctx) option" where
  "merge_at L c i keys children =
     do { left_id \<leftarrow> get_at children i;
          right_id \<leftarrow> get_at children (Suc i);
          sep \<leftarrow> get_at keys i;
          left \<leftarrow> ctx_read L c left_id;
          right \<leftarrow> ctx_read L c right_id;
          m \<leftarrow> try_merge L left right (Some sep);
          (case m of
             None \<Rightarrow> Some ((False, keys, children), c)
           | Some merged \<Rightarrow>
               do { let c1 = retire (retire c left_id) right_id;
                    (merged_id, c2) \<leftarrow> alloc c1;
                    let c3 = put_node c2 merged_id merged;
                    children1 \<leftarrow> set_at children i merged_id;
                    (_, children') \<leftarrow> remove_at children1 (Suc i);
                    (_, keys') \<leftarrow> remove_at keys i;
                    Some ((True, keys', children'), c3) }) }"

definition rebalance :: "lib \<Rightarrow> ctx \<Rightarrow> nat \<Rightarrow> bytes list \<Rightarrow> page_id list \<Rightarrow>
    ((bytes list \<times> page_id list) \<times> ctx) option" where
  "rebalance L c idx keys children =
     do { child \<leftarrow> get_at children idx;
          n \<leftarrow> ctx_read L c child;
          if is_underfull L n
          then do {
            ((merged_right, keys1, children1), c1) \<leftarrow>
               (if Suc idx < length children then merge_at L c idx keys children
                else Some ((False, keys, children), c));
            if \<not> merged_right \<and> 0 < idx
            then do { ((_, keys2, children2), c2) \<leftarrow> merge_at L c1 (idx - 1) keys1 children1;
                      Some ((keys2, children2), c2) }
            else Some ((keys1, children1), c1) }
          else Some ((keys, children), c) }"

definition replace_node :: "ctx \<Rightarrow> bool \<Rightarrow> page_id \<Rightarrow> node \<Rightarrow> (page_id \<times> ctx) option" where
  "replace_node c scratch node_id n =
     do { (new_id, c1) \<leftarrow> cow_page c scratch node_id; Some (new_id, put_node c1 new_id n) }"

partial_function (option) delete_rec ::
    "lib \<Rightarrow> bytes \<Rightarrow> ctx \<Rightarrow> page_id \<Rightarrow> ((page_id \<times> bool) \<times> ctx) option" where
  "delete_rec L key c node_id =
     do { n \<leftarrow> ctx_read L c node_id;
          case n of
            Leaf keys values \<Rightarrow>
              (case binary_search_by (\<lambda>k. cmp k key) keys of
                 Missing i \<Rightarrow> Some ((node_id, False), c)
               | Found idx \<Rightarrow>
                   do { (_, keys') \<leftarrow> remove_at keys idx;
                        (old_value, values') \<leftarrow> remove_at values idx;
                        c1 \<leftarrow> retire_value L c old_value;
                        (new_id, c2) \<leftarrow> replace_node c1 (is_scratch c node_id) node_id (Leaf keys' values');
                        Some ((new_id, True), c2) })
          | Internal keys children \<Rightarrow>
              do { let idx = child_index keys key;
                   child \<leftarrow> get_at children idx;
                   ((new_child, removed), c1) \<leftarrow> delete_rec L key c child;
                   if \<not> removed then Some ((node_id, False), c1)
                   else do {
                     children1 \<leftarrow> set_at children idx new_child;
                     ((keys', children'), c2) \<leftarrow> rebalance L c1 idx keys children1;
                     (new_id, c3) \<leftarrow>
                        replace_node c2 (is_scratch c node_id) node_id (Internal keys' children');
                     Some ((new_id, True), c3) } } }"

partial_function (option) finalize_root :: "lib \<Rightarrow> ctx \<Rightarrow> page_id \<Rightarrow> (page_id option \<times> ctx) option" where
  "finalize_root L c root_id =
     do { n \<leftarrow> ctx_read L c root_id;
          case n of
            Leaf keys values \<Rightarrow>
              if keys = [] then Some (None, retire c root_id) else Some (Some root_id, c)
          | Internal keys children \<Rightarrow>
              if keys = [] \<and> length children = 1
              then finalize_root L (retire c root_id) (hd children)
              else Some (Some root_id, c) }"

definition btree_delete :: "lib \<Rightarrow> ctx \<Rightarrow> page_id option \<Rightarrow> bytes \<Rightarrow>
    ((page_id option \<times> bool) \<times> ctx) option" where
  "btree_delete L c r key =
     (case r of
        None \<Rightarrow> Some ((None, False), c)
      | Some root_id \<Rightarrow>
          do { ((new_root_id, removed), c1) \<leftarrow> delete_rec L key c root_id;
               (new_root, c2) \<leftarrow> finalize_root L c1 new_root_id;
               Some ((new_root, removed), c2) })"

definition encode_node :: "lib \<Rightarrow> node \<Rightarrow> bytes option" where
  "encode_node L n = encode_page L (sd_node L) n"

end
