(* ===== verification/BTree_Inv.thy ===== *)
theory BTree_Inv
  imports BTree_Ops
begin

text \<open>
  What a well-formed tree is, and what every step of a write transaction leaves alone.

  A tree on disk is described by a ghost tree (\<open>gtree\<close>) that carries the page numbers of
  its nodes and, for overflowed values, the pages of their chains. \<open>rep\<close> says that the
  nodes of a ghost tree are what the reader sees, \<open>shape\<close> that all leaves have the same
  depth and every internal node one child more than keys, \<open>ordered\<close> that the sequence of
  entries and separators is ascending. \<open>cinv\<close> accounts for the pages of a write
  transaction: every page is in one place (a node of the tree, an overflow chain of the
  tree, the free list, the scratch pool, the obsolete list) and only nodes of the tree are
  staged. \<open>frame S c c'\<close> says which pages may differ between two contexts when the nodes
  in \<open>S\<close> were worked on.
\<close>

section \<open>Ghost trees\<close>

datatype gval = GIn bytes | GOv "page_id list" "bytes list"

datatype gtree =
    GLeaf page_id "(bytes \<times> gval) list"
  | GNode page_id "bytes list" "gtree list"

datatype item = Sep bytes | Ent bytes gval

fun gstored :: "gval \<Rightarrow> stored_value" where
  "gstored (GIn b) = Inline b"
| "gstored (GOv is ds) = Overflow (hd is) (of_nat (length (concat ds)))"

fun gbytes :: "gval \<Rightarrow> bytes" where
  "gbytes (GIn b) = b"
| "gbytes (GOv is ds) = concat ds"

fun gpages :: "gval \<Rightarrow> page_id multiset" where
  "gpages (GIn b) = {#}"
| "gpages (GOv is ds) = mset is"

fun gval_ok :: "lib \<Rightarrow> pager \<Rightarrow> gval \<Rightarrow> bool" where
  "gval_ok L p (GIn b) = True"
| "gval_ok L p (GOv is ds) = (is \<noteq> [] \<and> over_chain L p is ds)"

fun gid :: "gtree \<Rightarrow> page_id" where
  "gid (GLeaf p kvs) = p"
| "gid (GNode p ks ts) = p"

fun inter :: "bytes list \<Rightarrow> item list list \<Rightarrow> item list" where
  "inter [] xs = concat xs"
| "inter (k # ks) [] = []"
| "inter (k # ks) (x # xs) = x @ Sep k # inter ks xs"

fun items :: "gtree \<Rightarrow> item list" where
  "items (GLeaf p kvs) = map (\<lambda>(k, g). Ent k g) kvs"
| "items (GNode p ks ts) = inter ks (map items ts)"

fun entries_of :: "item list \<Rightarrow> (bytes \<times> gval) list" where
  "entries_of [] = []"
| "entries_of (Sep k # xs) = entries_of xs"
| "entries_of (Ent k g # xs) = (k, g) # entries_of xs"

definition entries :: "gtree \<Rightarrow> (bytes \<times> gval) list" where
  "entries t = entries_of (items t)"

fun node_pages :: "gtree \<Rightarrow> page_id multiset" where
  "node_pages (GLeaf p kvs) = {#p#}"
| "node_pages (GNode p ks ts) = add_mset p (sum_list (map node_pages ts))"

definition epages :: "(bytes \<times> gval) list \<Rightarrow> page_id multiset" where
  "epages es = sum_list (map (gpages \<circ> snd) es)"

fun before :: "item \<Rightarrow> item \<Rightarrow> bool" where
  "before (Sep a) (Sep b) = (a \<le> b)"
| "before (Sep a) (Ent b _) = (a \<le> b)"
| "before (Ent a _) (Sep b) = (a < b)"
| "before (Ent a _) (Ent b _) = (a < b)"

definition ordered :: "item list \<Rightarrow> bool" where
  "ordered xs \<longleftrightarrow> sorted_wrt before xs"

fun shape :: "nat \<Rightarrow> gtree \<Rightarrow> bool" where
  "shape 0 (GLeaf p kvs) = True"
| "shape (Suc h) (GNode p ks ts) = (length ts = Suc (length ks) \<and> (\<forall>t\<in>set ts. shape h t))"
| "shape _ _ = False"

fun node_of :: "gtree \<Rightarrow> node" where
  "node_of (GLeaf p kvs) = Leaf (map fst kvs) (map (gstored \<circ> snd) kvs)"
| "node_of (GNode p ks ts) = Internal ks (map gid ts)"

fun rep :: "(page_id \<Rightarrow> node option) \<Rightarrow> gtree \<Rightarrow> bool" where
  "rep rd (GLeaf p kvs) = (rd p = Some (node_of (GLeaf p kvs)))"
| "rep rd (GNode p ks ts) = (rd p = Some (Internal ks (map gid ts)) \<and> (\<forall>t\<in>set ts. rep rd t))"

definition vals_ok :: "lib \<Rightarrow> pager \<Rightarrow> (bytes \<times> gval) list \<Rightarrow> bool" where
  "vals_ok L p es \<longleftrightarrow> (\<forall>(k, g)\<in>set es. gval_ok L p g)"

text \<open>Insertion into and deletion from a sorted list of entries.\<close>

definition ins :: "bytes \<Rightarrow> 'v \<Rightarrow> (bytes \<times> 'v) list \<Rightarrow> (bytes \<times> 'v) list" where
  "ins k v es = filter (\<lambda>e. fst e < k) es @ (k, v) # filter (\<lambda>e. k < fst e) es"

definition del :: "bytes \<Rightarrow> (bytes \<times> 'v) list \<Rightarrow> (bytes \<times> 'v) list" where
  "del k es = filter (\<lambda>e. fst e \<noteq> k) es"

section \<open>The order of items\<close>

lemma before_trans: "before x y \<Longrightarrow> before y z \<Longrightarrow> before x z"
  by (cases x; cases y; cases z) auto

lemma before_Ent: "before a (Ent k g) \<longleftrightarrow> before a (Sep k)"
  by (cases a) auto

lemma before_Sep_Ent: "before (Ent k g) b \<Longrightarrow> before (Sep k) b"
  by (cases b) auto

lemma ordered_append:
  "ordered (xs @ ys) \<longleftrightarrow> ordered xs \<and> ordered ys \<and> (\<forall>x\<in>set xs. \<forall>y\<in>set ys. before x y)"
  by (simp add: ordered_def sorted_wrt_append)

lemma ordered_Cons: "ordered (x # xs) \<longleftrightarrow> (\<forall>y\<in>set xs. before x y) \<and> ordered xs"
  by (simp add: ordered_def)

lemma ordered_Nil [simp]: "ordered []"
  by (simp add: ordered_def)

lemma entries_of_append [simp]: "entries_of (xs @ ys) = entries_of xs @ entries_of ys"
  by (induction xs rule: entries_of.induct) auto

lemma entries_of_concat: "entries_of (concat xss) = concat (map entries_of xss)"
  by (induction xss) auto

lemma entries_of_Ents [simp]: "entries_of (map (\<lambda>(k, g). Ent k g) kvs) = kvs"
  by (induction kvs) auto

lemma in_entries_of: "(k, g) \<in> set (entries_of xs) \<longleftrightarrow> Ent k g \<in> set xs"
  by (induction xs rule: entries_of.induct) auto

lemma ordered_entries: "ordered xs \<Longrightarrow> sorted_wrt (<) (map fst (entries_of xs))"
proof (induction xs rule: entries_of.induct)
  case (3 k g xs)
  have "k < k'" if "(k', g') \<in> set (entries_of xs)" for k' g'
    using 3 that by (auto simp: ordered_Cons in_entries_of)
  then show ?case using 3 by (auto simp: ordered_Cons)
qed (auto simp: ordered_Cons)

lemma ordered_Ents: "sorted_wrt (<) (map fst kvs) \<Longrightarrow> ordered (map (\<lambda>(k, g). Ent k g) kvs)"
  by (induction kvs) (auto simp: ordered_Cons)

lemma sorted_wrt_less_sorted: "sorted_wrt (<) (ks :: bytes list) \<Longrightarrow> sorted ks \<and> distinct ks"
  by (simp add: strict_sorted_iff)

section \<open>Interleaving keys and children\<close>

definition after :: "bytes list \<Rightarrow> item list list \<Rightarrow> item list" where
  "after ks xs = concat (map2 (\<lambda>k x. Sep k # x) ks xs)"

lemma inter_append:
  "length xs1 = length ks1 \<Longrightarrow> inter (ks1 @ ks2) (xs1 @ xs2) = inter ks1 xs1 @ inter ks2 xs2"
proof (induction ks1 arbitrary: xs1)
  case Nil
  then show ?case by simp
next
  case (Cons k ks1)
  then show ?case by (cases xs1) auto
qed

lemma inter_Cons: "length xs = length ks \<Longrightarrow> inter ks (x # xs) = x @ after ks xs"
proof (induction ks arbitrary: x xs)
  case Nil
  then show ?case by (simp add: after_def)
next
  case (Cons k ks)
  then obtain y ys where "xs = y # ys" by (cases xs) auto
  then show ?case using Cons by (simp add: after_def)
qed

lemma inter_mid:
  assumes "length xs1 = length ks1" "length ys = Suc (length ms)" "length xs2 = length ks2"
  shows "inter (ks1 @ ms @ ks2) (xs1 @ ys @ xs2) = inter ks1 xs1 @ inter ms ys @ after ks2 xs2"
proof -
  obtain zs z where ys: "ys = zs @ [z]"
    using assms(2) by (metis append_butlast_last_id list.size(3) nat.distinct(1))
  then have "inter (ks1 @ ms @ ks2) (xs1 @ ys @ xs2) = inter ks1 xs1 @ inter (ms @ ks2) (zs @ z # xs2)"
    using assms by (simp add: inter_append)
  moreover have "inter (ms @ ks2) (zs @ z # xs2) = inter ms zs @ z @ after ks2 xs2"
    using assms ys by (simp add: inter_append inter_Cons)
  moreover have "inter ms ys = inter ms zs @ z"
    using inter_append [of zs ms "[]" "[z]"] assms(2) ys by simp
  ultimately show ?thesis by simp
qed

lemma inter_one_mid:
  assumes "length xs1 = length ks1" "length xs2 = length ks2"
  shows "inter (ks1 @ ks2) (xs1 @ x # xs2) = inter ks1 xs1 @ x @ after ks2 xs2"
  using inter_mid [OF assms(1), of "[x]" "[]" xs2 ks2] assms(2) by simp

lemma inter_last: "length xs = length ks \<Longrightarrow> ks \<noteq> [] \<Longrightarrow> \<exists>ys. inter ks xs = ys @ [Sep (last ks)]"
proof (induction ks arbitrary: xs)
  case (Cons k ks)
  then obtain y ys where xs: "xs = y # ys" by (cases xs) auto
  show ?case
  proof (cases "ks = []")
    case True
    then show ?thesis using Cons.prems xs by simp
  next
    case False
    then obtain zs where "inter ks ys = zs @ [Sep (last ks)]"
      using Cons.IH [of ys] Cons.prems xs by auto
    then show ?thesis using False xs by (intro exI [of _ "y @ Sep k # zs"]) simp
  qed
qed simp

lemma after_hd: "length xs = length ks \<Longrightarrow> ks \<noteq> [] \<Longrightarrow> \<exists>ys. after ks xs = Sep (hd ks) # ys"
  by (cases ks; cases xs) (auto simp: after_def)

lemma Sep_in_inter: "length ks \<le> length xs \<Longrightarrow> k \<in> set ks \<Longrightarrow> Sep k \<in> set (inter ks xs)"
  by (induction ks xs rule: inter.induct) auto

lemma ordered_inter_sorted: "length ks \<le> length xs \<Longrightarrow> ordered (inter ks xs) \<Longrightarrow> sorted ks"
proof (induction ks xs rule: inter.induct)
  case (3 k ks x xs)
  have "k \<le> k'" if "k' \<in> set ks" for k'
  proof -
    have "Sep k' \<in> set (inter ks xs)" using 3 that by (simp add: Sep_in_inter)
    then show ?thesis using "3.prems" by (auto simp: ordered_append ordered_Cons)
  qed
  then show ?case using 3 by (auto simp: ordered_append ordered_Cons)
qed auto

lemma entries_of_inter:
  "length ks \<le> length xs \<Longrightarrow> entries_of (inter ks xs) = concat (map entries_of xs)"
  by (induction ks xs rule: inter.induct) (auto simp: entries_of_concat)

lemma entries_of_after:
  "length xs = length ks \<Longrightarrow> entries_of (after ks xs) = concat (map entries_of xs)"
proof (induction ks arbitrary: xs)
  case Nil
  then show ?case by (simp add: after_def)
next
  case (Cons k ks)
  then obtain y ys where "xs = y # ys" by (cases xs) auto
  then show ?case using Cons by (simp add: after_def)
qed

lemma entries_GLeaf [simp]: "entries (GLeaf p kvs) = kvs"
  by (simp add: entries_def)

lemma entries_GNode:
  "length ts = Suc (length ks) \<Longrightarrow> entries (GNode p ks ts) = concat (map entries ts)"
  by (simp add: entries_def [abs_def] entries_of_inter o_def)

lemma epages_append [simp]: "epages (xs @ ys) = epages xs + epages ys"
  by (simp add: epages_def)

lemma epages_Cons [simp]: "epages ((k, g) # es) = gpages g + epages es"
  by (simp add: epages_def)

lemma epages_Nil [simp]: "epages [] = {#}"
  by (simp add: epages_def)

lemma vals_ok_append [simp]: "vals_ok L p (xs @ ys) \<longleftrightarrow> vals_ok L p xs \<and> vals_ok L p ys"
  by (auto simp: vals_ok_def)

lemma vals_ok_Cons [simp]: "vals_ok L p ((k, g) # es) \<longleftrightarrow> gval_ok L p g \<and> vals_ok L p es"
  by (auto simp: vals_ok_def)

lemma vals_ok_Nil [simp]: "vals_ok L p []"
  by (simp add: vals_ok_def)

text \<open>Cutting the children of an internal node at an index.\<close>

lemma split_children:
  assumes "length ts = Suc (length ks)" "i \<le> length ks"
  obtains ks1 ks2 ts1 t ts2 where "ks = ks1 @ ks2" "ts = ts1 @ t # ts2" "length ks1 = i"
    "length ts1 = i" "length ts2 = length ks2"
proof
  show "ks = take i ks @ drop i ks" by simp
  show "ts = take i ts @ ts ! i # drop (Suc i) ts"
    using assms by (simp add: id_take_nth_drop)
qed (use assms in auto)

section \<open>Searching in an ordered node\<close>

lemma ins_append:
  assumes "\<And>e. e \<in> set xs \<Longrightarrow> fst e < k" "\<And>e. e \<in> set zs \<Longrightarrow> k < fst e"
  shows "ins k v (xs @ ys @ zs) = xs @ ins k v ys @ zs"
proof -
  have "filter (\<lambda>e. fst e < k) xs = xs" "filter (\<lambda>e. k < fst e) xs = []"
    using assms(1) by (auto simp: filter_id_conv filter_empty_conv dest: less_asym)
  moreover have "filter (\<lambda>e. fst e < k) zs = []" "filter (\<lambda>e. k < fst e) zs = zs"
    using assms(2) by (auto simp: filter_id_conv filter_empty_conv dest: less_asym)
  ultimately show ?thesis by (simp add: ins_def)
qed

lemma del_append:
  assumes "\<And>e. e \<in> set xs \<Longrightarrow> fst e < k" "\<And>e. e \<in> set zs \<Longrightarrow> k < fst e"
  shows "del k (xs @ ys @ zs) = xs @ del k ys @ zs"
proof -
  have "filter (\<lambda>e. fst e \<noteq> k) xs = xs" "filter (\<lambda>e. fst e \<noteq> k) zs = zs"
    using assms by (auto simp: filter_id_conv)
  then show ?thesis by (simp add: del_def)
qed

text \<open>The child the search descends into: everything to its left is smaller, to its right larger.\<close>

lemma descend_bounds:
  assumes len: "length xs1 = length ks1" "length xs2 = length ks2"
    and ord: "ordered (inter (ks1 @ ks2) (xs1 @ x # xs2))"
    and le: "\<And>k. k \<in> set ks1 \<Longrightarrow> k \<le> key" and gt: "\<And>k. k \<in> set ks2 \<Longrightarrow> key < k"
  shows "\<And>a g. a \<in> set (inter ks1 xs1) \<Longrightarrow> before a (Ent key g)"
    and "\<And>b g. b \<in> set (after ks2 xs2) \<Longrightarrow> before (Ent key g) b"
proof -
  have parts: "ordered (inter ks1 xs1)" "ordered (after ks2 xs2)"
    using ord by (simp_all add: inter_one_mid [OF len] ordered_append)
  show "before a (Ent key g)" if a: "a \<in> set (inter ks1 xs1)" for a g
  proof (cases "ks1 = []")
    case True
    then show ?thesis using a len by simp
  next
    case False
    then obtain ys where ys: "inter ks1 xs1 = ys @ [Sep (last ks1)]"
      using inter_last len(1) by blast
    have "before (Sep (last ks1)) (Ent key g)" using le False by simp
    moreover have "a = Sep (last ks1) \<or> before a (Sep (last ks1))"
      using parts(1) a unfolding ys by (auto simp: ordered_append)
    ultimately show ?thesis using before_trans by blast
  qed
  show "before (Ent key g) b" if b: "b \<in> set (after ks2 xs2)" for b g
  proof (cases "ks2 = []")
    case True
    then show ?thesis using b by (simp add: after_def)
  next
    case False
    then obtain ys where ys: "after ks2 xs2 = Sep (hd ks2) # ys"
      using after_hd len(2) by blast
    have "before (Ent key g) (Sep (hd ks2))" using gt False by simp
    moreover have "b = Sep (hd ks2) \<or> before (Sep (hd ks2)) b"
      using parts(2) b unfolding ys by (auto simp: ordered_Cons)
    ultimately show ?thesis using before_trans by blast
  qed
qed

lemma descend_entries:
  assumes "\<And>a g. a \<in> set xs \<Longrightarrow> before a (Ent key g)" "e \<in> set (entries_of xs)"
  shows "fst e < key"
proof -
  obtain k g where e: "e = (k, g)" by (cases e)
  then have "Ent k g \<in> set xs" using assms(2) by (simp add: in_entries_of)
  from assms(1) [OF this, of g] show ?thesis using e by simp
qed

lemma descend_entries':
  assumes "\<And>b g. b \<in> set xs \<Longrightarrow> before (Ent key g) b" "e \<in> set (entries_of xs)"
  shows "key < fst e"
proof -
  obtain k g where e: "e = (k, g)" by (cases e)
  then have "Ent k g \<in> set xs" using assms(2) by (simp add: in_entries_of)
  from assms(1) [OF this, of g] show ?thesis using e by simp
qed

lemma child_index_split:
  assumes "sorted keys" "child_index keys key = i"
  shows "i \<le> length keys" "\<And>k. k \<in> set (take i keys) \<Longrightarrow> k \<le> key"
    "\<And>k. k \<in> set (drop i keys) \<Longrightarrow> key < k"
proof -
  have i: "partition_point (\<lambda>x. x \<le> key) keys = i" using assms(2) by (simp add: child_index_def)
  note pp = partition_point_le [OF assms(1), of key, unfolded i]
  show "i \<le> length keys" using pp by blast
  show "\<And>k. k \<in> set (take i keys) \<Longrightarrow> k \<le> key" using pp by blast
  show "\<And>k. k \<in> set (drop i keys) \<Longrightarrow> key < k" using pp by blast
qed

text \<open>Everything an insertion adds lies between the old items and the key.\<close>

definition grows :: "item list \<Rightarrow> bytes \<Rightarrow> item list \<Rightarrow> bool" where
  "grows xs key ys \<longleftrightarrow>
     (\<forall>a. (\<forall>x\<in>set xs. before a x) \<longrightarrow> (\<forall>g. before a (Ent key g)) \<longrightarrow> (\<forall>y\<in>set ys. before a y)) \<and>
     (\<forall>b. (\<forall>x\<in>set xs. before x b) \<longrightarrow> (\<forall>g. before (Ent key g) b) \<longrightarrow> (\<forall>y\<in>set ys. before y b))"

lemma growsI:
  assumes "\<And>a y. \<forall>x\<in>set xs. before a x \<Longrightarrow> \<forall>g. before a (Ent key g) \<Longrightarrow> y \<in> set ys \<Longrightarrow> before a y"
    and "\<And>b y. \<forall>x\<in>set xs. before x b \<Longrightarrow> \<forall>g. before (Ent key g) b \<Longrightarrow> y \<in> set ys \<Longrightarrow> before y b"
  shows "grows xs key ys"
  unfolding grows_def using assms by blast

lemma growsD:
  assumes "grows xs key ys" "y \<in> set ys"
  shows "\<forall>x\<in>set xs. before a x \<Longrightarrow> \<forall>g. before a (Ent key g) \<Longrightarrow> before a y"
    and "\<forall>x\<in>set xs. before x b \<Longrightarrow> \<forall>g. before (Ent key g) b \<Longrightarrow> before y b"
  using assms unfolding grows_def by blast+

lemma grows_context:
  assumes ord: "ordered (pre @ xs @ post)" "ordered ys" and g: "grows xs key ys"
    and pre: "\<And>a g. a \<in> set pre \<Longrightarrow> before a (Ent key g)"
    and post: "\<And>b g. b \<in> set post \<Longrightarrow> before (Ent key g) b"
  shows "ordered (pre @ ys @ post)" "grows (pre @ xs @ post) key (pre @ ys @ post)"
proof -
  have parts: "\<forall>x\<in>set xs. before a x" if "a \<in> set pre" for a
    using ord(1) that by (simp add: ordered_append)
  have parts': "\<forall>x\<in>set xs. before x b" if "b \<in> set post" for b
    using ord(1) that by (simp add: ordered_append)
  have "before a y" if "a \<in> set pre" "y \<in> set ys" for a y
    using growsD(1) [OF g that(2) parts [OF that(1)]] pre that(1) by blast
  moreover have "before y b" if "b \<in> set post" "y \<in> set ys" for b y
    using growsD(2) [OF g that(2) parts' [OF that(1)]] post that(1) by blast
  ultimately show "ordered (pre @ ys @ post)"
    using ord by (auto simp: ordered_append)
  show "grows (pre @ xs @ post) key (pre @ ys @ post)"
  proof (rule growsI)
    fix a y
    assume a: "\<forall>x\<in>set (pre @ xs @ post). before a x" "\<forall>g. before a (Ent key g)"
      "y \<in> set (pre @ ys @ post)"
    then show "before a y" using growsD(1) [OF g, of y a] by auto
  next
    fix b y
    assume b: "\<forall>x\<in>set (pre @ xs @ post). before x b" "\<forall>g. before (Ent key g) b"
      "y \<in> set (pre @ ys @ post)"
    then show "before y b" using growsD(2) [OF g, of y b] by auto
  qed
qed

end
