(* ===== verification/Ctx_Frame.thy ===== *)
theory Ctx_Frame
  imports BTree_Inv
begin

text \<open>
  The page accounting of a write transaction (\<open>cinv\<close>), what an operation leaves alone
  (\<open>frame\<close>), and how the primitive operations of the context keep both: \<open>alloc\<close>,
  \<open>mark_obsolete\<close>, \<open>retire\<close>, \<open>put_node\<close>, \<open>cow_page\<close>, \<open>store_value\<close>, \<open>retire_value\<close>.
\<close>

section \<open>Page accounting\<close>

definition allocable :: "ctx \<Rightarrow> page_id set" where
  "allocable c = {i. \<exists>f. (f, i) \<in> set (c_free_list c) \<and> f \<le> c_watermark c} \<union>
     set (c_scratch_pool c) \<union> {i. c_next_page c \<le> i}"

definition staged :: "ctx \<Rightarrow> page_id set" where
  "staged c = dom (map_of (c_overlay c))"

definition pool :: "ctx \<Rightarrow> page_id multiset" where
  "pool c = mset (map snd (c_free_list c)) + mset (c_scratch_pool c)"

definition all_pages :: "ctx \<Rightarrow> page_id multiset \<Rightarrow> page_id multiset \<Rightarrow> page_id multiset" where
  "all_pages c N V = N + V + pool c + mset (c_obsolete c)"

definition cinv :: "ctx \<Rightarrow> page_id multiset \<Rightarrow> page_id multiset \<Rightarrow> bool" where
  "cinv c N V \<longleftrightarrow> distinct (map fst (c_overlay c)) \<and> staged c \<subseteq> set_mset N \<and>
     nodup (all_pages c N V) \<and> 2 \<le> c_next_page c \<and>
     set_mset (all_pages c N V) = {2..<c_next_page c}"

lemma cinv_bounds: "cinv c N V \<Longrightarrow> i \<in># all_pages c N V \<Longrightarrow> 2 \<le> i \<and> i < c_next_page c"
  by (simp add: cinv_def)

lemma is_scratch_staged: "is_scratch c i \<longleftrightarrow> i \<in> staged c"
  by (auto simp: is_scratch_def staged_def)

lemma staged_update [simp]: "staged (c\<lparr>c_pager := p\<rparr>) = staged c"
  "staged (c\<lparr>c_next_page := n\<rparr>) = staged c" "staged (c\<lparr>c_free_list := f\<rparr>) = staged c"
  "staged (c\<lparr>c_obsolete := l\<rparr>) = staged c" "staged (c\<lparr>c_scratch_pool := l\<rparr>) = staged c"
  by (auto simp: staged_def)

lemma pool_subset_allocable: "i \<in> allocable c \<Longrightarrow> i \<in># pool c \<or> c_next_page c \<le> i"
  by (force simp: allocable_def pool_def)

lemma cinv_not_allocable:
  assumes "cinv c N V" "i \<in># N + V"
  shows "i \<notin> allocable c"
proof
  assume "i \<in> allocable c"
  then have "i \<in># pool c \<or> c_next_page c \<le> i" by (rule pool_subset_allocable)
  moreover have "i \<notin># pool c" "i < c_next_page c"
    using assms by (auto simp: cinv_def all_pages_def nodup_union)
  ultimately show False by simp
qed

lemma cinv_obsolete_not_allocable:
  assumes "cinv c N V" "i \<in> set (c_obsolete c)"
  shows "i \<notin> allocable c"
proof
  assume "i \<in> allocable c"
  then have "i \<in># pool c \<or> c_next_page c \<le> i" by (rule pool_subset_allocable)
  moreover have "i \<notin># pool c" "i < c_next_page c"
    using assms by (auto simp: cinv_def all_pages_def nodup_union)
  ultimately show False by simp
qed

lemma cinv_staged: "cinv c N V \<Longrightarrow> i \<in> staged c \<Longrightarrow> i \<in># N"
  by (auto simp: cinv_def)

lemma cinv_V_not_staged:
  assumes "cinv c N V" "i \<in># V"
  shows "i \<notin> staged c"
  using assms by (auto simp: cinv_def all_pages_def nodup_union)

lemma cinv_allocable_not_staged: "cinv c N V \<Longrightarrow> i \<in> allocable c \<Longrightarrow> i \<notin> staged c"
  using cinv_not_allocable cinv_staged by (metis union_iff)

text \<open>Moving pages between the parts of the account.\<close>

lemma cinv_rearrange:
  assumes "cinv c N V" "all_pages c' N' V' = all_pages c N V" "staged c' \<subseteq> set_mset N'"
    "c_next_page c' = c_next_page c" "distinct (map fst (c_overlay c'))"
  shows "cinv c' N' V'"
  using assms by (simp add: cinv_def)

section \<open>alloc\<close>

lemma alloc_cases:
  assumes "alloc c = Some (i, c')"
  obtains
    (scratch) l where "c_scratch_pool c = l @ [i]" "c' = c\<lparr>c_scratch_pool := l\<rparr>"
  | (free) pos f where "c_scratch_pool c = []" "pos < length (c_free_list c)"
      "c_free_list c ! pos = (f, i)" "f \<le> c_watermark c"
      "c' = c\<lparr>c_free_list := swap_remove pos (c_free_list c)\<rparr>"
  | (grow) "c_next_page c \<noteq> u64_max" "i = c_next_page c" "c_scratch_pool c = []"
      "c' = c\<lparr>c_next_page := c_next_page c + 1\<rparr>"
proof (cases "c_scratch_pool c = []")
  case False
  then have "c_scratch_pool c = butlast (c_scratch_pool c) @ [last (c_scratch_pool c)]" by simp
  moreover have "i = last (c_scratch_pool c)" "c' = c\<lparr>c_scratch_pool := butlast (c_scratch_pool c)\<rparr>"
    using assms False by (auto simp: alloc_def)
  ultimately show ?thesis using scratch by metis
next
  case empty: True
  show ?thesis
  proof (cases "position (\<lambda>(freed_at, _). freed_at \<le> c_watermark c) (c_free_list c)")
    case None
    then show ?thesis using assms empty grow by (auto simp: alloc_def split: if_splits)
  next
    case (Some pos)
    note ps = position_Some [OF Some]
    obtain f j where fj: "c_free_list c ! pos = (f, j)" by fastforce
    then show ?thesis using assms empty Some free [of pos f] ps by (simp add: alloc_def)
  qed
qed

lemma alloc_fields:
  assumes "alloc c = Some (i, c')"
  shows "c_pager c' = c_pager c" "c_overlay c' = c_overlay c" "c_watermark c' = c_watermark c"
    "c_obsolete c' = c_obsolete c" "staged c' = staged c" "ctx_read L c' = ctx_read L c"
  using assms by (cases rule: alloc_cases; simp add: staged_def ctx_read_def [abs_def])+

lemma alloc_allocable:
  assumes "alloc c = Some (i, c')"
  shows "i \<in> allocable c" "allocable c' \<subseteq> allocable c" "allocable c = insert i (allocable c')"
proof -
  have "allocable c = insert i (allocable c')"
    using assms
  proof (cases rule: alloc_cases)
    case (scratch l)
    then show ?thesis by (auto simp: allocable_def)
  next
    case (free pos f)
    have "set (c_free_list c) = insert (f, i) (set (swap_remove pos (c_free_list c)))"
      using mset_swap_remove [OF free(2)] free(3) by (metis set_mset_add_mset_insert set_mset_mset)
    then show ?thesis using free by (auto simp: allocable_def)
  next
    case grow
    then show ?thesis by (auto simp: allocable_def less_plus_one_iff simp flip: not_less)
  qed
  then show "i \<in> allocable c" "allocable c' \<subseteq> allocable c" "allocable c = insert i (allocable c')" by auto
qed

lemma alloc_account:
  assumes "alloc c = Some (i, c')"
  shows "(pool c = add_mset i (pool c') \<and> c_next_page c' = c_next_page c) \<or>
     (pool c' = pool c \<and> i = c_next_page c \<and> c_next_page c \<noteq> u64_max \<and>
      c_next_page c' = c_next_page c + 1)"
  using assms
proof (cases rule: alloc_cases)
  case (free pos f)
  have "mset (c_free_list c) = add_mset (f, i) (mset (swap_remove pos (c_free_list c)))"
    using mset_swap_remove [OF free(2)] free(3) by simp
  then have "image_mset snd (mset (c_free_list c)) =
      add_mset i (image_mset snd (mset (swap_remove pos (c_free_list c))))"
    by simp
  then show ?thesis using free by (simp add: pool_def)
qed (auto simp: pool_def)

lemma alloc_cinv:
  assumes inv: "cinv c N V" and a: "alloc c = Some (i, c')"
  shows "cinv c' (add_mset i N) V" "cinv c' N (add_mset i V)"
proof -
  let ?A = "N + V + mset (c_obsolete c)"
  have f: "c_overlay c' = c_overlay c" "c_obsolete c' = c_obsolete c" "staged c' = staged c"
    using alloc_fields [OF a] by auto
  have old: "nodup (?A + pool c)" "set_mset (?A + pool c) = {2..<c_next_page c}" "2 \<le> c_next_page c"
    using inv by (auto simp: cinv_def all_pages_def ac_simps)
  have new: "nodup (add_mset i (?A + pool c')) \<and> 2 \<le> c_next_page c' \<and>
      set_mset (add_mset i (?A + pool c')) = {2..<c_next_page c'}"
    using alloc_account [OF a]
  proof
    assume "pool c = add_mset i (pool c') \<and> c_next_page c' = c_next_page c"
    then show ?thesis using old by (simp add: ac_simps)
  next
    assume g: "pool c' = pool c \<and> i = c_next_page c \<and> c_next_page c \<noteq> u64_max \<and>
      c_next_page c' = c_next_page c + 1"
    then have lt: "c_next_page c < c_next_page c'" by (simp add: less_plus_one)
    have "i \<notin># ?A + pool c" unfolding old(2) using g by simp
    moreover have "set_mset (add_mset i (?A + pool c')) = insert i (set_mset (?A + pool c))" using g by simp
    ultimately show ?thesis
      using old g lt pages_plus_one [OF _ old(3)] by simp
  qed
  then show "cinv c' (add_mset i N) V" "cinv c' N (add_mset i V)"
    using inv f by (auto simp: cinv_def all_pages_def ac_simps)
qed

text \<open>The allocator of the context is a page source: what it hands out is gone.\<close>

lemma alloc_used_up:
  assumes "cinv c N V" "alloc c = Some (i, c')"
  shows "allocable c' = allocable c - {i}"
  using alloc_allocable(3) [OF assms(2)] cinv_not_allocable [OF alloc_cinv(1) [OF assms], of i] by auto

interpretation ctx_source: page_source alloc allocable "\<lambda>c. \<exists>N V. cinv c N V"
proof unfold_locales
  fix s i s'
  assume inv: "\<exists>N V. cinv s N V" and a: "alloc s = Some (i, s')"
  show "\<exists>N V. cinv s' N V" using inv alloc_cinv(1) [OF _ a] by blast
  show "i \<in> allocable s" by (rule alloc_allocable [OF a])
  show "allocable s' = allocable s - {i}" using inv alloc_used_up [OF _ a] by blast
qed

section \<open>Frames\<close>

text \<open>
  The pages an operation that works on the nodes in \<open>S\<close> may write: what the allocator may
  hand out, and the nodes of \<open>S\<close> that are already staged.
\<close>

definition owned :: "page_id set \<Rightarrow> ctx \<Rightarrow> page_id set" where
  "owned S c = allocable c \<union> (S \<inter> staged c)"

definition frame :: "page_id set \<Rightarrow> ctx \<Rightarrow> ctx \<Rightarrow> bool" where
  "frame S c c' \<longleftrightarrow>
     c_watermark c' = c_watermark c \<and> set (c_free_list c') \<subseteq> set (c_free_list c) \<and>
     c_next_page c \<le> c_next_page c' \<and> allocable c' \<subseteq> owned S c \<and>
     staged c' \<subseteq> staged c \<union> allocable c \<and>
     (\<forall>i. i \<notin> S \<union> allocable c \<longrightarrow> map_of (c_overlay c') i = map_of (c_overlay c) i) \<and>
     wrote (owned S c) (c_pager c) (c_pager c')"

lemma frame_refl [simp, frame_intro]: "frame S c c"
  by (auto simp: frame_def owned_def)

lemma frame_allocable: "frame S c c' \<Longrightarrow> allocable c' \<subseteq> owned S c"
  by (simp add: frame_def)

lemma frame_staged: "frame S c c' \<Longrightarrow> staged c' \<subseteq> staged c \<union> allocable c"
  by (simp add: frame_def)

lemma frame_trans:
  assumes f: "frame S c d" and g: "frame T d e" and T: "T \<subseteq> S \<union> allocable c"
  shows "frame S c e"
proof -
  have own: "owned T d \<subseteq> owned S c"
    using f T by (auto simp: frame_def owned_def)
  have "staged e \<subseteq> staged c \<union> allocable c"
  proof
    fix i assume "i \<in> staged e"
    then have "i \<in> staged d \<or> i \<in> allocable d" using g by (auto simp: frame_def)
    then show "i \<in> staged c \<union> allocable c" using f by (auto simp: frame_def owned_def)
  qed
  moreover have "map_of (c_overlay e) i = map_of (c_overlay c) i" if "i \<notin> S \<union> allocable c" for i
  proof -
    have "i \<notin> T \<union> allocable d" using that T f by (auto simp: frame_def owned_def)
    then show ?thesis using that f g by (simp add: frame_def)
  qed
  moreover have "wrote (owned S c) (c_pager c) (c_pager e)"
    using wrote_trans [of "owned S c" "c_pager c" "c_pager d" "owned T d" "c_pager e"] f g own
    by (simp add: frame_def Un_absorb2)
  ultimately show ?thesis using f g own by (auto simp: frame_def)
qed

lemma frame_trans_empty: "frame S c d \<Longrightarrow> frame {} d e \<Longrightarrow> frame S c e"
  by (rule frame_trans) auto

lemma frame_mono: "frame S c d \<Longrightarrow> S \<subseteq> T \<Longrightarrow> frame T c d"
  using frame_trans [of T c c S d] by auto

text \<open>What does not belong to the operation is read as before.\<close>

lemma frame_ctx_read:
  assumes "frame S c d" "i \<notin> S \<union> allocable c" "ctx_read L c i = Some n"
  shows "ctx_read L d i = Some n"
proof -
  have "map_of (c_overlay d) i = map_of (c_overlay c) i" "keeps (c_pager c) (c_pager d) i"
    using assms wrote_keeps by (auto simp: frame_def owned_def)
  then show ?thesis
    using assms(3) by (auto simp: ctx_read_def read_node_def keeps_def bind_Some_iff split: option.splits)
qed

lemma rep_cong:
  assumes "rep rd t" "\<And>i n. i \<in># node_pages t \<Longrightarrow> rd i = Some n \<Longrightarrow> rd' i = Some n"
  shows "rep rd' t"
  using assms
proof (induction t)
  case (GLeaf p kvs)
  then show ?case by simp
next
  case (GNode p ks ts)
  have "rep rd' t" if t: "t \<in> set ts" for t
  proof (rule GNode.IH [OF t])
    show "rep rd t" using GNode.prems(1) t by simp
    fix i n assume "i \<in># node_pages t" "rd i = Some n"
    moreover have "node_pages t \<subseteq># sum_list (map node_pages ts)"
      using t by (metis in_set_conv_decomp list.simps(9) map_append mset_subset_eq_add_left
          mset_subset_eq_add_right sum_list.Cons sum_list_append subset_mset.order_trans)
    ultimately show "rd' i = Some n" using GNode.prems(2) by (auto dest: mset_subset_eqD)
  qed
  then show ?case using GNode.prems by simp
qed

lemma rep_frame:
  assumes "rep (ctx_read L c) t" "frame S c d" "set_mset (node_pages t) \<inter> (S \<union> allocable c) = {}"
  shows "rep (ctx_read L d) t"
  using assms(1) by (rule rep_cong) (use assms(2,3) in \<open>auto intro: frame_ctx_read\<close>)

lemma gval_ok_keeps: "gval_ok L p g \<Longrightarrow> (\<And>i. i \<in># gpages g \<Longrightarrow> keeps p p' i) \<Longrightarrow> gval_ok L p' g"
  by (cases g) (auto intro: over_chain_keeps)

lemma gpages_subset_epages: "(k, g) \<in> set es \<Longrightarrow> gpages g \<subseteq># epages es"
  by (induction es) (auto intro: subset_mset.order_trans)

lemma vals_ok_keeps:
  assumes "vals_ok L p es" "\<And>i. i \<in># epages es \<Longrightarrow> keeps p p' i"
  shows "vals_ok L p' es"
  unfolding vals_ok_def
proof clarify
  fix k g assume kg: "(k, g) \<in> set es"
  then have "gval_ok L p g" using assms(1) by (auto simp: vals_ok_def)
  then show "gval_ok L p' g"
    using assms(2) mset_subset_eqD [OF gpages_subset_epages [OF kg]] by (blast intro: gval_ok_keeps)
qed

lemma vals_frame:
  assumes "vals_ok L (c_pager c) es" "frame S c d" "set_mset (epages es) \<inter> owned S c = {}"
  shows "vals_ok L (c_pager d) es"
  using assms(1)
proof (rule vals_ok_keeps)
  fix i assume "i \<in># epages es"
  then have "i \<notin> owned S c" using assms(3) by auto
  then show "keeps (c_pager c) (c_pager d) i" using assms(2) by (auto simp: frame_def wrote_keeps)
qed

section \<open>The primitive operations\<close>

lemma alloc_shrinks:
  assumes "alloc c = Some (i, c')"
  shows "set (c_free_list c') \<subseteq> set (c_free_list c)" "c_next_page c \<le> c_next_page c'"
  using assms by (cases rule: alloc_cases; simp add: set_swap_remove_subset less_plus_one less_imp_le)+

lemma frame_alloc [frame_intro]: "alloc c = Some (i, c') \<Longrightarrow> frame S c c'"
  using alloc_fields [of c i c'] alloc_allocable [of c i c'] alloc_shrinks [of c i c']
  by (auto simp: frame_def owned_def)

lemma alloc_owned: "frame S c0 c \<Longrightarrow> alloc c = Some (i, c') \<Longrightarrow> i \<in> owned S c0"
  using alloc_allocable by (auto simp: frame_def)

lemma put_node_simps [simp]:
  "c_pager (put_node c i n) = c_pager c" "c_watermark (put_node c i n) = c_watermark c"
  "allocable (put_node c i n) = allocable c" "pool (put_node c i n) = pool c"
  "c_obsolete (put_node c i n) = c_obsolete c" "c_next_page (put_node c i n) = c_next_page c"
  "staged (put_node c i n) = insert i (staged c)" "c_free_list (put_node c i n) = c_free_list c"
  by (auto simp: put_node_def allocable_def pool_def staged_def update_conv dom_update)

lemma map_of_put_node [simp]:
  "map_of (c_overlay (put_node c i n)) j = (if j = i then Some n else map_of (c_overlay c) j)"
  by (simp add: put_node_def update_conv)

lemma ctx_read_put [simp]:
  "ctx_read L (put_node c i n) j = (if j = i then Some n else ctx_read L c j)"
  by (simp add: ctx_read_def read_node_def)

lemma frame_put:
  assumes "frame S c0 c" "i \<in> owned S c0"
  shows "frame S c0 (put_node c i n)"
  using assms by (auto simp: frame_def owned_def)

lemma cinv_put: "cinv c N V \<Longrightarrow> i \<in># N \<Longrightarrow> cinv (put_node c i n) N V"
  by (auto simp: cinv_def all_pages_def) (simp add: put_node_def distinct_update)

lemma mark_obsolete_simps [simp]:
  "c_pager (mark_obsolete c i) = c_pager c" "c_overlay (mark_obsolete c i) = c_overlay c"
  "c_watermark (mark_obsolete c i) = c_watermark c" "allocable (mark_obsolete c i) = allocable c"
  "staged (mark_obsolete c i) = staged c" "pool (mark_obsolete c i) = pool c"
  "c_next_page (mark_obsolete c i) = c_next_page c" "c_free_list (mark_obsolete c i) = c_free_list c"
  by (auto simp: mark_obsolete_def allocable_def pool_def)

lemma ctx_read_mark [simp]: "ctx_read L (mark_obsolete c i) = ctx_read L c"
  by (simp add: ctx_read_def [abs_def])

lemma frame_mark [frame_intro]: "frame S c (mark_obsolete c i)"
  by (auto simp: frame_def owned_def)

lemma cinv_mark:
  assumes "cinv c (add_mset i N) V" "\<not> is_scratch c i"
  shows "cinv (mark_obsolete c i) N V"
proof (rule cinv_rearrange [OF assms(1)])
  show "all_pages (mark_obsolete c i) N V = all_pages c (add_mset i N) V"
    using assms(2) by (simp add: all_pages_def) (simp add: mark_obsolete_def)
  show "staged (mark_obsolete c i) \<subseteq> set_mset N"
    using assms by (auto simp: cinv_def is_scratch_staged)
  show "distinct (map fst (c_overlay (mark_obsolete c i)))"
    using assms(1) by (simp add: cinv_def)
qed simp

lemma retire_simps [simp]:
  "c_pager (retire c i) = c_pager c" "c_watermark (retire c i) = c_watermark c"
  "c_next_page (retire c i) = c_next_page c" "c_free_list (retire c i) = c_free_list c"
  "staged (retire c i) = staged c - {i}"
  by (auto simp: retire_def staged_def is_scratch_def delete_conv' split: if_splits)

lemma map_of_retire [simp]:
  "map_of (c_overlay (retire c i)) j = (if j = i then None else map_of (c_overlay c) j)"
  by (auto simp: retire_def is_scratch_def delete_conv')

lemma ctx_read_retire: "j \<noteq> i \<Longrightarrow> ctx_read L (retire c i) j = ctx_read L c j"
  by (simp add: ctx_read_def read_node_def)

lemma allocable_retire: "allocable (retire c i) = allocable c \<union> ({i} \<inter> staged c)"
  by (auto simp: retire_def allocable_def is_scratch_staged)

lemma frame_retire:
  assumes "frame S c0 c" "i \<in> S \<union> allocable c0"
  shows "frame S c0 (retire c i)"
  using assms by (auto simp: frame_def owned_def allocable_retire)

lemma cinv_retire:
  assumes "cinv c (add_mset i N) V"
  shows "cinv (retire c i) N V"
proof (rule cinv_rearrange [OF assms])
  show "all_pages (retire c i) N V = all_pages c (add_mset i N) V"
    by (auto simp: all_pages_def pool_def retire_def)
  show "staged (retire c i) \<subseteq> set_mset N"
    using assms by (auto simp: cinv_def)
  show "distinct (map fst (c_overlay (retire c i)))"
    using assms by (auto simp: cinv_def retire_def distinct_delete)
qed simp

section \<open>Copy on write\<close>

lemma cow_page_ok:
  assumes inv: "cinv c (add_mset i N) V" and f: "frame S c0 c" and i: "i \<in> S"
    and scr: "scratch \<longleftrightarrow> i \<in> staged c" "scratch \<longleftrightarrow> i \<in> staged c0"
    and cow: "cow_page c scratch i = Some (j, c')"
  shows "cinv c' (add_mset j N) V" "frame S c0 c'" "j \<in> owned S c0" "ctx_read L c' = ctx_read L c"
    "c_pager c' = c_pager c"
proof -
  have "cinv c' (add_mset j N) V \<and> frame S c0 c' \<and> j \<in> owned S c0 \<and> ctx_read L c' = ctx_read L c \<and>
    c_pager c' = c_pager c"
  proof (cases scratch)
    case True
    then show ?thesis using assms by (auto simp: cow_page_def owned_def)
  next
    case False
    then have a: "alloc (mark_obsolete c i) = Some (j, c')" using cow by (simp add: cow_page_def)
    have inv': "cinv (mark_obsolete c i) N V"
      by (rule cinv_mark [OF inv]) (use False scr in \<open>simp add: is_scratch_staged\<close>)
    have f': "frame S c0 (mark_obsolete c i)"
      by (rule frame_trans_empty [OF f frame_mark])
    show ?thesis
      using alloc_cinv(1) [OF inv' a] frame_trans_empty [OF f' frame_alloc [OF a]]
        alloc_owned [OF f' a] alloc_fields [OF a]
      by simp
  qed
  then show "cinv c' (add_mset j N) V" "frame S c0 c'" "j \<in> owned S c0" "ctx_read L c' = ctx_read L c"
    "c_pager c' = c_pager c"
    by auto
qed

section \<open>Values\<close>

lemma set_pager_frame:
  assumes "alloc c = Some (i, c1)" "write_page (c_pager c1) i buf = Some p"
  shows "frame {} c (c1\<lparr>c_pager := p\<rparr>)"
proof -
  have "wrote {i} (c_pager c) p"
    using wrote_write [OF assms(2)] alloc_fields(1) [OF assms(1)] by simp
  then have "wrote (allocable c) (c_pager c) p"
    by (rule wrote_mono) (use alloc_allocable(1) [OF assms(1)] in auto)
  then show ?thesis
    using frame_alloc [OF assms(1), of "{}"] alloc_fields [OF assms(1)] alloc_allocable(2) [OF assms(1)]
    by (auto simp: frame_def owned_def allocable_def)
qed

lemma cinv_set_pager: "cinv (c\<lparr>c_pager := p\<rparr>) N V \<longleftrightarrow> cinv c N V"
  by (simp add: cinv_def all_pages_def pool_def)

lemma write_chunks_ok:
  assumes "lib_ok L" "cinv c N (mset is + V)" "over_chain L (c_pager c) is ds"
    "write_chunks L c (hd_opt is) cs = Some (next, c')"
  shows "\<exists>new. next = hd_opt (new @ is) \<and> over_chain L (c_pager c') (new @ is) (rev cs @ ds) \<and>
     cinv c' N (mset (new @ is) + V) \<and> frame {} c c' \<and> c_overlay c' = c_overlay c \<and>
     allocable c = allocable c' \<union> set new"
  using assms
proof (induction cs arbitrary: c "is" ds)
  case Nil
  then show ?case by (intro exI [of _ "[]"]) auto
next
  case (Cons chunk cs)
  from Cons.prems(4) obtain i c1 buf p where
      a: "alloc c = Some (i, c1)"
      and buf: "encode_page L (sd_over L) \<lparr>op_next = hd_opt is, op_data = chunk\<rparr> = Some buf"
      and p: "write_page (c_pager c1) i buf = Some p"
      and rest: "write_chunks L (c1\<lparr>c_pager := p\<rparr>) (hd_opt (i # is)) cs = Some (next, c')"
    by (auto simp: bind_Some_iff)
  have inv1: "cinv (c1\<lparr>c_pager := p\<rparr>) N (mset (i # is) + V)"
    using alloc_cinv(2) [OF Cons.prems(2) a] by (simp add: cinv_set_pager)
  have fr: "frame {} c (c1\<lparr>c_pager := p\<rparr>)" by (rule set_pager_frame [OF a p])
  have "i \<notin> set is"
    using inv1 by (auto simp: cinv_def all_pages_def nodup_union)
  then have "keeps (c_pager c1) p j" if "j \<in> set is" for j
    using that by (intro keeps_write [OF p]) auto
  then have "over_chain L p is ds"
    using Cons.prems(3) alloc_fields(1) [OF a] by (simp add: over_chain_keeps)
  then have ch: "over_chain L (c_pager (c1\<lparr>c_pager := p\<rparr>)) (i # is) (chunk # ds)"
    using over_at_write [OF Cons.prems(1) buf p] by simp
  obtain new where new: "next = hd_opt (new @ i # is)"
      "over_chain L (c_pager c') (new @ i # is) (rev cs @ chunk # ds)"
      "cinv c' N (mset (new @ i # is) + V)" "frame {} (c1\<lparr>c_pager := p\<rparr>) c'"
      "c_overlay c' = c_overlay c1" "allocable c1 = allocable c' \<union> set new"
    using Cons.IH [OF Cons.prems(1) inv1 ch rest] by (auto simp: allocable_def)
  then show ?case
    using frame_trans_empty [OF fr new(4)] alloc_fields(2) [OF a] alloc_allocable(3) [OF a]
    by (intro exI [of _ "new @ [i]"]) simp
qed

lemma store_value_ok:
  assumes L: "lib_ok L" and inv: "cinv c N V" and s: "store_value L c value = Some (sv, c')"
  shows "\<exists>g. sv = gstored g \<and> gbytes g = value \<and> gval_ok L (c_pager c') g \<and>
     cinv c' N (gpages g + V) \<and> frame {} c c' \<and> c_overlay c' = c_overlay c \<and> value_size (gstored g) \<le> 524 \<and>
     allocable c = allocable c' \<union> set_mset (gpages g) \<and>
     size (gpages g) = (if length value \<le> INLINE_VALUE_LIMIT then 0 else length (chunks OVERFLOW_CHUNK value))"
proof (cases "length value \<le> INLINE_VALUE_LIMIT")
  case True
  then show ?thesis
    using inv s by (intro exI [of _ "GIn value"]) (auto simp: store_value_def INLINE_VALUE_LIMIT_def)
next
  case False
  let ?cs = "chunks OVERFLOW_CHUNK value"
  from s False obtain "next" head where
      w: "write_chunks L c (hd_opt []) (rev ?cs) = Some (next, c')"
      and h: "next = Some head" "sv = Overflow head (of_nat (length value))"
    by (auto simp: store_value_def bind_Some_iff)
  obtain new where new: "next = hd_opt new" "over_chain L (c_pager c') new ?cs"
      "cinv c' N (mset new + V)" "frame {} c c'" "c_overlay c' = c_overlay c" "allocable c = allocable c' \<union> set new"
    using write_chunks_ok [OF L _ _ w, of N V "[]"] inv by auto
  have "concat ?cs = value" by (simp add: concat_chunks OVERFLOW_CHUNK_def)
  moreover have "new \<noteq> []" "head = hd new" using h new(1) by (cases new; simp)+
  ultimately show ?thesis
    using new h False over_chain_length [OF new(2)] by (intro exI [of _ "GOv new ?cs"]) simp
qed

lemma write_chunks_obsolete: "write_chunks L c next cs = Some (next', c') \<Longrightarrow> c_obsolete c' = c_obsolete c"
  by (induction L c "next" cs rule: write_chunks.induct) (auto simp: bind_Some_iff alloc_fields(4))

lemma store_value_obsolete: "store_value L c value = Some (sv, c') \<Longrightarrow> c_obsolete c' = c_obsolete c"
  by (auto simp: store_value_def bind_Some_iff write_chunks_obsolete split: if_splits)

lemma retire_chain_ok:
  "over_chain L (c_pager c) is ds \<Longrightarrow>
   retire_chain L c (hd_opt is) = Some (c\<lparr>c_obsolete := c_obsolete c @ is\<rparr>)"
proof (induction L "c_pager c" "is" ds arbitrary: c rule: over_chain.induct)
  case (1 L)
  then show ?case by (simp add: retire_chain.simps)
next
  case (2 L i "is" d ds)
  have "retire_chain L (c\<lparr>c_obsolete := c_obsolete c @ [i]\<rparr>) (hd_opt is) =
      Some (c\<lparr>c_obsolete := c_obsolete c @ [i] @ is\<rparr>)"
    using 2 by simp
  then show ?case using 2 by (simp add: retire_chain.simps [of L c])
qed auto

lemma retire_value_ok:
  assumes "gval_ok L (c_pager c) g"
  shows "\<exists>l. retire_value L c (gstored g) = Some (c\<lparr>c_obsolete := c_obsolete c @ l\<rparr>) \<and> mset l = gpages g"
proof (cases g)
  case (GIn b)
  then show ?thesis by simp
next
  case (GOv "is" ds)
  then show ?thesis
    using assms retire_chain_ok [of L c "is" ds] by (intro exI [of _ "is"]) (simp add: hd_opt_not_Nil)
qed

lemma obsolete_simps [simp]:
  "allocable (c\<lparr>c_obsolete := l\<rparr>) = allocable c" "pool (c\<lparr>c_obsolete := l\<rparr>) = pool c"
  "ctx_read L (c\<lparr>c_obsolete := l\<rparr>) = ctx_read L c"
  by (auto simp: allocable_def pool_def ctx_read_def [abs_def])

lemma frame_obsolete [frame_intro]: "frame S c (c\<lparr>c_obsolete := l\<rparr>)"
  by (auto simp: frame_def owned_def)

lemma cinv_obsolete:
  assumes "cinv c N (mset l + V)"
  shows "cinv (c\<lparr>c_obsolete := c_obsolete c @ l\<rparr>) N V"
  by (rule cinv_rearrange [OF assms]) (use assms in \<open>auto simp: all_pages_def cinv_def\<close>)

end
