(* ===== verification/Node_Fit.thy ===== *)
theory Node_Fit
  imports BTree_Inv
begin

text \<open>
  Nodes that fit in their pages. A leaf is halved by the number of its entries, so a half can
  be larger than the split threshold; how much depends on how large the entries are. With keys
  of at most 60 bytes an entry takes 20 to 592 bytes, and a leaf of \<open>n\<close> entries never takes
  more than \<open>leaf_cap n\<close>: the more entries it has, the more a split moves to the other half.
\<close>

section \<open>Leaves\<close>

abbreviation KEY_CAP :: nat where
  "KEY_CAP \<equiv> 60"

definition entry_size :: "bytes \<times> gval \<Rightarrow> nat" where
  "entry_size e = 8 + length (fst e) + value_size (gstored (snd e))"

definition small_entry :: "bytes \<times> gval \<Rightarrow> bool" where
  "small_entry e \<longleftrightarrow> length (fst e) \<le> KEY_CAP \<and> value_size (gstored (snd e)) \<le> 524"

definition leaf_size :: "(bytes \<times> gval) list \<Rightarrow> nat" where
  "leaf_size kvs = sum_list (map entry_size kvs)"

definition leaf_cap :: "nat \<Rightarrow> nat" where
  "leaf_cap n = (if n \<le> 11 then 4072 else if n \<le> 21 then 3592 else if n \<le> 41 then 3220 else 3048)"

definition leaf_fit :: "(bytes \<times> gval) list \<Rightarrow> bool" where
  "leaf_fit kvs \<longleftrightarrow> (\<forall>e\<in>set kvs. small_entry e) \<and> leaf_size kvs \<le> leaf_cap (length kvs)"

lemma leaf_size_simps [simp]:
  "leaf_size [] = 0" "leaf_size (e # kvs) = entry_size e + leaf_size kvs"
  "leaf_size (xs @ ys) = leaf_size xs + leaf_size ys"
  by (simp_all add: leaf_size_def)

lemma node_size_leaf: "node_size (Leaf (map fst kvs) (map (gstored \<circ> snd) kvs)) = 20 + leaf_size kvs"
  by (induction kvs) (auto simp: entry_size_def)

lemma value_size_min: "12 \<le> value_size v"
  by (cases v) auto

lemma entry_size_min: "20 \<le> entry_size e"
  using value_size_min [of "gstored (snd e)"] by (simp add: entry_size_def)

lemma entry_size_max: "small_entry e \<Longrightarrow> entry_size e \<le> 592"
  by (simp add: small_entry_def entry_size_def)

lemma leaf_size_min: "20 * length kvs \<le> leaf_size kvs"
  by (induction kvs) (use entry_size_min in \<open>auto intro: add_mono\<close>)

lemma leaf_size_max: "\<forall>e\<in>set kvs. small_entry e \<Longrightarrow> leaf_size kvs \<le> 592 * length kvs"
  by (induction kvs) (use entry_size_max in \<open>auto intro: add_mono\<close>)

lemma leaf_cap_bounds: "3048 \<le> leaf_cap n" "leaf_cap n \<le> 4072"
  by (simp_all add: leaf_cap_def)

lemma leaf_cap_antimono: "m \<le> n \<Longrightarrow> leaf_cap n \<le> leaf_cap m"
  by (simp add: leaf_cap_def)

text \<open>A part of a leaf that grew by one entry, when the rest has nearly as many entries.\<close>

lemma leaf_fit_half:
  assumes "\<forall>e\<in>set part. small_entry e" "leaf_size part + leaf_size rest \<le> leaf_cap n + 592"
    "length part + length rest \<le> Suc n" "length part \<le> Suc (length rest)"
  shows "leaf_fit part"
proof -
  have "leaf_size part \<le> 592 * length part" by (rule leaf_size_max [OF assms(1)])
  moreover have "leaf_size part + 20 * length rest \<le> leaf_cap n + 592"
    using assms(2) leaf_size_min [of rest] by simp
  moreover have "2 * length part \<le> n + 2" using assms(3,4) by simp
  ultimately have "leaf_size part \<le> leaf_cap (length part)"
    using assms(4) by (simp add: leaf_cap_def split: if_splits)
  then show ?thesis using assms(1) by (simp add: leaf_fit_def)
qed

lemma leaf_fit_small:
  "\<forall>e\<in>set kvs. small_entry e \<Longrightarrow> leaf_size kvs \<le> 3048 \<Longrightarrow> leaf_fit kvs"
  using leaf_cap_bounds(1) [of "length kvs"] by (simp add: leaf_fit_def)

lemma leaf_fit_ins:
  assumes "leaf_fit kvs" "small_entry (key, g)"
  shows "\<forall>e\<in>set (ins key g kvs). small_entry e" "leaf_size (ins key g kvs) \<le> leaf_cap (length kvs) + 592"
    "length (ins key g kvs) \<le> Suc (length kvs)"
proof -
  let ?lo = "filter (\<lambda>e. fst e < key) kvs" and ?hi = "filter (\<lambda>e. key < fst e) kvs"
  have "leaf_size ?lo + leaf_size ?hi \<le> leaf_size kvs \<and> length ?lo + length ?hi \<le> length kvs"
    by (induction kvs) auto
  then show "leaf_size (ins key g kvs) \<le> leaf_cap (length kvs) + 592" "length (ins key g kvs) \<le> Suc (length kvs)"
    using assms entry_size_max [OF assms(2)] by (simp_all add: ins_def leaf_fit_def)
  show "\<forall>e\<in>set (ins key g kvs). small_entry e" using assms by (auto simp: ins_def leaf_fit_def)
qed

lemma leaf_fit_del:
  assumes "leaf_fit kvs"
  shows "leaf_fit (del key kvs)"
proof -
  have "leaf_size (del key kvs) \<le> leaf_size kvs" unfolding del_def by (induction kvs) auto
  moreover have "length (del key kvs) \<le> length kvs" by (simp add: del_def)
  ultimately show ?thesis
    using assms leaf_cap_antimono [of "length (del key kvs)" "length kvs"] by (auto simp: leaf_fit_def del_def)
qed

section \<open>Trees\<close>

fun fit :: "gtree \<Rightarrow> bool" where
  "fit (GLeaf p kvs) = leaf_fit kvs"
| "fit (GNode p ks ts) =
     ((\<forall>k\<in>set ks. length k \<le> KEY_CAP) \<and> node_size (Internal ks (map gid ts)) \<le> 3068 \<and> (\<forall>t\<in>set ts. fit t))"

lemma fit_node_size: "fit t \<Longrightarrow> node_size (node_of t) \<le> 4092"
proof (cases t)
  case (GLeaf p kvs)
  moreover assume "fit t"
  ultimately show ?thesis using leaf_cap_bounds(2) [of "length kvs"] by (simp add: leaf_fit_def node_size_leaf del: node_size.simps)
qed simp

text \<open>The node of every page of a tree that fits, fits.\<close>

lemma fit_read: "fit t \<Longrightarrow> rep rd t \<Longrightarrow> i \<in># node_pages t \<Longrightarrow> \<exists>n. rd i = Some n \<and> node_size n \<le> 4092"
proof (induction t)
  case (GLeaf p kvs)
  then show ?case using fit_node_size [OF GLeaf.prems(1)] by simp
next
  case (GNode p ks ts)
  have "node_size (Internal ks (map gid ts)) \<le> 4092" using GNode.prems(1) by simp
  then show ?case using GNode by (auto simp: set_mset_sum_list)
qed

text \<open>The size of an internal node, with room for one more key and child.\<close>

definition keys_size :: "bytes list \<Rightarrow> nat" where
  "keys_size ks = sum_list (map (\<lambda>k. 8 + length k) ks)"

lemma node_size_internal: "node_size (Internal ks is) = 20 + keys_size ks + 8 * length is"
  by (simp add: keys_size_def)

lemma keys_size_simps [simp]:
  "keys_size [] = 0" "keys_size (k # ks) = 8 + length k + keys_size ks"
  "keys_size (ks @ ls) = keys_size ks + keys_size ls"
  by (simp_all add: keys_size_def)

lemma keys_size_bounds:
  "8 * length ks \<le> keys_size ks" "\<forall>k\<in>set ks. length k \<le> KEY_CAP \<Longrightarrow> keys_size ks \<le> 68 * length ks"
  by (induction ks) auto

lemma halves_fit:
  assumes "\<forall>k\<in>set ks. length k \<le> KEY_CAP" "length ts = Suc (length ks)"
    "20 + keys_size ks + 8 * length ts \<le> 3144" "3068 < 20 + keys_size ks + 8 * length ts"
  defines "m \<equiv> length ks div 2"
  shows "20 + keys_size (take m ks) + 8 * Suc m \<le> 3068"
    "20 + keys_size (drop (Suc m) ks) + 8 * (length ks - m) \<le> 3068"
proof -
  have len: "40 \<le> length ks" using keys_size_bounds(2) [OF assms(1)] assms(2,4) by simp
  have "keys_size ks = keys_size (take m ks) + keys_size (drop m ks)"
    by (metis append_take_drop_id keys_size_simps(3))
  moreover have "keys_size (drop m ks) = 8 + length (ks ! m) + keys_size (drop (Suc m) ks)"
    using len by (subst Cons_nth_drop_Suc [symmetric]) (simp_all add: m_def)
  moreover have "8 * m \<le> keys_size (take m ks)" "8 * (length ks - Suc m) \<le> keys_size (drop (Suc m) ks)"
    using keys_size_bounds(1) [of "take m ks"] keys_size_bounds(1) [of "drop (Suc m) ks"] len
    by (simp_all add: m_def)
  moreover have "19 \<le> length ks - Suc m" "20 \<le> m" "m \<le> length ks" using len by (simp_all add: m_def)
  ultimately show "20 + keys_size (take m ks) + 8 * Suc m \<le> 3068"
    "20 + keys_size (drop (Suc m) ks) + 8 * (length ks - m) \<le> 3068"
    using assms(2,3) by simp_all
qed

end
