(* ===== verification/BTree_Insert.thy ===== *)
theory BTree_Insert
  imports Ctx_Frame Node_Fit
begin

text \<open>
  Insertion. A forest is a list of trees of the same depth with the separators between
  them: the children of an internal node, or what a descent returns (one tree, or two with
  a separator). Each step of \<open>insert_rec\<close> turns a forest into a forest with the entry
  added, keeps the page accounts, and touches only its own nodes.
\<close>

section \<open>Forests\<close>

definition forest :: "lib \<Rightarrow> ctx \<Rightarrow> nat \<Rightarrow> bytes list \<Rightarrow> gtree list \<Rightarrow> bool" where
  "forest L c h ks ts \<longleftrightarrow>
     length ts = Suc (length ks) \<and> (\<forall>t\<in>set ts. shape h t \<and> rep (ctx_read L c) t) \<and>
     vals_ok L (c_pager c) (concat (map entries ts)) \<and> ordered (inter ks (map items ts))"

definition fpages :: "gtree list \<Rightarrow> page_id multiset" where
  "fpages ts = sum_list (map node_pages ts)"

definition vpages :: "gtree list \<Rightarrow> page_id multiset" where
  "vpages ts = epages (concat (map entries ts))"

lemma fpages_simps [simp]:
  "fpages [] = {#}" "fpages (t # ts) = node_pages t + fpages ts" "fpages (ts @ us) = fpages ts + fpages us"
  by (simp_all add: fpages_def)

lemma vpages_simps [simp]:
  "vpages [] = {#}" "vpages (t # ts) = epages (entries t) + vpages ts"
  "vpages (ts @ us) = vpages ts + vpages us"
  by (simp_all add: vpages_def)

definition res_keys :: "descend_result \<Rightarrow> bytes list" where
  "res_keys res = (case snd res of None \<Rightarrow> [] | Some (sep, _) \<Rightarrow> [sep])"

definition res_ids :: "descend_result \<Rightarrow> page_id list" where
  "res_ids res = fst res # (case snd res of None \<Rightarrow> [] | Some (_, q) \<Rightarrow> [q])"

lemma res_simps [simp]:
  "res_keys (p, None) = []" "res_keys (p, Some (s, q)) = [s]"
  "res_ids (p, None) = [p]" "res_ids (p, Some (s, q)) = [p, q]"
  by (simp_all add: res_keys_def res_ids_def)

lemma gid_in_node_pages [simp]: "gid t \<in># node_pages t"
  by (cases t) auto

lemma node_pages_subset_fpages: "t \<in> set ts \<Longrightarrow> set_mset (node_pages t) \<subseteq> set_mset (fpages ts)"
  by (induction ts) auto

lemma epages_subset_vpages:
  "t \<in> set ts \<Longrightarrow> set_mset (epages (entries t)) \<subseteq> set_mset (vpages ts)"
  by (induction ts) auto

declare node_pages.simps(2) [simp del]

lemma node_pages_GNode [simp]: "node_pages (GNode p ks ts) = add_mset p (fpages ts)"
  by (simp add: fpages_def node_pages.simps)

lemma epages_GNode:
  "length ts = Suc (length ks) \<Longrightarrow> epages (entries (GNode p ks ts)) = vpages ts"
  by (simp add: entries_GNode vpages_def)

lemma forest_GNode:
  "forest L c (Suc h) [] [GNode p ks ts] \<longleftrightarrow>
     forest L c h ks ts \<and> ctx_read L c p = Some (Internal ks (map gid ts))"
  by (auto simp: forest_def entries_GNode)

lemma forest_GLeaf:
  "forest L c 0 [] [GLeaf p kvs] \<longleftrightarrow>
     ctx_read L c p = Some (node_of (GLeaf p kvs)) \<and> vals_ok L (c_pager c) kvs \<and>
     ordered (map (\<lambda>(k, g). Ent k g) kvs)"
  by (auto simp: forest_def)

lemma forest_frame:
  assumes fo: "forest L c h ks ts" and fr: "frame S c d"
    and n: "set_mset (fpages ts) \<inter> (S \<union> allocable c) = {}"
    and v: "set_mset (vpages ts) \<inter> owned S c = {}"
  shows "forest L d h ks ts"
proof -
  have "rep (ctx_read L d) t" if t: "t \<in> set ts" for t
  proof (rule rep_frame [OF _ fr])
    show "rep (ctx_read L c) t" using fo t by (simp add: forest_def)
    show "set_mset (node_pages t) \<inter> (S \<union> allocable c) = {}"
      using n node_pages_subset_fpages [OF t] by blast
  qed
  moreover have "vals_ok L (c_pager d) (concat (map entries ts))"
    by (rule vals_frame [OF _ fr]) (use fo v in \<open>auto simp: forest_def vpages_def\<close>)
  ultimately show ?thesis using fo by (simp add: forest_def)
qed

text \<open>The pages a context accounts for are disjoint from what it may hand out.\<close>

lemma cinv_disjoint:
  assumes "cinv c N V"
  shows "set_mset N \<inter> allocable c = {}" "set_mset V \<inter> allocable c = {}"
    "set_mset V \<inter> staged c = {}" "set_mset N \<inter> set_mset V = {}" "nodup N"
proof -
  show "set_mset N \<inter> allocable c = {}" "set_mset V \<inter> allocable c = {}"
    using cinv_not_allocable [OF assms] by auto
  show "set_mset V \<inter> staged c = {}" using cinv_V_not_staged [OF assms] by auto
  show "set_mset N \<inter> set_mset V = {}" "nodup N"
    using assms by (auto simp: cinv_def all_pages_def nodup_union)
qed

lemma cinv_V_not_owned: "cinv c N V \<Longrightarrow> set_mset V \<inter> owned S c = {}"
  using cinv_disjoint(2,3) [of c N V] by (auto simp: owned_def)

section \<open>Writing nodes\<close>

lemma cinv_add_not_in: "cinv c (add_mset j N) V \<Longrightarrow> j \<notin># N"
  using cinv_disjoint(5) by force

lemma replace_node_ok:
  assumes inv: "cinv c (add_mset i N) V" and f: "frame S c0 c" and i: "i \<in> S"
    and scr: "scratch \<longleftrightarrow> i \<in> staged c" "scratch \<longleftrightarrow> i \<in> staged c0"
    and r: "replace_node c scratch i n = Some (j, c')"
  shows "cinv c' (add_mset j N) V" "frame S c0 c'" "ctx_read L c' j = Some n"
    "\<And>k. k \<in># N \<Longrightarrow> ctx_read L c' k = ctx_read L c k" "c_pager c' = c_pager c"
proof -
  from r obtain c1 where cow: "cow_page c scratch i = Some (j, c1)" and c': "c' = put_node c1 j n"
    by (auto simp: replace_node_def bind_Some_iff)
  note ok = cow_page_ok [OF inv f i scr cow]
  show "cinv c' (add_mset j N) V" unfolding c' by (rule cinv_put [OF ok(1)]) simp
  show "frame S c0 c'" unfolding c' by (rule frame_put [OF ok(2,3)])
  show "ctx_read L c' j = Some n" "c_pager c' = c_pager c" using ok(5) by (simp_all add: c')
  show "\<And>k. k \<in># N \<Longrightarrow> ctx_read L c' k = ctx_read L c k"
    using ok(4) cinv_add_not_in [OF ok(1)] by (auto simp: c')
qed

lemma split_node_ok:
  assumes inv: "cinv c (add_mset i N) V" and f: "frame S c0 c" and i: "i \<in> S"
    and scr: "scratch \<longleftrightarrow> i \<in> staged c" "scratch \<longleftrightarrow> i \<in> staged c0"
    and cow: "cow_page c scratch i = Some (l, c1)" and a: "alloc c1 = Some (r, c2)"
    and c': "c' = put_node (put_node c2 l n1) r n2"
  shows "cinv c' (add_mset l (add_mset r N)) V" "frame S c0 c'"
    "ctx_read L c' l = Some n1" "ctx_read L c' r = Some n2"
    "\<And>k. k \<in># N \<Longrightarrow> ctx_read L c' k = ctx_read L c k" "c_pager c' = c_pager c"
proof -
  note ok = cow_page_ok [OF inv f i scr cow]
  have f2: "frame S c0 c2" by (rule frame_trans_empty [OF ok(2) frame_alloc [OF a]])
  have inv2: "cinv c2 (add_mset r (add_mset l N)) V" by (rule alloc_cinv(1) [OF ok(1) a])
  have r: "r \<in> owned S c0" by (rule alloc_owned [OF ok(2) a])
  have ne: "r \<noteq> l" "r \<notin># N" "l \<notin># N"
    using cinv_add_not_in [OF inv2] cinv_add_not_in [OF ok(1)] by auto
  show "cinv c' (add_mset l (add_mset r N)) V"
    unfolding c' using inv2 by (intro cinv_put) (auto simp: add_mset_commute)
  show "frame S c0 c'" unfolding c' by (intro frame_put f2 ok(3) r)
  show "ctx_read L c' l = Some n1" "ctx_read L c' r = Some n2" "c_pager c' = c_pager c"
    using ne alloc_fields(1) [OF a] ok(5) by (simp_all add: c')
  show "\<And>k. k \<in># N \<Longrightarrow> ctx_read L c' k = ctx_read L c k"
    using ne ok(4) alloc_fields(6) [OF a] by (auto simp: c')
qed

lemma forest_other_reads:
  assumes "forest L c h ks ts" "\<And>k. k \<in># fpages ts \<Longrightarrow> ctx_read L c' k = ctx_read L c k"
    "c_pager c' = c_pager c"
  shows "forest L c' h ks ts"
proof -
  have "rep (ctx_read L c') t" if t: "t \<in> set ts" for t
  proof (rule rep_cong)
    show "rep (ctx_read L c) t" using assms(1) t by (simp add: forest_def)
    fix i n assume "i \<in># node_pages t" "ctx_read L c i = Some n"
    then show "ctx_read L c' i = Some n"
      using assms(2) [of i] node_pages_subset_fpages [OF t] by auto
  qed
  then show ?thesis using assms by (simp add: forest_def)
qed

lemma finish_no_split:
  assumes "cow_page c scratch i = Some (j, c1)"
  shows "replace_node c scratch i n = Some (j, put_node c1 j n)"
  using assms by (simp add: replace_node_def)

section \<open>Leaves\<close>

lemma ins_nth:
  assumes "sorted_wrt (<) (map fst kvs)" "i < length kvs" "fst (kvs ! i) = key"
  shows "kvs = take i kvs @ (key, snd (kvs ! i)) # drop (Suc i) kvs"
    "ins key g kvs = take i kvs @ (key, g) # drop (Suc i) kvs"
    "del key kvs = take i kvs @ drop (Suc i) kvs"
proof -
  show eq: "kvs = take i kvs @ (key, snd (kvs ! i)) # drop (Suc i) kvs"
    using assms(2,3) by (metis id_take_nth_drop prod.collapse)
  have s: "sorted_wrt (<) (map fst (take i kvs) @ key # map fst (drop (Suc i) kvs))"
    using assms(1) by (subst (asm) eq) simp
  have lo: "fst e < key" if "e \<in> set (take i kvs)" for e
    using s that by (auto simp: sorted_wrt_append)
  have hi: "key < fst e" if "e \<in> set (drop (Suc i) kvs)" for e
    using s that by (auto simp: sorted_wrt_append)
  have "ins key g (take i kvs @ [(key, snd (kvs ! i))] @ drop (Suc i) kvs) =
      take i kvs @ ins key g [(key, snd (kvs ! i))] @ drop (Suc i) kvs"
    by (rule ins_append [OF lo hi])
  then show "ins key g kvs = take i kvs @ (key, g) # drop (Suc i) kvs"
    using eq by (simp add: ins_def)
  have "del key (take i kvs @ [(key, snd (kvs ! i))] @ drop (Suc i) kvs) =
      take i kvs @ del key [(key, snd (kvs ! i))] @ drop (Suc i) kvs"
    by (rule del_append [OF lo hi])
  then show "del key kvs = take i kvs @ drop (Suc i) kvs"
    using eq by (simp add: del_def)
qed

lemma ins_missing:
  assumes "\<And>k. k \<in> set (take i (map fst kvs)) \<Longrightarrow> k < key"
    "\<And>k. k \<in> set (drop i (map fst kvs)) \<Longrightarrow> key < k"
  shows "ins key g kvs = take i kvs @ (key, g) # drop i kvs"
proof -
  have "ins key g (take i kvs @ [] @ drop i kvs) = take i kvs @ ins key g [] @ drop i kvs"
    by (rule ins_append) (use assms in \<open>auto simp: take_map drop_map\<close>)
  then show ?thesis by (simp add: ins_def)
qed

lemma sorted_ins:
  "sorted_wrt (<) (map fst kvs) \<Longrightarrow> sorted_wrt (<) (map fst (ins key g kvs))"
  unfolding ins_def
  by (auto simp: sorted_wrt_append sorted_wrt_map intro: sorted_wrt_filter less_trans)

lemma sorted_del: "sorted_wrt (<) (map fst kvs) \<Longrightarrow> sorted_wrt (<) (map fst (del key kvs))"
  unfolding del_def by (simp add: sorted_wrt_map sorted_wrt_filter)

lemma insert_leaf_found:
  assumes L: "lib_ok L" and s: "sorted_wrt (<) (map fst kvs)" and v: "vals_ok L (c_pager c) kvs"
    and inv: "cinv c N (epages kvs + V)"
    and r: "insert_leaf L c key value (map fst kvs) (map (gstored \<circ> snd) kvs) = Some ((keys', values'), c')"
    and Found: "binary_search_by (\<lambda>k. cmp k key) (map fst kvs) = Found i"
  shows "\<exists>g. gbytes g = value \<and> keys' = map fst (ins key g kvs) \<and>
     values' = map (gstored \<circ> snd) (ins key g kvs) \<and> vals_ok L (c_pager c') (ins key g kvs) \<and>
     cinv c' N (epages (ins key g kvs) + V) \<and> frame {} c c' \<and> c_overlay c' = c_overlay c \<and>
     value_size (gstored g) \<le> 524"
proof -
  have sd: "sorted (map fst kvs)" using sorted_wrt_less_sorted [OF s] by simp
  note i = binary_search_key_Found [OF sd Found]
  then have i': "i < length kvs" "fst (kvs ! i) = key" by auto
  note eq = ins_nth [OF s i']
  obtain old where old: "kvs = take i kvs @ (key, old) # drop (Suc i) kvs" "old = snd (kvs ! i)"
    using eq(1) by simp
  let ?rest = "take i kvs @ drop (Suc i) kvs"
  have pages: "epages kvs = gpages old + epages ?rest"
    by (subst old(1)) (simp add: ac_simps)
  have vr: "vals_ok L (c_pager c) ?rest" "gval_ok L (c_pager c) old"
    using v by (subst (asm) old(1), simp)+
  obtain l where l: "retire_value L c (gstored old) = Some (c\<lparr>c_obsolete := c_obsolete c @ l\<rparr>)"
      "mset l = gpages old"
    using retire_value_ok [OF vr(2)] by blast
  let ?c1 = "c\<lparr>c_obsolete := c_obsolete c @ l\<rparr>"
  have inv1: "cinv ?c1 N (epages ?rest + V)"
    by (rule cinv_obsolete) (use inv pages l(2) in \<open>simp add: ac_simps\<close>)
  from r Found i' l(1) old(2) obtain sv c2 where
      sv: "store_value L ?c1 value = Some (sv, c')"
      and keys': "keys' = map fst kvs" and values': "values' = (map (gstored \<circ> snd) kvs)[i := sv]"
    by (auto simp: insert_leaf_def bind_Some_iff get_at_def set_at_def)
  obtain g where g: "sv = gstored g" "gbytes g = value" "gval_ok L (c_pager c') g"
      "cinv c' N (gpages g + (epages ?rest + V))" "frame {} ?c1 c'" "c_overlay c' = c_overlay ?c1"
      "value_size (gstored g) \<le> 524"
    using store_value_ok [OF L inv1 sv] by blast
  have vr': "vals_ok L (c_pager c') ?rest"
    by (rule vals_frame [OF _ g(5)])
      (use vr cinv_V_not_owned [OF inv1, of "{}"] in auto)
  have "keys' = map fst (ins key g kvs)" unfolding keys' eq(2) by (subst old(1)) simp
  moreover have "values' = map (gstored \<circ> snd) (ins key g kvs)"
    unfolding values' eq(2) using i'(1) g(1)
    by (simp add: upd_conv_take_nth_drop take_map drop_map)
  ultimately show ?thesis
    using g vr' frame_trans_empty [OF frame_obsolete g(5)] eq(2) [of g]
    by (intro exI [of _ g]) (simp add: ac_simps)
qed

lemma insert_leaf_missing:
  assumes L: "lib_ok L" and s: "sorted_wrt (<) (map fst kvs)" and v: "vals_ok L (c_pager c) kvs"
    and inv: "cinv c N (epages kvs + V)"
    and r: "insert_leaf L c key value (map fst kvs) (map (gstored \<circ> snd) kvs) = Some ((keys', values'), c')"
    and Missing: "binary_search_by (\<lambda>k. cmp k key) (map fst kvs) = Missing i"
  shows "\<exists>g. gbytes g = value \<and> keys' = map fst (ins key g kvs) \<and>
     values' = map (gstored \<circ> snd) (ins key g kvs) \<and> vals_ok L (c_pager c') (ins key g kvs) \<and>
     cinv c' N (epages (ins key g kvs) + V) \<and> frame {} c c' \<and> c_overlay c' = c_overlay c \<and>
     value_size (gstored g) \<le> 524"
proof -
  have sd: "sorted (map fst kvs)" using sorted_wrt_less_sorted [OF s] by simp
  note m = binary_search_key_Missing [OF sd Missing]
  have eq: "ins key g kvs = take i kvs @ (key, g) # drop i kvs" for g
    by (rule ins_missing) (use m in auto)
  from r Missing m obtain sv where
      sv: "store_value L c value = Some (sv, c')"
      and keys': "keys' = take i (map fst kvs) @ key # drop i (map fst kvs)"
      and values': "values' = take i (map (gstored \<circ> snd) kvs) @ sv # drop i (map (gstored \<circ> snd) kvs)"
    by (auto simp: insert_leaf_def bind_Some_iff insert_at_def)
  obtain g where g: "sv = gstored g" "gbytes g = value" "gval_ok L (c_pager c') g"
      "cinv c' N (gpages g + (epages kvs + V))" "frame {} c c'" "c_overlay c' = c_overlay c"
      "value_size (gstored g) \<le> 524"
    using store_value_ok [OF L inv sv] by blast
  have v': "vals_ok L (c_pager c') kvs"
    by (rule vals_frame [OF v g(5)]) (use cinv_V_not_owned [OF inv, of "{}"] in auto)
  have split: "vals_ok L (c_pager c') (take i kvs) \<and> vals_ok L (c_pager c') (drop i kvs)"
    using v' by (metis append_take_drop_id vals_ok_append)
  have pages: "epages kvs = epages (take i kvs) + epages (drop i kvs)"
    by (metis append_take_drop_id epages_append)
  show ?thesis
    using g split pages
    by (intro exI [of _ g]) (simp add: eq keys' values' take_map drop_map ac_simps)
qed

lemma insert_leaf_ok:
  assumes L: "lib_ok L" and s: "sorted_wrt (<) (map fst kvs)" and v: "vals_ok L (c_pager c) kvs"
    and inv: "cinv c N (epages kvs + V)"
    and r: "insert_leaf L c key value (map fst kvs) (map (gstored \<circ> snd) kvs) = Some ((keys', values'), c')"
  shows "\<exists>g. gbytes g = value \<and> keys' = map fst (ins key g kvs) \<and>
     values' = map (gstored \<circ> snd) (ins key g kvs) \<and> vals_ok L (c_pager c') (ins key g kvs) \<and>
     cinv c' N (epages (ins key g kvs) + V) \<and> frame {} c c' \<and> c_overlay c' = c_overlay c \<and>
     value_size (gstored g) \<le> 524"
proof (cases "binary_search_by (\<lambda>k. cmp k key) (map fst kvs)")
  case (Found i)
  show ?thesis by (rule insert_leaf_found [OF assms Found])
next
  case (Missing i)
  show ?thesis by (rule insert_leaf_missing [OF assms Missing])
qed

text \<open>A leaf that fitted before an entry was put in; and trees that fit, with their separators.\<close>

definition leaf_grown :: "nat \<Rightarrow> (bytes \<times> gval) list \<Rightarrow> bool" where
  "leaf_grown n kvs \<longleftrightarrow>
     (\<forall>e\<in>set kvs. small_entry e) \<and> leaf_size kvs \<le> leaf_cap n + 592 \<and> length kvs \<le> Suc n"

definition fit_result :: "descend_result \<Rightarrow> gtree list \<Rightarrow> bool" where
  "fit_result res us \<longleftrightarrow> (\<forall>u\<in>set us. fit u) \<and> (\<forall>k\<in>set (res_keys res). length k \<le> KEY_CAP)"

lemma leaf_grown_halves:
  assumes "leaf_grown n kvs"
  defines "m \<equiv> length kvs div 2"
  shows "leaf_fit (take m kvs)" "leaf_fit (drop m kvs)"
proof -
  have eq: "leaf_size (take m kvs) + leaf_size (drop m kvs) = leaf_size kvs"
    by (metis append_take_drop_id leaf_size_simps(3))
  have small: "\<forall>e\<in>set (take m kvs). small_entry e" "\<forall>e\<in>set (drop m kvs). small_entry e"
    using assms(1) by (auto simp: leaf_grown_def dest: in_set_takeD in_set_dropD)
  have m: "m \<le> length kvs" "length kvs - m \<le> Suc m" "m \<le> length kvs - m" by (simp_all add: m_def)
  show "leaf_fit (take m kvs)"
    by (rule leaf_fit_half [OF small(1), of "drop m kvs" n]) (use assms(1) eq m in \<open>simp_all add: leaf_grown_def\<close>)
  show "leaf_fit (drop m kvs)"
    by (rule leaf_fit_half [OF small(2), of "take m kvs" n]) (use assms(1) eq m in \<open>simp_all add: leaf_grown_def\<close>)
qed

lemma ordered_halves:
  assumes "sorted_wrt (<) (map fst (es @ (sep, g) # rest))"
  shows "ordered (inter [sep] (map items [GLeaf p es, GLeaf q ((sep, g) # rest)]))"
proof -
  let ?E = "map (\<lambda>(k, g). Ent k g) es" and ?F = "map (\<lambda>(k, g). Ent k g) ((sep, g) # rest)"
  have parts: "sorted_wrt (<) (map fst es)" "sorted_wrt (<) (map fst ((sep, g) # rest))"
    and lt: "\<And>e. e \<in> set es \<Longrightarrow> fst e < sep" and gt: "\<And>e. e \<in> set rest \<Longrightarrow> sep < fst e"
    using assms by (auto simp: sorted_wrt_append)
  have "before y (Sep sep)" if "y \<in> set ?E" for y using that lt by force
  moreover have "before (Sep sep) y" if "y \<in> set ?F" for y using that gt by (force simp: less_imp_le)
  moreover have "before y z" if "y \<in> set ?E" "z \<in> set ?F" for y z
    using calculation that before_trans by blast
  ultimately show ?thesis
    using ordered_Ents [OF parts(1)] ordered_Ents [OF parts(2)] by (simp add: ordered_append ordered_Cons)
qed

text \<open>A leaf over the threshold becomes two.\<close>

lemma split_leaf_ok:
  assumes s: "sorted_wrt (<) (map fst kvs)" and v: "vals_ok L (c_pager c) kvs"
    and inv: "cinv c (add_mset i N) (epages kvs + V)" and f: "frame S c0 c" and i: "i \<in> S"
    and scr: "scratch \<longleftrightarrow> i \<in> staged c" "scratch \<longleftrightarrow> i \<in> staged c0"
    and r: "finish_leaf L c scratch i (map fst kvs) (map (gstored \<circ> snd) kvs) = Some (res, c')"
    and True: "SPLIT_THRESHOLD < encoded_len (sd_node L) (Leaf (map fst kvs) (map (gstored \<circ> snd) kvs))"
  shows "\<exists>us. map gid us = res_ids res \<and> forest L c' 0 (res_keys res) us \<and>
     cinv c' (fpages us + N) (vpages us + V) \<and> concat (map entries us) = kvs \<and> frame S c0 c' \<and>
     (lib_sizes L \<and> leaf_grown n kvs \<longrightarrow> fit_result res us) \<and>
     (\<forall>y\<in>set (inter (res_keys res) (map items us)). \<exists>k g. (k, g) \<in> set kvs \<and> (y = Ent k g \<or> y = Sep k))"
proof -
  let ?m = "length kvs div 2"
  from r True obtain l c1 r' c2 sep where cow: "cow_page c scratch i = Some (l, c1)"
      and a: "alloc c1 = Some (r', c2)" and res: "res = (l, Some (sep, r'))"
      and sep: "get_at (drop ?m (map fst kvs)) 0 = Some sep"
      and c': "c' = put_node (put_node c2 l
        (Leaf (map fst (take ?m kvs)) (map (gstored \<circ> snd) (take ?m kvs)))) r'
        (Leaf (map fst (drop ?m kvs)) (map (gstored \<circ> snd) (drop ?m kvs)))"
    by (auto simp: finish_leaf_def bind_Some_iff Let_def slice_from_def slice_to_def take_map drop_map
        split: if_splits)
  note ok = split_node_ok [OF inv f i scr cow a c']
  have sep': "drop ?m kvs \<noteq> []" "sep = fst (hd (drop ?m kvs))"
    using sep by (auto simp: get_at_def drop_map hd_conv_nth split: if_splits)
  then obtain g rest where d: "drop ?m kvs = (sep, g) # rest" by (cases "drop ?m kvs") auto
  have kvs: "kvs = take ?m kvs @ (sep, g) # rest" using d by (metis append_take_drop_id)
  let ?us = "[GLeaf l (take ?m kvs), GLeaf r' (drop ?m kvs)]"
  have ord: "ordered (inter [sep] (map items ?us))"
    using ordered_halves [of "take ?m kvs" sep g rest] s by (simp add: d flip: kvs)
  have "epages kvs = epages (take ?m kvs) + epages (drop ?m kvs)"
    by (metis append_take_drop_id epages_append)
  then have cv: "cinv c' (fpages ?us + N) (vpages ?us + V)"
    using ok(1) by (simp add: ac_simps add_mset_commute)
  have vs: "vals_ok L (c_pager c') (take ?m kvs)" "vals_ok L (c_pager c') (drop ?m kvs)"
    using v ok(6) by (metis append_take_drop_id vals_ok_append)+
  have "forest L c' 0 (res_keys res) ?us"
    using ord ok(3,4,6) v vs by (simp add: forest_def res)
  moreover have "\<exists>k g. (k, g) \<in> set kvs \<and> (y = Ent k g \<or> y = Sep k)"
    if "y \<in> set (inter (res_keys res) (map items ?us))" for y
    using that d by (auto simp: res dest: in_set_takeD in_set_dropD) (metis in_set_dropD list.set_intros)+
  moreover have "fit_result res ?us" if "leaf_grown n kvs"
  proof -
    have "(sep, g) \<in> set kvs" by (subst kvs) simp
    then have "length sep \<le> KEY_CAP" using that by (auto simp: leaf_grown_def small_entry_def)
    then show ?thesis using leaf_grown_halves [OF that] by (simp add: fit_result_def res)
  qed
  ultimately show ?thesis
    using cv ok(2) by (intro exI [of _ ?us]) (simp add: res)
qed

lemma finish_leaf_ok:
  assumes s: "sorted_wrt (<) (map fst kvs)" and v: "vals_ok L (c_pager c) kvs"
    and inv: "cinv c (add_mset i N) (epages kvs + V)" and f: "frame S c0 c" and i: "i \<in> S"
    and scr: "scratch \<longleftrightarrow> i \<in> staged c" "scratch \<longleftrightarrow> i \<in> staged c0"
    and r: "finish_leaf L c scratch i (map fst kvs) (map (gstored \<circ> snd) kvs) = Some (res, c')"
  shows "\<exists>us. map gid us = res_ids res \<and> forest L c' 0 (res_keys res) us \<and>
     cinv c' (fpages us + N) (vpages us + V) \<and> concat (map entries us) = kvs \<and> frame S c0 c' \<and>
     (lib_sizes L \<and> leaf_grown n kvs \<longrightarrow> fit_result res us) \<and>
     (\<forall>y\<in>set (inter (res_keys res) (map items us)). \<exists>k g. (k, g) \<in> set kvs \<and> (y = Ent k g \<or> y = Sep k))"
proof (cases "SPLIT_THRESHOLD < encoded_len (sd_node L) (Leaf (map fst kvs) (map (gstored \<circ> snd) kvs))")
  case False
  with r obtain j c1 where cow: "cow_page c scratch i = Some (j, c1)" and res: "res = (j, None)"
      and c': "c' = put_node c1 j (Leaf (map fst kvs) (map (gstored \<circ> snd) kvs))"
    by (auto simp: finish_leaf_def bind_Some_iff)
  have "replace_node c scratch i (Leaf (map fst kvs) (map (gstored \<circ> snd) kvs)) = Some (j, c')"
    unfolding c' by (rule finish_no_split [OF cow])
  note ok = replace_node_ok [OF inv f i scr this]
  have "lib_sizes L \<and> leaf_grown n kvs \<longrightarrow> leaf_fit kvs"
    using False leaf_fit_small [of kvs]
    by (auto simp: leaf_grown_def encoded_len_def lib_sizes_def SPLIT_THRESHOLD_def node_size_leaf
        simp del: node_size.simps)
  then show ?thesis
    using ok v ordered_Ents [OF s]
    by (intro exI [of _ "[GLeaf j kvs]"]) (auto simp: res forest_GLeaf fit_result_def)
next
  case True
  show ?thesis by (rule split_leaf_ok [OF assms True])
qed

section \<open>Internal nodes\<close>

lemma inter_halves:
  assumes "m < length ks" "length ts = Suc (length ks)"
  shows "inter ks (map items ts) =
    inter (take m ks) (map items (take (Suc m) ts)) @ Sep (ks ! m) # inter (drop (Suc m) ks) (map items (drop (Suc m) ts))"
proof -
  let ?k1 = "take m ks" and ?k2 = "drop (Suc m) ks" and ?t1 = "take (Suc m) ts" and ?t2 = "drop (Suc m) ts"
  have ks: "ks = (?k1 @ [ks ! m]) @ ?k2" using assms(1) by (simp add: id_take_nth_drop)
  have lens: "length ?t1 = Suc (length ?k1)" "length ?t2 = Suc (length ?k2)" using assms by auto
  have "inter ((?k1 @ [ks ! m]) @ ?k2) (map items ?t1 @ map items ?t2) =
      inter (?k1 @ [ks ! m]) (map items ?t1) @ inter ?k2 (map items ?t2)"
    by (rule inter_append) (use lens in simp)
  moreover have "inter (?k1 @ [ks ! m]) (map items ?t1) = inter ?k1 (map items ?t1) @ [Sep (ks ! m)]"
  proof -
    obtain us u where us: "?t1 = us @ [u]" using lens(1) by (metis length_Suc_conv_rev)
    then show ?thesis
      using lens(1) inter_append [of "map items us" ?k1 "[ks ! m]" "[items u]"]
        inter_append [of "map items us" ?k1 "[]" "[items u]"] by simp
  qed
  ultimately show ?thesis
    using ks by (metis append.assoc append_Cons append_Nil append_take_drop_id map_append)
qed

text \<open>An inner node over the threshold becomes two, each of which fits.\<close>

lemma fit_internal_halves:
  assumes "length ts = Suc (length ks)" "0 < length ks" "3068 < node_size (Internal ks (map gid ts))"
    "\<forall>t\<in>set ts. fit t" "\<forall>k\<in>set ks. length k \<le> KEY_CAP" "node_size (Internal ks (map gid ts)) \<le> 3144"
  defines "m \<equiv> length ks div 2"
  shows "fit (GNode l (take m ks) (take (Suc m) ts)) \<and> fit (GNode r (drop (Suc m) ks) (drop (Suc m) ts)) \<and>
    length (ks ! m) \<le> KEY_CAP"
proof -
  have "m < length ks" using assms(2) by (simp add: m_def)
  then have "length (map gid (take (Suc m) ts)) = Suc m" "length (map gid (drop (Suc m) ts)) = length ks - m"
    using assms(1) by simp_all
  moreover have "20 + keys_size (take m ks) + 8 * Suc m \<le> 3068"
      "20 + keys_size (drop (Suc m) ks) + 8 * (length ks - m) \<le> 3068"
    using halves_fit [OF assms(5,1)] assms(3,6) unfolding node_size_internal m_def by simp_all
  ultimately have "node_size (Internal (take m ks) (map gid (take (Suc m) ts))) \<le> 3068"
      "node_size (Internal (drop (Suc m) ks) (map gid (drop (Suc m) ts))) \<le> 3068"
    unfolding node_size_internal by simp_all
  then show ?thesis
    using assms(4,5) \<open>m < length ks\<close> by (auto simp del: node_size.simps dest: in_set_takeD in_set_dropD)
qed

lemma split_internal_ok:
  assumes fo: "forest L c h ks ts"
    and inv: "cinv c (add_mset i (fpages ts + N)) (vpages ts + V)" and f: "frame S c0 c" and i: "i \<in> S"
    and scr: "scratch \<longleftrightarrow> i \<in> staged c" "scratch \<longleftrightarrow> i \<in> staged c0"
    and r: "finish_internal L c scratch i ks (map gid ts) = Some (res, c')"
    and True: "SPLIT_THRESHOLD < encoded_len (sd_node L) (Internal ks (map gid ts))"
  shows "\<exists>us. map gid us = res_ids res \<and> forest L c' (Suc h) (res_keys res) us \<and>
     cinv c' (fpages us + N) (vpages us + V) \<and> concat (map entries us) = concat (map entries ts) \<and>
     inter (res_keys res) (map items us) = inter ks (map items ts) \<and> frame S c0 c' \<and>
     (lib_sizes L \<and> (\<forall>t\<in>set ts. fit t) \<and> (\<forall>k\<in>set ks. length k \<le> KEY_CAP) \<and>
       node_size (Internal ks (map gid ts)) \<le> 3144 \<longrightarrow> fit_result res us)"
proof -
  have len: "length ts = Suc (length ks)" using fo by (simp add: forest_def)
  let ?m = "length ks div 2"
  let ?k1 = "take ?m ks" and ?k2 = "drop (Suc ?m) ks" and ?t1 = "take (Suc ?m) ts" and ?t2 = "drop (Suc ?m) ts"
  from r True obtain l c1 r' c2 where cow: "cow_page c scratch i = Some (l, c1)"
      and a: "alloc c1 = Some (r', c2)" and res: "res = (l, Some (ks ! ?m, r'))" and m: "?m < length ks"
      and c': "c' = put_node (put_node c2 l (Internal ?k1 (map gid ?t1))) r' (Internal ?k2 (map gid ?t2))"
    by (auto simp: finish_internal_def bind_Some_iff Let_def slice_from_def slice_to_def get_at_def
        take_map drop_map split: if_splits)
  note ok = split_node_ok [OF inv f i scr cow a c'] and its = inter_halves [OF m len]
  have lens: "length ?t1 = Suc (length ?k1)" "length ?t2 = Suc (length ?k2)" using len m by auto
  have fo': "forest L c' h ks ts" by (rule forest_other_reads [OF fo _ ok(6)]) (simp add: ok(5))
  have f1: "forest L c' h ?k1 ?t1" "forest L c' h ?k2 ?t2"
    using fo' lens its by (auto simp: forest_def ordered_append ordered_Cons vals_ok_def
        dest: in_set_takeD in_set_dropD)
  let ?us = "[GNode l ?k1 ?t1, GNode r' ?k2 ?t2]"
  have es: "concat (map entries ?t1) @ concat (map entries ?t2) = concat (map entries ts)"
    by (metis append_take_drop_id concat_append map_append)
  have fp: "fpages ?t1 + fpages ?t2 = fpages ts" "vpages ?t1 + vpages ?t2 = vpages ts"
    by (metis append_take_drop_id fpages_simps(3), metis append_take_drop_id vpages_simps(3))
  have "forest L c' (Suc h) [ks ! ?m] ?us"
    using f1 ok(3,4) its fo' forest_GNode [of L c' h l ?k1 ?t1] forest_GNode [of L c' h r' ?k2 ?t2]
    by (simp add: forest_def)
  moreover have "cinv c' (fpages ?us + N) (vpages ?us + V)"
    using ok(1) lens
    by (simp add: node_pages_GNode epages_GNode flip: fp) (simp add: ac_simps add_mset_commute)
  moreover have "fit_result res ?us" if f: "lib_sizes L" "\<forall>t\<in>set ts. fit t" "\<forall>k\<in>set ks. length k \<le> KEY_CAP"
      "node_size (Internal ks (map gid ts)) \<le> 3144"
  proof -
    have "3068 < node_size (Internal ks (map gid ts))"
      using True f(1) by (simp add: encoded_len_def lib_sizes_def SPLIT_THRESHOLD_def del: node_size.simps)
    moreover have "0 < length ks" using m by auto
    ultimately show ?thesis using fit_internal_halves [OF len _ _ f(2-4), of l r']
      by (auto simp: fit_result_def res simp del: fit.simps)
  qed
  ultimately show ?thesis
    using ok(2) its es lens by (intro exI [of _ ?us]) (simp add: res entries_GNode)
qed

lemma finish_internal_ok:
  assumes fo: "forest L c h ks ts"
    and inv: "cinv c (add_mset i (fpages ts + N)) (vpages ts + V)" and f: "frame S c0 c" and i: "i \<in> S"
    and scr: "scratch \<longleftrightarrow> i \<in> staged c" "scratch \<longleftrightarrow> i \<in> staged c0"
    and r: "finish_internal L c scratch i ks (map gid ts) = Some (res, c')"
  shows "\<exists>us. map gid us = res_ids res \<and> forest L c' (Suc h) (res_keys res) us \<and>
     cinv c' (fpages us + N) (vpages us + V) \<and> concat (map entries us) = concat (map entries ts) \<and>
     inter (res_keys res) (map items us) = inter ks (map items ts) \<and> frame S c0 c' \<and>
     (lib_sizes L \<and> (\<forall>t\<in>set ts. fit t) \<and> (\<forall>k\<in>set ks. length k \<le> KEY_CAP) \<and>
       node_size (Internal ks (map gid ts)) \<le> 3144 \<longrightarrow> fit_result res us)"
proof (cases "SPLIT_THRESHOLD < encoded_len (sd_node L) (Internal ks (map gid ts))")
  case False
  with r obtain j c1 where cow: "cow_page c scratch i = Some (j, c1)" and res: "res = (j, None)"
      and c': "c' = put_node c1 j (Internal ks (map gid ts))"
    by (auto simp: finish_internal_def bind_Some_iff)
  have "replace_node c scratch i (Internal ks (map gid ts)) = Some (j, c')"
    unfolding c' by (rule finish_no_split [OF cow])
  note ok = replace_node_ok [OF inv f i scr this]
  have "forest L c' h ks ts" by (rule forest_other_reads [OF fo _ ok(5)]) (simp add: ok(4))
  moreover have "lib_sizes L \<Longrightarrow> node_size (Internal ks (map gid ts)) \<le> 3068"
    using False by (simp add: encoded_len_def lib_sizes_def SPLIT_THRESHOLD_def del: node_size.simps)
  moreover have "length ts = Suc (length ks)" using fo by (simp add: forest_def)
  ultimately show ?thesis
    using ok
    by (intro exI [of _ "[GNode j ks ts]"])
      (simp add: res forest_GNode fpages_def vpages_def entries_GNode fit_result_def)
next
  case True
  show ?thesis by (rule split_internal_ok [OF assms True])
qed

section \<open>The descent\<close>

lemma fit_absorb:
  assumes "fit (GNode p (ks1 @ ks2) (ts1 @ u # ts2))" "fit_result r us" "length us = Suc (length (res_keys r))"
  shows "\<forall>t\<in>set (ts1 @ us @ ts2). fit t" "\<forall>k\<in>set (ks1 @ res_keys r @ ks2). length k \<le> KEY_CAP"
    "node_size (Internal (ks1 @ res_keys r @ ks2) (map gid (ts1 @ us @ ts2))) \<le> 3144"
proof -
  have "length (res_keys r) \<le> 1" by (cases r; cases "snd r") auto
  moreover have "keys_size (res_keys r) \<le> 68 * length (res_keys r)"
    by (rule keys_size_bounds(2)) (use assms(2) in \<open>simp add: fit_result_def\<close>)
  moreover have "20 + keys_size (ks1 @ ks2) + 8 * length (map gid (ts1 @ u # ts2)) \<le> 3068"
    using assms(1) unfolding fit.simps node_size_internal by blast
  ultimately show "node_size (Internal (ks1 @ res_keys r @ ks2) (map gid (ts1 @ us @ ts2))) \<le> 3144"
    using assms(3) unfolding node_size_internal by simp
qed (use assms in \<open>auto simp: fit_result_def simp del: node_size.simps\<close>)

text \<open>What a descent promises, from the tree \<open>t\<close> at \<open>c\<close> to the forest it leaves at \<open>c'\<close>.\<close>

definition grown :: "lib \<Rightarrow> nat \<Rightarrow> bytes \<Rightarrow> bytes \<Rightarrow> gtree \<Rightarrow> page_id multiset \<Rightarrow> page_id multiset \<Rightarrow>
    ctx \<Rightarrow> descend_result \<Rightarrow> ctx \<Rightarrow> bool" where
  "grown L h key value t N V c res c' \<longleftrightarrow>
     (\<exists>ts g. map gid ts = res_ids res \<and> forest L c' h (res_keys res) ts \<and>
        cinv c' (fpages ts + N) (vpages ts + V) \<and> gbytes g = value \<and>
        concat (map entries ts) = ins key g (entries t) \<and>
        grows (items t) key (inter (res_keys res) (map items ts)) \<and>
        frame (set_mset (node_pages t)) c c' \<and>
        (lib_sizes L \<and> length key \<le> KEY_CAP \<and> fit t \<longrightarrow> fit_result res ts))"

lemma grows_ins:
  assumes "\<forall>y\<in>set ys. \<exists>k g'. (k, g') \<in> set (ins key g kvs) \<and> (y = Ent k g' \<or> y = Sep k)"
  shows "grows (map (\<lambda>(k, g). Ent k g) kvs) key ys"
proof (rule growsI)
  fix a y
  assume a: "\<forall>x\<in>set (map (\<lambda>(k, g). Ent k g) kvs). before a x" "\<forall>g. before a (Ent key g)" "y \<in> set ys"
  obtain k g' where y: "(k, g') \<in> set (ins key g kvs)" "y = Ent k g' \<or> y = Sep k"
    using assms a(3) by blast
  have "before a (Ent k g')" using y(1) a(1,2) by (auto simp: ins_def)
  then show "before a y" using y(2) by (auto simp: before_Ent)
next
  fix b y
  assume b: "\<forall>x\<in>set (map (\<lambda>(k, g). Ent k g) kvs). before x b" "\<forall>g. before (Ent key g) b" "y \<in> set ys"
  obtain k g' where y: "(k, g') \<in> set (ins key g kvs)" "y = Ent k g' \<or> y = Sep k"
    using assms b(3) by blast
  have "before (Ent k g') b" using y(1) b(1,2) by (auto simp: ins_def)
  then show "before y b" using y(2) before_Sep_Ent by auto
qed

lemma insert_leaf_case:
  assumes L: "lib_ok L" and fo: "forest L c 0 [] [GLeaf p kvs]"
    and inv: "cinv c (add_mset p N) (epages kvs + V)"
    and r: "insert_rec L key value c p = Some (res, c')"
  shows "grown L 0 key value (GLeaf p kvs) N V c res c'"
proof -
  have rd: "ctx_read L c p = Some (Leaf (map fst kvs) (map (gstored \<circ> snd) kvs))"
    and v: "vals_ok L (c_pager c) kvs" and o: "ordered (map (\<lambda>(k, g). Ent k g) kvs)"
    using fo by (auto simp: forest_GLeaf)
  have s: "sorted_wrt (<) (map fst kvs)" using ordered_entries [OF o] by simp
  from r rd obtain keys' values' c1 where
      il: "insert_leaf L c key value (map fst kvs) (map (gstored \<circ> snd) kvs) = Some ((keys', values'), c1)"
      and fl: "finish_leaf L c1 (is_scratch c p) p keys' values' = Some (res, c')"
    by (auto simp: insert_rec.simps [of L key "value" c p] bind_Some_iff)
  obtain g where g: "gbytes g = value" "keys' = map fst (ins key g kvs)"
      "values' = map (gstored \<circ> snd) (ins key g kvs)" "vals_ok L (c_pager c1) (ins key g kvs)"
      "cinv c1 (add_mset p N) (epages (ins key g kvs) + V)" "frame {} c c1" "c_overlay c1 = c_overlay c"
      "value_size (gstored g) \<le> 524"
    using insert_leaf_ok [OF L s v inv il] by blast
  have f1: "frame {p} c c1" by (rule frame_mono [OF g(6)]) simp
  obtain us where us: "map gid us = res_ids res" "forest L c' 0 (res_keys res) us"
      "cinv c' (fpages us + N) (vpages us + V)" "concat (map entries us) = ins key g kvs" "frame {p} c c'"
      "\<forall>y\<in>set (inter (res_keys res) (map items us)).
         \<exists>k g'. (k, g') \<in> set (ins key g kvs) \<and> (y = Ent k g' \<or> y = Sep k)"
      "lib_sizes L \<and> leaf_grown (length kvs) (ins key g kvs) \<longrightarrow> fit_result res us"
    using finish_leaf_ok [OF sorted_ins [OF s] g(4,5) f1 _ _ _ fl [unfolded g(2,3)], of "length kvs"] g(7)
    by (auto simp: is_scratch_def staged_def dom_def)
  show ?thesis
    unfolding grown_def using us g(1,8) grows_ins [OF us(6)] leaf_fit_ins [of kvs key g]
    by (intro exI [of _ us] exI [of _ g]) (simp add: leaf_grown_def small_entry_def)
qed

lemma absorb_split_ok:
  assumes "length ks1 = i" "length ts1 = i"
  shows "absorb_split (ks1 @ ks2) (map gid (ts1 @ t # ts2)) i res =
     Some (ks1 @ res_keys res @ ks2, map gid ts1 @ res_ids res @ map gid ts2)"
proof -
  have set: "set_at (map gid (ts1 @ t # ts2)) i (fst res) = Some (map gid ts1 @ fst res # map gid ts2)"
    using set_at_append [of "map gid ts1" "gid t" "map gid ts2" "fst res"] assms(2) by simp
  show ?thesis
  proof (cases "snd res")
    case None
    then show ?thesis using set assms by (simp add: absorb_split_def res_keys_def res_ids_def)
  next
    case (Some sq)
    have "insert_at (map gid ts1 @ fst res # map gid ts2) (Suc i) (snd sq) =
        Some (map gid ts1 @ fst res # snd sq # map gid ts2)"
      using insert_at_append [of "map gid ts1 @ [fst res]" "map gid ts2" "snd sq"] assms(2) by simp
    moreover have "insert_at (ks1 @ ks2) i (fst sq) = Some (ks1 @ fst sq # ks2)"
      using insert_at_append [of ks1 ks2 "fst sq"] assms(1) by simp
    ultimately show ?thesis
      using set Some by (cases sq) (simp add: absorb_split_def res_keys_def res_ids_def)
  qed
qed

text \<open>Putting the result of a descent back among its siblings.\<close>

lemma forest_replace:
  assumes fo: "forest L c h (ks1 @ ks2) (ts1 @ u # ts2)"
    and len: "length ts1 = length ks1" "length ts2 = length ks2"
    and inv: "cinv c (node_pages u + (fpages ts1 + fpages ts2 + N)) (epages (entries u) + (vpages ts1 + vpages ts2 + V))"
    and fr: "frame (set_mset (node_pages u)) c d"
    and us: "forest L d h ms us"
    and ord: "ordered (inter (ks1 @ ms @ ks2) (map items (ts1 @ us @ ts2)))"
  shows "forest L d h (ks1 @ ms @ ks2) (ts1 @ us @ ts2)"
proof -
  have dis: "set_mset (fpages ts1 + fpages ts2) \<inter> (set_mset (node_pages u) \<union> allocable c) = {}"
    using cinv_disjoint(1,5) [OF inv] by (auto simp: nodup_union)
  have "rep (ctx_read L d) t" if t: "t \<in> set (ts1 @ ts2)" for t
  proof (rule rep_frame [OF _ fr])
    show "rep (ctx_read L c) t" using fo t by (auto simp: forest_def)
    have "set_mset (node_pages t) \<subseteq> set_mset (fpages (ts1 @ ts2))"
      by (rule node_pages_subset_fpages [OF t])
    then show "set_mset (node_pages t) \<inter> (set_mset (node_pages u) \<union> allocable c) = {}"
      using dis by auto
  qed
  moreover have "vals_ok L (c_pager d) (concat (map entries (ts1 @ ts2)))"
  proof (rule vals_frame [OF _ fr])
    show "vals_ok L (c_pager c) (concat (map entries (ts1 @ ts2)))"
      using fo by (simp add: forest_def)
    show "set_mset (epages (concat (map entries (ts1 @ ts2)))) \<inter> owned (set_mset (node_pages u)) c = {}"
      using cinv_V_not_owned [OF inv, of "set_mset (node_pages u)"] by (auto simp: vpages_def)
  qed
  ultimately show ?thesis using fo us ord len by (auto simp: forest_def)
qed

lemma gnode_cases:
  assumes "forest L c h [] [t]"
  obtains (leaf) p kvs where "h = 0" "t = GLeaf p kvs"
  | (node) h' p ks ts where "h = Suc h'" "t = GNode p ks ts" "length ts = Suc (length ks)"
      "forest L c h' ks ts" "ctx_read L c p = Some (Internal ks (map gid ts))" "sorted ks"
proof (cases t)
  case (GLeaf p kvs)
  then show ?thesis using assms leaf by (cases h) (auto simp: forest_def)
next
  case (GNode p ks ts)
  then obtain h' where h: "h = Suc h'" using assms by (cases h) (auto simp: forest_def)
  then have fo: "forest L c h' ks ts" "ctx_read L c p = Some (Internal ks (map gid ts))"
    using assms by (auto simp: GNode forest_GNode)
  have "sorted ks" by (rule ordered_inter_sorted [of _ "map items ts"]) (use fo in \<open>auto simp: forest_def\<close>)
  then show ?thesis using node [OF h GNode _ fo] fo by (simp add: forest_def)
qed

text \<open>The child a descent takes, with what lies on either side of it.\<close>

lemma descend_child:
  assumes len: "length ts = Suc (length ks)" and s: "sorted ks" and ord: "ordered (inter ks (map items ts))"
  obtains ks1 ks2 ts1 u ts2 where "ks = ks1 @ ks2" "ts = ts1 @ u # ts2" "length ts1 = length ks1"
    "length ts2 = length ks2" "child_index ks key = length ks1"
    "inter ks (map items ts) = inter ks1 (map items ts1) @ items u @ after ks2 (map items ts2)"
    "\<And>a g. a \<in> set (inter ks1 (map items ts1)) \<Longrightarrow> before a (Ent key g)"
    "\<And>b g. b \<in> set (after ks2 (map items ts2)) \<Longrightarrow> before (Ent key g) b"
proof -
  let ?i = "child_index ks key"
  note ci = child_index_split [OF s refl]
  obtain ks1 ks2 ts1 u ts2 where p: "ks = ks1 @ ks2" "ts = ts1 @ u # ts2" "length ks1 = ?i"
      "length ts1 = ?i" "length ts2 = length ks2"
    using split_children [OF len ci(1)] by metis
  have k: "take ?i ks = ks1" "drop ?i ks = ks2" using p by auto
  have its: "inter ks (map items ts) = inter ks1 (map items ts1) @ items u @ after ks2 (map items ts2)"
    using inter_one_mid [of "map items ts1" ks1 "map items ts2" ks2 "items u"] p by simp
  have ord': "ordered (inter (ks1 @ ks2) (map items ts1 @ items u # map items ts2))"
    using ord p by simp
  have lens: "length (map items ts1) = length ks1" "length (map items ts2) = length ks2"
    using p by auto
  have "\<And>k. k \<in> set ks1 \<Longrightarrow> k \<le> key" "\<And>k. k \<in> set ks2 \<Longrightarrow> key < k"
    using ci(2,3) k by auto
  note b = descend_bounds [OF lens ord' this]
  show thesis
  proof (rule that [OF p(1,2) _ p(5) _ its])
    show "length ts1 = length ks1" "child_index ks key = length ks1" using p by auto
    show "\<And>a g. a \<in> set (inter ks1 (map items ts1)) \<Longrightarrow> before a (Ent key g)"
      by (rule b(1))
    show "\<And>x g. x \<in> set (after ks2 (map items ts2)) \<Longrightarrow> before (Ent key g) x"
      by (rule b(2))
  qed
qed

lemma frame_is_scratch: "frame S c d \<Longrightarrow> i \<notin> S \<union> allocable c \<Longrightarrow> (i \<in> staged d) = (i \<in> staged c)"
  by (auto simp: frame_def staged_def dom_def)

lemma descend_keys:
  assumes "length ts1 = length ks1" "length ts2 = length ks2"
    and lo: "\<And>a g. a \<in> set (inter ks1 (map items ts1)) \<Longrightarrow> before a (Ent key g)"
    and hi: "\<And>b g. b \<in> set (after ks2 (map items ts2)) \<Longrightarrow> before (Ent key g) b"
  shows "\<And>e. e \<in> set (concat (map entries ts1)) \<Longrightarrow> fst e < key"
    "\<And>e. e \<in> set (concat (map entries ts2)) \<Longrightarrow> key < fst e"
proof -
  have e1: "concat (map entries ts1) = entries_of (inter ks1 (map items ts1))"
    and e2: "concat (map entries ts2) = entries_of (after ks2 (map items ts2))"
    using assms(1,2) by (simp_all add: entries_of_inter entries_of_after entries_def [abs_def] o_def)
  show "fst e < key" if "e \<in> set (concat (map entries ts1))" for e
    using that unfolding e1 by (auto intro: descend_entries [OF lo])
  show "key < fst e" if "e \<in> set (concat (map entries ts2))" for e
    using that unfolding e2 by (auto intro: descend_entries' [OF hi])
qed

text \<open>The descent of insert and delete into an internal node: the child \<open>child_index\<close> names, with the
tree below it, the pages it may use and the keys on either side.\<close>

lemma descend_case:
  assumes fo: "forest L c h ks ts"
    and inv: "cinv c (node_pages (GNode p ks ts) + N) (epages (entries (GNode p ks ts)) + V)"
  obtains ks1 ks2 ts1 u ts2 where "ks = ks1 @ ks2" "ts = ts1 @ u # ts2"
    "length ts1 = length ks1" "length ts2 = length ks2" "child_index ks key = length ks1"
    "get_at (map gid ts) (length ks1) = Some (gid u)"
    "\<And>nc. set_at (map gid ts) (length ks1) nc = Some (map gid ts1 @ nc # map gid ts2)"
    "forest L c h [] [u]"
    "cinv c (node_pages u + (fpages ts1 + fpages ts2 + add_mset p N)) (epages (entries u) + (vpages ts1 + vpages ts2 + V))"
    "\<And>a g. a \<in> set (inter ks1 (map items ts1)) \<Longrightarrow> before a (Ent key g)"
    "\<And>b g. b \<in> set (after ks2 (map items ts2)) \<Longrightarrow> before (Ent key g) b"
proof -
  have len: "length ts = Suc (length ks)" and ord: "ordered (inter ks (map items ts))"
    using fo by (simp_all add: forest_def)
  have "sorted ks" by (rule ordered_inter_sorted [OF _ ord]) (simp add: len)
  from len this ord obtain ks1 ks2 ts1 u ts2 where sp: "ks = ks1 @ ks2" "ts = ts1 @ u # ts2"
      "length ts1 = length ks1" "length ts2 = length ks2" "child_index ks key = length ks1"
      and its: "inter ks (map items ts) = inter ks1 (map items ts1) @ items u @ after ks2 (map items ts2)"
      and lo: "\<And>a g. a \<in> set (inter ks1 (map items ts1)) \<Longrightarrow> before a (Ent key g)"
      and hi: "\<And>b g. b \<in> set (after ks2 (map items ts2)) \<Longrightarrow> before (Ent key g) b"
    by (rule descend_child [where key = key]) metis
  have "get_at (map gid ts) (length ks1) = Some (gid u)"
      "set_at (map gid ts) (length ks1) nc = Some (map gid ts1 @ nc # map gid ts2)" for nc
    using get_at_append [of "map gid ts1" "gid u" "map gid ts2"] set_at_append [of "map gid ts1" "gid u" "map gid ts2" nc]
      sp by simp_all
  moreover have "forest L c h [] [u]" using fo sp its ord by (auto simp: forest_def ordered_append)
  moreover have "cinv c (node_pages u + (fpages ts1 + fpages ts2 + add_mset p N))
      (epages (entries u) + (vpages ts1 + vpages ts2 + V))"
    using inv len sp by (simp add: epages_GNode ac_simps)
  ultimately show thesis using that sp lo hi by blast
qed

text \<open>A child took the key: what the descent into it returned goes back among its siblings.\<close>

lemma insert_node_case:
  assumes fo: "forest L c h (ks1 @ ks2) (ts1 @ u # ts2)" and len: "length ts1 = length ks1" "length ts2 = length ks2"
    and inv: "cinv c (node_pages u + (fpages ts1 + fpages ts2 + add_mset p N)) (epages (entries u) + (vpages ts1 + vpages ts2 + V))"
    and gr: "grown L h key value u (fpages ts1 + fpages ts2 + add_mset p N) (vpages ts1 + vpages ts2 + V) c r1 c1"
    and lo: "\<And>a g. a \<in> set (inter ks1 (map items ts1)) \<Longrightarrow> before a (Ent key g)"
    and hi: "\<And>b g. b \<in> set (after ks2 (map items ts2)) \<Longrightarrow> before (Ent key g) b"
    and ab: "absorb_split (ks1 @ ks2) (map gid (ts1 @ u # ts2)) (length ks1) r1 = Some (keys', children')"
    and fin: "finish_internal L c1 (is_scratch c p) p keys' children' = Some (res, c')"
  shows "grown L (Suc h) key value (GNode p (ks1 @ ks2) (ts1 @ u # ts2)) N V c res c'"
proof -
  let ?t = "GNode p (ks1 @ ks2) (ts1 @ u # ts2)"
  obtain us g where us: "map gid us = res_ids r1" "forest L c1 h (res_keys r1) us"
      "cinv c1 (fpages us + (fpages ts1 + fpages ts2 + add_mset p N)) (vpages us + (vpages ts1 + vpages ts2 + V))"
      "gbytes g = value" "concat (map entries us) = ins key g (entries u)"
      "grows (items u) key (inter (res_keys r1) (map items us))"
      "frame (set_mset (node_pages u)) c c1" "lib_sizes L \<and> length key \<le> KEY_CAP \<and> fit u \<longrightarrow> fit_result r1 us"
    using gr unfolding grown_def by blast
  let ?ks = "ks1 @ res_keys r1 @ ks2" and ?ts = "ts1 @ us @ ts2" and ?S = "set_mset (node_pages ?t)"
  have lenu: "length us = Suc (length (res_keys r1))" and ordu: "ordered (inter (res_keys r1) (map items us))"
    using us(2) by (simp_all add: forest_def)
  have its: "inter (ks1 @ ks2) (map items (ts1 @ u # ts2)) = inter ks1 (map items ts1) @ items u @ after ks2 (map items ts2)"
    using inter_one_mid [of "map items ts1" ks1 "map items ts2" ks2 "items u"] len by simp
  have its': "inter ?ks (map items ?ts) =
      inter ks1 (map items ts1) @ inter (res_keys r1) (map items us) @ after ks2 (map items ts2)"
    using inter_mid [of "map items ts1" ks1 "map items us" "res_keys r1" "map items ts2" ks2] len lenu by simp
  have ord: "ordered (inter (ks1 @ ks2) (map items (ts1 @ u # ts2)))" using fo unfolding forest_def by blast
  note gc = grows_context [OF ord [unfolded its] ordu us(6) lo hi, folded its its']
  have fo1: "forest L c1 h ?ks ?ts" by (rule forest_replace [OF fo len inv us(7,2) gc(1)])
  have p_out: "p \<notin> set_mset (node_pages u) \<union> allocable c"
    using cinv_disjoint(1,5) [OF inv] by (auto simp: nodup_union)
  have f1: "frame ?S c c1" by (rule frame_mono [OF us(7)]) auto
  have inv1: "cinv c1 (add_mset p (fpages ?ts + N)) (vpages ?ts + V)" using us(3) by (simp add: ac_simps)
  have kc: "keys' = ?ks" "children' = map gid ?ts"
    using ab absorb_split_ok [of ks1 "length ks1" ts1 ks2 u ts2 r1] len us(1) by auto
  obtain vs where vs: "map gid vs = res_ids res" "forest L c' (Suc h) (res_keys res) vs"
      "cinv c' (fpages vs + N) (vpages vs + V)" "concat (map entries vs) = concat (map entries ?ts)"
      "inter (res_keys res) (map items vs) = inter ?ks (map items ?ts)" "frame ?S c c'"
      "lib_sizes L \<and> (\<forall>t\<in>set ?ts. fit t) \<and> (\<forall>k\<in>set ?ks. length k \<le> KEY_CAP) \<and>
         node_size (Internal ?ks (map gid ?ts)) \<le> 3144 \<longrightarrow> fit_result res vs"
    using finish_internal_ok [OF fo1 inv1 f1 _ _ _ fin [unfolded kc]] frame_is_scratch [OF us(7) p_out]
    by (auto simp: is_scratch_staged)
  have "concat (map entries ?ts) = concat (map entries ts1) @ ins key g (entries u) @ concat (map entries ts2)"
    using us(5) by simp
  also have "\<dots> = ins key g (concat (map entries ts1) @ entries u @ concat (map entries ts2))"
    by (rule ins_append [symmetric], rule descend_keys(1) [OF len lo hi], assumption+,
        rule descend_keys(2) [OF len lo hi])
  also have "\<dots> = ins key g (entries ?t)" using len by (simp add: entries_GNode)
  finally have "concat (map entries ?ts) = ins key g (entries ?t)" .
  moreover have "fit_result res vs" if f: "lib_sizes L" "length key \<le> KEY_CAP" "fit ?t"
  proof -
    have "fit_result r1 us" using f us(8) by simp
    then show ?thesis using vs(7) fit_absorb [OF f(3) _ lenu] f(1) by blast
  qed
  ultimately show ?thesis
    using vs us(4) gc(2) unfolding grown_def
    by (intro exI [of _ vs] exI [of _ g]) (simp add: its)
qed

lemma insert_rec_ok:
  assumes L: "lib_ok L"
  shows "forest L c h [] [t] \<Longrightarrow> cinv c (node_pages t + N) (epages (entries t) + V) \<Longrightarrow>
    insert_rec L key value c (gid t) = Some (res, c') \<Longrightarrow> grown L h key value t N V c res c'"
proof (induction h arbitrary: t c N V res c' rule: less_induct)
  case (less h)
  from less.prems(1) show ?case
  proof (cases rule: gnode_cases)
    case (leaf p kvs)
    then show ?thesis using insert_leaf_case [OF L, of c p kvs N V] less.prems by simp
  next
    case (node h' p ks ts)
    let ?N = "\<lambda>ts1 ts2. fpages ts1 + fpages ts2 + add_mset p N" and ?V = "\<lambda>ts1 ts2. vpages ts1 + vpages ts2 + V"
    obtain ks1 ks2 ts1 u ts2 where sp: "ks = ks1 @ ks2" "ts = ts1 @ u # ts2"
        "length ts1 = length ks1" "length ts2 = length ks2" "child_index ks key = length ks1"
        and at: "get_at (map gid ts) (length ks1) = Some (gid u)"
        and fu: "forest L c h' [] [u]" and inv: "cinv c (node_pages u + ?N ts1 ts2) (epages (entries u) + ?V ts1 ts2)"
        and lo: "\<And>a g. a \<in> set (inter ks1 (map items ts1)) \<Longrightarrow> before a (Ent key g)"
        and hi: "\<And>b g. b \<in> set (after ks2 (map items ts2)) \<Longrightarrow> before (Ent key g) b"
      by (rule descend_case [OF node(4) less.prems(2) [unfolded node(2)], of key]) blast
    from less.prems(3) node(2,5) sp(5) at obtain r1 c1 keys' children' where
        rec: "insert_rec L key value c (gid u) = Some (r1, c1)"
        and ab: "absorb_split ks (map gid ts) (length ks1) r1 = Some (keys', children')"
        and fin: "finish_internal L c1 (is_scratch c p) p keys' children' = Some (res, c')"
      by (auto simp: insert_rec.simps [of L key "value" c p] bind_Some_iff)
    have "grown L h' key value u (?N ts1 ts2) (?V ts1 ts2) c r1 c1"
      by (rule less.IH [OF _ fu inv rec]) (simp add: node)
    from insert_node_case [OF node(4) [unfolded sp(1,2)] sp(3,4) inv this lo hi ab [unfolded sp(1,2)] fin]
    show ?thesis by (simp add: node(1,2) sp)
  qed
qed

end
