(* ===== verification/BTree_Delete.thy ===== *)
theory BTree_Delete
  imports BTree_Insert
begin

text \<open>
  Deletion: the merge of two siblings, the rebalancing after a child has shrunk, the
  descent of \<open>delete_rec\<close>, and the collapse of the root.
\<close>

section \<open>Merging siblings\<close>

fun kids :: "gtree \<Rightarrow> page_id multiset" where
  "kids (GLeaf p kvs) = {#}"
| "kids (GNode p ks ts) = fpages ts"

fun gmerge :: "page_id \<Rightarrow> bytes \<Rightarrow> gtree \<Rightarrow> gtree \<Rightarrow> gtree" where
  "gmerge j sep (GLeaf p kvs) (GLeaf q lvs) = GLeaf j (kvs @ lvs)"
| "gmerge j sep (GNode p ks ts) (GNode q ls us) = GNode j (ks @ [sep] @ ls) (ts @ us)"
| "gmerge j sep t u = t"

fun same_kind :: "gtree \<Rightarrow> gtree \<Rightarrow> bool" where
  "same_kind (GLeaf _ _) (GLeaf _ _) = True"
| "same_kind (GNode _ _ _) (GNode _ _ _) = True"
| "same_kind _ _ = False"

lemma node_pages_kids: "node_pages t = add_mset (gid t) (kids t)"
  by (cases t) auto

lemma rep_read: "rep rd t \<Longrightarrow> rd (gid t) = Some (node_of t)"
  by (cases t) auto

lemma try_merge_node_of:
  assumes "try_merge L (node_of a) (node_of b) (Some sep) = Some (Some merged)"
  shows "same_kind a b \<and> merged = node_of (gmerge j sep a b)"
  using assms by (cases a; cases b) (auto simp: Let_def split: if_splits)

lemma fit_gmerge:
  assumes "try_merge L (node_of a) (node_of b) (Some sep) = Some (Some merged)" "lib_sizes L"
    "fit a" "fit b" "length sep \<le> KEY_CAP"
  shows "fit (gmerge j sep a b)"
proof -
  have size: "node_size merged \<le> 3068" if "encoded_len (sd_node L) merged \<le> SPLIT_THRESHOLD"
    using that assms(2) by (simp add: encoded_len_def lib_sizes_def SPLIT_THRESHOLD_def)
  show ?thesis
  proof (cases a)
    case (GLeaf p kvs)
    then obtain q lvs where b: "b = GLeaf q lvs" using assms(1) by (cases b) auto
    have "merged = Leaf (map fst (kvs @ lvs)) (map (gstored \<circ> snd) (kvs @ lvs))"
        "encoded_len (sd_node L) merged \<le> SPLIT_THRESHOLD"
      using assms(1) by (auto simp: GLeaf b Let_def split: if_splits)
    then have "leaf_size (kvs @ lvs) \<le> 3048" using size node_size_leaf [of "kvs @ lvs"] by simp
    then show ?thesis using assms(3,4) leaf_fit_small [of "kvs @ lvs"] by (auto simp: GLeaf b leaf_fit_def)
  next
    case (GNode p ks ts)
    then obtain q ls us where b: "b = GNode q ls us" using assms(1) by (cases b) auto
    have "merged = Internal (ks @ [sep] @ ls) (map gid (ts @ us))" "encoded_len (sd_node L) merged \<le> SPLIT_THRESHOLD"
      using assms(1) by (auto simp: GNode b Let_def split: if_splits)
    then have "node_size (Internal (ks @ [sep] @ ls) (map gid (ts @ us))) \<le> 3068" using size by simp
    then show ?thesis using assms(3-5) by (auto simp: GNode b simp del: node_size.simps)
  qed
qed

lemma gid_gmerge: "same_kind a b \<Longrightarrow> gid (gmerge j sep a b) = j"
  by (cases a; cases b) auto

lemma kids_gmerge: "same_kind a b \<Longrightarrow> kids (gmerge j sep a b) = kids a + kids b"
  by (cases a; cases b) auto

lemma shape_GNode: "shape h (GNode p ks ts) \<longleftrightarrow>
    (\<exists>h'. h = Suc h' \<and> length ts = Suc (length ks) \<and> (\<forall>t\<in>set ts. shape h' t))"
  by (cases h) auto

lemma shape_GLeaf: "shape h (GLeaf p kvs) \<longleftrightarrow> h = 0"
  by (cases h) auto

lemma shape_gmerge: "same_kind a b \<Longrightarrow> shape h a \<Longrightarrow> shape h b \<Longrightarrow> shape h (gmerge j sep a b)"
  by (cases a; cases b) (auto simp: shape_GNode shape_GLeaf)

lemma inter_glue:
  assumes "length xs = Suc (length ks)" "length ys = Suc (length ls)"
  shows "inter (ks @ k # ls) (xs @ ys) = inter ks xs @ Sep k # inter ls ys"
proof -
  obtain zs z where xs: "xs = zs @ [z]" using assms(1) by (metis length_Suc_conv_rev)
  have "inter (ks @ k # ls) (zs @ z # ys) = inter ks zs @ z @ Sep k # inter ls ys"
    using assms xs by (simp add: inter_append)
  moreover have "inter ks xs = inter ks zs @ z"
    using inter_append [of zs ks "[]" "[z]"] assms(1) xs by simp
  ultimately show ?thesis using xs by simp
qed

lemma items_gmerge:
  assumes "same_kind a b" "shape h a" "shape h b"
  shows "items (gmerge j sep a b) = items a @ items b \<or>
     items (gmerge j sep a b) = items a @ Sep sep # items b"
  using assms by (cases a; cases b) (auto simp: shape_GNode inter_glue)

lemma entries_gmerge:
  assumes "same_kind a b" "shape h a" "shape h b"
  shows "entries (gmerge j sep a b) = entries a @ entries b"
  using items_gmerge [OF assms, of j sep] by (auto simp: entries_def)

lemma rep_gmerge:
  assumes "same_kind a b" "rep rd a" "rep rd b" "rd' j = Some (node_of (gmerge j sep a b))"
    and "\<And>i. i \<in># kids a + kids b \<Longrightarrow> rd' i = rd i"
  shows "rep rd' (gmerge j sep a b)"
proof (cases a)
  case (GLeaf p kvs)
  then show ?thesis using assms by (cases b) auto
next
  case (GNode p ks ts)
  then obtain q ls us where b: "b = GNode q ls us" using assms(1) by (cases b) auto
  have "rep rd' t" if t: "t \<in> set (ts @ us)" for t
  proof (rule rep_cong)
    show "rep rd t" using t assms(2,3) GNode b by auto
    fix i n assume "i \<in># node_pages t" "rd i = Some n"
    moreover have "set_mset (node_pages t) \<subseteq> set_mset (fpages (ts @ us))"
      by (rule node_pages_subset_fpages [OF t])
    ultimately show "rd' i = Some n" using assms(5) [of i] GNode b by auto
  qed
  then show ?thesis using assms(4) GNode b by auto
qed

text \<open>The pages of a forest that an operation may retire, in terms of its starting context.\<close>

lemma retire_alloc_put_ok:
  assumes inv: "cinv c (add_mset x (add_mset y K)) V"
    and fr: "frame S c0 c" and xy: "x \<in> S \<union> allocable c0" "y \<in> S \<union> allocable c0"
    and a: "alloc (retire (retire c x) y) = Some (j, c2)"
    and c': "c' = put_node c2 j n"
  shows "cinv c' (add_mset j K) V" "frame S c0 c'" "j \<in> owned S c0"
    "\<And>k. k \<in># K \<Longrightarrow> ctx_read L c' k = ctx_read L c k"
    "c_pager c' = c_pager c"
proof -
  let ?c1 = "retire (retire c x) y"
  have inv1: "cinv ?c1 K V" by (intro cinv_retire inv)
  have f1: "frame S c0 ?c1" by (intro frame_retire fr xy)
  have inv2: "cinv c2 (add_mset j K) V" by (rule alloc_cinv(1) [OF inv1 a])
  have f2: "frame S c0 c2" by (rule frame_trans_empty [OF f1 frame_alloc [OF a]])
  show j: "j \<in> owned S c0" by (rule alloc_owned [OF f1 a])
  show "cinv c' (add_mset j K) V" unfolding c' by (rule cinv_put [OF inv2]) simp
  show "frame S c0 c'" unfolding c' by (rule frame_put [OF f2 j])
  show "c_pager c' = c_pager c" using alloc_fields(1) [OF a] by (simp add: c')
  show "ctx_read L c' k = ctx_read L c k" if k: "k \<in># K" for k
  proof -
    have "k \<noteq> j" using cinv_add_not_in [OF inv2] k by auto
    moreover have "k \<noteq> x" "k \<noteq> y" using cinv_disjoint(5) [OF inv] k by auto
    ultimately show ?thesis
      using alloc_fields(6) [OF a, of L] by (simp add: ctx_read_retire c')
  qed
qed

definition refined :: "lib \<Rightarrow> nat \<Rightarrow> bytes list \<Rightarrow> gtree list \<Rightarrow> page_id multiset \<Rightarrow> page_id multiset \<Rightarrow>
    page_id set \<Rightarrow> ctx \<Rightarrow> bytes list \<Rightarrow> page_id list \<Rightarrow> ctx \<Rightarrow> bool" where
  "refined L h ks ts N V S c0 ks' ids' c' \<longleftrightarrow>
     (\<exists>ts'. ids' = map gid ts' \<and> forest L c' h ks' ts' \<and>
        cinv c' (fpages ts' + N) (vpages ts' + V) \<and>
        concat (map entries ts') = concat (map entries ts) \<and>
        set (inter ks' (map items ts')) \<subseteq> set (inter ks (map items ts)) \<and>
        (lib_sizes L \<and> fit (GNode 0 ks ts) \<longrightarrow> fit (GNode 0 ks' ts')) \<and>
        frame S c0 c' \<and> set_mset (fpages ts') \<subseteq> S \<union> allocable c0)"

text \<open>The trees and separators of a forest in which two neighbours are merged.\<close>

lemma merge_items:
  fixes j sep
  assumes len: "length ts1 = length ks1" "length ts2 = length ks2"
    and ab: "same_kind a b" "shape h a" "shape h b"
  defines "g \<equiv> gmerge j sep a b"
  shows "concat (map entries (ts1 @ g # ts2)) = concat (map entries (ts1 @ a # b # ts2))"
    "set (inter (ks1 @ ks2) (map items (ts1 @ g # ts2))) \<subseteq> set (inter (ks1 @ sep # ks2) (map items (ts1 @ a # b # ts2)))"
    "ordered (inter (ks1 @ sep # ks2) (map items (ts1 @ a # b # ts2))) \<Longrightarrow>
       ordered (inter (ks1 @ ks2) (map items (ts1 @ g # ts2)))"
proof -
  have its: "inter (ks1 @ sep # ks2) (map items (ts1 @ a # b # ts2)) =
      inter ks1 (map items ts1) @ (items a @ Sep sep # items b) @ after ks2 (map items ts2)"
    using inter_mid [of "map items ts1" ks1 "[items a, items b]" "[sep]" "map items ts2" ks2] len by simp
  have its': "inter (ks1 @ ks2) (map items (ts1 @ g # ts2)) =
      inter ks1 (map items ts1) @ items g @ after ks2 (map items ts2)"
    using inter_one_mid [of "map items ts1" ks1 "map items ts2" ks2 "items g"] len by simp
  have ig: "items g = items a @ items b \<or> items g = items a @ Sep sep # items b"
    unfolding g_def by (rule items_gmerge [OF ab])
  show "concat (map entries (ts1 @ g # ts2)) = concat (map entries (ts1 @ a # b # ts2))"
    using entries_gmerge [OF ab] by (simp add: g_def)
  show "set (inter (ks1 @ ks2) (map items (ts1 @ g # ts2))) \<subseteq> set (inter (ks1 @ sep # ks2) (map items (ts1 @ a # b # ts2)))"
    "ordered (inter (ks1 @ sep # ks2) (map items (ts1 @ a # b # ts2))) \<Longrightarrow>
       ordered (inter (ks1 @ ks2) (map items (ts1 @ g # ts2)))"
    using ig unfolding its its' by (auto simp: ordered_append ordered_Cons)
qed

lemma fit_merge:
  assumes "fit (GNode 0 (ks1 @ sep # ks2) (ts1 @ a # b # ts2))" "lib_sizes L"
    "try_merge L (node_of a) (node_of b) (Some sep) = Some (Some merged)"
  shows "fit (GNode 0 (ks1 @ ks2) (ts1 @ gmerge j sep a b # ts2))"
  using assms fit_gmerge [OF assms(3,2), of j] unfolding fit.simps node_size_internal by auto

lemma merge_refined:
  assumes fo: "forest L c h (ks1 @ sep # ks2) (ts1 @ a # b # ts2)"
    and inv: "cinv c (fpages (ts1 @ a # b # ts2) + N) (vpages (ts1 @ a # b # ts2) + V)"
    and fr: "frame S c0 c" and own: "set_mset (fpages (ts1 @ a # b # ts2)) \<subseteq> S \<union> allocable c0"
    and len: "length ts1 = length ks1" "length ts2 = length ks2"
    and tm: "try_merge L (node_of a) (node_of b) (Some sep) = Some (Some merged)"
    and al: "alloc (retire (retire c (gid a)) (gid b)) = Some (j, c2)"
  shows "refined L h (ks1 @ sep # ks2) (ts1 @ a # b # ts2) N V S c0 (ks1 @ ks2) (map gid ts1 @ j # map gid ts2)
    (put_node c2 j merged)"
proof -
  let ?g = "gmerge j sep a b" and ?c = "put_node c2 j merged" and ?K = "kids a + kids b + fpages ts1 + fpages ts2 + N"
  let ?ts = "ts1 @ a # b # ts2" and ?ts' = "ts1 @ ?g # ts2"
  note sk = try_merge_node_of [OF tm, of j]
  have ab: "rep (ctx_read L c) a" "rep (ctx_read L c) b" "shape h a" "shape h b" using fo by (auto simp: forest_def)
  have fp: "fpages ?ts = add_mset (gid a) (add_mset (gid b) (kids a + kids b + fpages ts1 + fpages ts2))"
    by (simp add: node_pages_kids ac_simps)
  have inv': "cinv c (add_mset (gid a) (add_mset (gid b) ?K)) (vpages ?ts + V)"
    using inv unfolding fp by (simp add: ac_simps)
  have "gid a \<in> S \<union> allocable c0" "gid b \<in> S \<union> allocable c0" using own unfolding fp by auto
  note ok = retire_alloc_put_ok [OF inv' fr this al refl [of ?c]]
  note it = merge_items [OF len conjunct1 [OF sk] ab(3,4), where j = j and sep = sep]
  have np: "node_pages ?g = add_mset j (kids a + kids b)"
    using sk by (simp add: node_pages_kids kids_gmerge gid_gmerge)
  have "rep (ctx_read L ?c) ?g"
  proof (rule rep_gmerge [OF _ ab(1,2)])
    show "ctx_read L ?c j = Some (node_of ?g)" using sk by simp
    show "ctx_read L ?c i = ctx_read L c i" if "i \<in># kids a + kids b" for i by (rule ok(4)) (use that in auto)
  qed (use sk in simp)
  moreover have "rep (ctx_read L ?c) t" if t: "t \<in> set (ts1 @ ts2)" for t
  proof (rule rep_cong)
    show "rep (ctx_read L c) t" using fo t by (auto simp: forest_def)
    fix k n assume "k \<in># node_pages t" "ctx_read L c k = Some n"
    moreover have "set_mset (node_pages t) \<subseteq> set_mset (fpages (ts1 @ ts2))" by (rule node_pages_subset_fpages [OF t])
    ultimately show "ctx_read L ?c k = Some n" using ok(4) [of k] by auto
  qed
  ultimately have "forest L ?c h (ks1 @ ks2) ?ts'"
    using fo it(1,3) ok(5) len shape_gmerge [of a b h j sep] sk ab(3,4) unfolding forest_def by auto
  moreover have "cinv ?c (fpages ?ts' + N) (vpages ?ts' + V)"
    using ok(1) unfolding vpages_def it(1) by (simp add: np ac_simps)
  moreover have "set_mset (fpages ?ts') \<subseteq> S \<union> allocable c0"
    using own ok(3) unfolding fp by (auto simp: np owned_def)
  moreover have "map gid ts1 @ j # map gid ts2 = map gid ?ts'" using sk by (simp add: gid_gmerge)
  ultimately show ?thesis
    unfolding refined_def using it(1,2) ok(2) fit_merge [OF _ _ tm] by blast
qed

lemma merge_at_ok:
  assumes fo: "forest L c h ks ts" and inv: "cinv c (fpages ts + N) (vpages ts + V)"
    and fr: "frame S c0 c" and own: "set_mset (fpages ts) \<subseteq> S \<union> allocable c0"
    and r: "merge_at L c i ks (map gid ts) = Some ((m, ks', ids'), c')"
  shows "refined L h ks ts N V S c0 ks' ids' c'" "\<not> m \<Longrightarrow> ks' = ks \<and> ids' = map gid ts \<and> c' = c"
proof -
  have lent: "length ts = Suc (length ks)" using fo by (simp add: forest_def)
  have i: "i < length ks" "Suc i < length ts"
    using r by (auto simp: merge_at_def bind_Some_iff get_at_def split: if_splits)
  obtain ks1 sep ks2 where ks: "ks = ks1 @ sep # ks2" "length ks1 = i"
    using i(1) by (metis id_take_nth_drop length_take min.absorb4)
  obtain ts1 a b ts2 where ts: "ts = ts1 @ a # b # ts2" "length ts1 = i"
    using i(2) by (metis Cons_nth_drop_Suc Suc_lessD append_take_drop_id length_take min.absorb4)
  have len: "length ts1 = length ks1" "length ts2 = length ks2" using ks ts lent by simp_all
  have "rep (ctx_read L c) a" "rep (ctx_read L c) b" using fo by (auto simp: forest_def ts(1))
  then have rd: "ctx_read L c (gid a) = Some (node_of a)" "ctx_read L c (gid b) = Some (node_of b)"
    by (simp_all add: rep_read)
  have at: "get_at (map gid ts) i = Some (gid a)" "get_at (map gid ts) (Suc i) = Some (gid b)" "get_at ks i = Some sep"
    using ks ts by (simp_all add: get_at_def nth_append)
  obtain res where tm: "try_merge L (node_of a) (node_of b) (Some sep) = Some res"
    using r rd at by (auto simp: merge_at_def bind_Some_iff)
  have "refined L h ks ts N V S c0 ks' ids' c' \<and> (\<not> m \<longrightarrow> ks' = ks \<and> ids' = map gid ts \<and> c' = c)"
  proof (cases res)
    case None
    then have "ks' = ks \<and> ids' = map gid ts \<and> c' = c" using r rd at tm by (simp add: merge_at_def)
    then show ?thesis using fo inv fr own unfolding refined_def by blast
  next
    case (Some merged)
    then obtain j c2 where al: "alloc (retire (retire c (gid a)) (gid b)) = Some (j, c2)"
        and res: "m" "c' = put_node c2 j merged" "ks' = ks1 @ ks2" "ids' = map gid ts1 @ j # map gid ts2"
      using r rd at tm ks ts
      by (auto simp: merge_at_def bind_Some_iff set_at_def remove_at_def list_update_append)
    show ?thesis
      using merge_refined [OF fo [unfolded ks(1) ts(1)] inv [unfolded ts(1)] fr own [unfolded ts(1)] len tm [unfolded Some] al]
      unfolding res(2-4) ks(1) ts(1) using res(1) by blast
  qed
  then show "refined L h ks ts N V S c0 ks' ids' c'" "\<not> m \<Longrightarrow> ks' = ks \<and> ids' = map gid ts \<and> c' = c" by auto
qed

lemma rebalance_ok:
  assumes fo: "forest L c h ks ts" and inv: "cinv c (fpages ts + N) (vpages ts + V)"
    and fr: "frame S c0 c" and own: "set_mset (fpages ts) \<subseteq> S \<union> allocable c0"
    and r: "rebalance L c idx ks (map gid ts) = Some ((ks', ids'), c')"
  shows "refined L h ks ts N V S c0 ks' ids' c'"
proof -
  have id: "refined L h ks ts N V S c0 ks (map gid ts) c"
    unfolding refined_def using fo inv fr own by blast
  from r have "\<exists>n. ctx_read L c (map gid ts ! idx) = Some n" "idx < length ts"
    unfolding rebalance_def by (auto simp: bind_Some_iff get_at_def split: if_splits)
  then obtain n where n: "ctx_read L c (map gid ts ! idx) = Some n" "idx < length ts" by blast
  show ?thesis
  proof (cases "is_underfull L n")
    case False
    then show ?thesis using n r id by (simp add: rebalance_def get_at_def)
  next
    case True
    let ?try_right = "if Suc idx < length ts then merge_at L c idx ks (map gid ts)
      else Some ((False, ks, map gid ts), c)"
    obtain m ks1 ids1 c1 where right: "?try_right = Some ((m, ks1, ids1), c1)"
        and rest: "(if \<not> m \<and> 0 < idx
          then do { ((_, keys2, children2), c2) \<leftarrow> merge_at L c1 (idx - 1) ks1 ids1;
                    Some ((keys2, children2), c2) }
          else Some ((ks1, ids1), c1)) = Some ((ks', ids'), c')"
      using n True r unfolding rebalance_def by (auto simp: bind_Some_iff get_at_def)
    have first: "refined L h ks ts N V S c0 ks1 ids1 c1 \<and> (\<not> m \<longrightarrow> ks1 = ks \<and> ids1 = map gid ts \<and> c1 = c)"
      using merge_at_ok [OF fo inv fr own] right id by (auto split: if_splits)
    show ?thesis
    proof (cases "\<not> m \<and> 0 < idx")
      case True
      then obtain m2 where "merge_at L c (idx - 1) ks (map gid ts) = Some ((m2, ks', ids'), c')"
        using rest first by (auto simp: bind_Some_iff)
      then show ?thesis by (rule merge_at_ok(1) [OF fo inv fr own])
    next
      case False
      then show ?thesis using rest first by auto
    qed
  qed
qed

section \<open>The descent\<close>

definition shrunk :: "lib \<Rightarrow> nat \<Rightarrow> bytes \<Rightarrow> gtree \<Rightarrow> page_id multiset \<Rightarrow> page_id multiset \<Rightarrow>
    ctx \<Rightarrow> page_id \<Rightarrow> bool \<Rightarrow> ctx \<Rightarrow> bool" where
  "shrunk L h key t N V c p removed c' \<longleftrightarrow>
     removed = (key \<in> fst ` set (entries t)) \<and>
     (if removed
      then \<exists>t'. gid t' = p \<and> forest L c' h [] [t'] \<and>
        cinv c' (node_pages t' + N) (epages (entries t') + V) \<and>
        entries t' = del key (entries t) \<and> set (items t') \<subseteq> set (items t) \<and>
        (lib_sizes L \<and> fit t \<longrightarrow> fit t') \<and>
        frame (set_mset (node_pages t)) c c' \<and>
        set_mset (node_pages t') \<subseteq> set_mset (node_pages t) \<union> allocable c
      else p = gid t \<and> c' = c)"

lemma shrunk_removed:
  assumes "shrunk L h key t N V c p removed c'" removed
  obtains t' where "gid t' = p" "forest L c' h [] [t']" "cinv c' (node_pages t' + N) (epages (entries t') + V)"
    "entries t' = del key (entries t)" "set (items t') \<subseteq> set (items t)" "frame (set_mset (node_pages t)) c c'"
    "set_mset (node_pages t') \<subseteq> set_mset (node_pages t) \<union> allocable c" "lib_sizes L \<and> fit t \<longrightarrow> fit t'"
    "key \<in> fst ` set (entries t)"
  using assms unfolding shrunk_def by metis

lemma shrunk_removedI:
  assumes "key \<in> fst ` set (entries t)" "forest L c' h [] [t']" "cinv c' (node_pages t' + N) (epages (entries t') + V)"
    "entries t' = del key (entries t)" "set (items t') \<subseteq> set (items t)" "lib_sizes L \<and> fit t \<longrightarrow> fit t'"
    "frame (set_mset (node_pages t)) c c'" "set_mset (node_pages t') \<subseteq> set_mset (node_pages t) \<union> allocable c"
  shows "shrunk L h key t N V c (gid t') True c'"
  using assms unfolding shrunk_def by auto

lemma owned_subset: "owned S c \<subseteq> S \<union> allocable c"
  by (auto simp: owned_def)

lemma replace_node_owned:
  assumes "cinv c (add_mset i N) V" "frame S c0 c" "i \<in> S" "scratch \<longleftrightarrow> i \<in> staged c"
    "scratch \<longleftrightarrow> i \<in> staged c0" "replace_node c scratch i n = Some (j, c')"
  shows "j \<in> S \<union> allocable c0"
proof -
  from assms(6) obtain c1 where "cow_page c scratch i = Some (j, c1)"
    by (auto simp: replace_node_def bind_Some_iff)
  from cow_page_ok(3) [OF assms(1-5) this] show ?thesis using owned_subset by blast
qed

lemma key_missing:
  assumes "sorted (map fst kvs)" "binary_search_by (\<lambda>k. cmp k key) (map fst kvs) = Missing i"
  shows "key \<notin> fst ` set kvs"
proof
  assume "key \<in> fst ` set kvs"
  then have "key \<in> set (take i (map fst kvs) @ drop i (map fst kvs))" by simp
  then show False using binary_search_key_Missing [OF assms] by (auto simp del: append_take_drop_id)
qed

lemma delete_leaf_case:
  assumes fo: "forest L c 0 [] [GLeaf p kvs]" and inv: "cinv c (add_mset p N) (epages kvs + V)"
    and r: "delete_rec L key c p = Some ((q, removed), c')"
  shows "shrunk L 0 key (GLeaf p kvs) N V c q removed c'"
proof -
  have rd: "ctx_read L c p = Some (Leaf (map fst kvs) (map (gstored \<circ> snd) kvs))"
    and v: "vals_ok L (c_pager c) kvs" and o: "ordered (map (\<lambda>(k, g). Ent k g) kvs)"
    using fo by (auto simp: forest_GLeaf)
  have s: "sorted_wrt (<) (map fst kvs)" using ordered_entries [OF o] by simp
  have sd: "sorted (map fst kvs)" using sorted_wrt_less_sorted [OF s] by simp
  show ?thesis
  proof (cases "binary_search_by (\<lambda>k. cmp k key) (map fst kvs)")
    case (Missing i)
    then show ?thesis
      using r rd key_missing [OF sd Missing]
      by (auto simp: shrunk_def delete_rec.simps [of L key c p])
  next
    case (Found i)
    then have i: "i < length kvs" "fst (kvs ! i) = key" using binary_search_key_Found [OF sd Found] by auto
    note eq = ins_nth [OF s i]
    obtain old where old: "kvs = take i kvs @ (key, old) # drop (Suc i) kvs" "old = snd (kvs ! i)"
      using eq(1) by simp
    have pages: "epages kvs = gpages old + epages (del key kvs)"
      unfolding eq(3) by (subst old(1)) (simp add: ac_simps)
    have vr: "vals_ok L (c_pager c) (del key kvs)" "gval_ok L (c_pager c) old"
      using v unfolding eq(3) by (subst (asm) old(1), simp)+
    obtain l where l: "retire_value L c (gstored old) = Some (c\<lparr>c_obsolete := c_obsolete c @ l\<rparr>)"
        "mset l = gpages old"
      using retire_value_ok [OF vr(2)] by blast
    let ?c1 = "c\<lparr>c_obsolete := c_obsolete c @ l\<rparr>"
    have inv1: "cinv ?c1 (add_mset p N) (epages (del key kvs) + V)"
      by (rule cinv_obsolete) (use inv pages l(2) in \<open>simp add: ac_simps\<close>)
    have rep: "replace_node ?c1 (is_scratch c p) p (node_of (GLeaf q (del key kvs))) = Some (q, c')"
      and removed
      using r rd Found i l(1) old(2)
      by (auto simp: delete_rec.simps [of L key c p] bind_Some_iff remove_at_def eq(3) take_map drop_map)
    have f: "frame {p} c ?c1" by (rule frame_obsolete)
    have sc: "is_scratch c p \<longleftrightarrow> p \<in> staged ?c1" "is_scratch c p \<longleftrightarrow> p \<in> staged c"
      by (simp_all add: is_scratch_staged)
    note ok = replace_node_ok [OF inv1 f _ sc rep]
    have own: "q \<in> {p} \<union> allocable c" by (rule replace_node_owned [OF inv1 f _ sc rep]) simp
    have key: "key \<in> fst ` set kvs" using i by force
    show ?thesis
      unfolding shrunk_def
      using ok own key \<open>removed\<close> vr(1) ordered_Ents [OF sorted_del [OF s]] leaf_fit_del [of kvs key]
      by (auto simp: forest_GLeaf del_def intro!: exI [of _ "GLeaf q (del key kvs)"])
  qed
qed

lemma del_outside: "key \<notin> fst ` set es \<Longrightarrow> del key es = es"
  by (auto simp: del_def filter_id_conv)

text \<open>An inner node is written back over children that changed below it.\<close>

lemma replace_GNode:
  assumes fo: "forest L c2 h ks vs" and inv: "cinv c2 (fpages vs + add_mset p N) (vpages vs + V)"
    and fr: "frame S c c2" and p: "p \<notin> S \<union> allocable c"
    and rep: "replace_node c2 (is_scratch c p) p (Internal ks (map gid vs)) = Some (q, c')"
  shows "forest L c' (Suc h) [] [GNode q ks vs]"
    "cinv c' (node_pages (GNode q ks vs) + N) (epages (entries (GNode q ks vs)) + V)"
    "frame (insert p S) c c'" "q \<in> insert p S \<union> allocable c"
proof -
  have f: "frame (insert p S) c c2" by (rule frame_mono [OF fr]) auto
  have sc: "is_scratch c p \<longleftrightarrow> p \<in> staged c2" "is_scratch c p \<longleftrightarrow> p \<in> staged c"
    using frame_is_scratch [OF fr p] by (simp_all add: is_scratch_staged)
  have inv2: "cinv c2 (add_mset p (fpages vs + N)) (vpages vs + V)" using inv by simp
  note ok = replace_node_ok [OF inv2 f _ sc rep]
  show "q \<in> insert p S \<union> allocable c" by (rule replace_node_owned [OF inv2 f _ sc rep]) simp
  have fo2: "forest L c' h ks vs" by (rule forest_other_reads [OF fo _ ok(5)]) (simp_all add: ok(4))
  have len: "length vs = Suc (length ks)" using fo by (simp add: forest_def)
  show "forest L c' (Suc h) [] [GNode q ks vs]" using fo2 ok(3) by (simp add: forest_GNode)
  show "cinv c' (node_pages (GNode q ks vs) + N) (epages (entries (GNode q ks vs)) + V)"
    using ok(1) len by (simp add: epages_GNode)
  show "frame (insert p S) c c'" using ok(2) by simp
qed

text \<open>The key was in a child: the child is replaced, rebalanced with its siblings, and the node with it.\<close>

lemma delete_node_case:
  assumes fo: "forest L c h (ks1 @ ks2) (ts1 @ u # ts2)" and len: "length ts1 = length ks1" "length ts2 = length ks2"
    and inv: "cinv c (node_pages u + (fpages ts1 + fpages ts2 + add_mset p N)) (epages (entries u) + (vpages ts1 + vpages ts2 + V))"
    and sh: "shrunk L h key u (fpages ts1 + fpages ts2 + add_mset p N) (vpages ts1 + vpages ts2 + V) c nc True c1"
    and lt: "\<And>e. e \<in> set (concat (map entries ts1)) \<Longrightarrow> fst e < key"
    and gt: "\<And>e. e \<in> set (concat (map entries ts2)) \<Longrightarrow> key < fst e"
    and reb: "rebalance L c1 (length ks1) (ks1 @ ks2) (map gid ts1 @ nc # map gid ts2) = Some ((keys', children'), c2)"
    and rep: "replace_node c2 (is_scratch c p) p (Internal keys' children') = Some (q, c')"
  shows "shrunk L (Suc h) key (GNode p (ks1 @ ks2) (ts1 @ u # ts2)) N V c q True c'"
proof -
  let ?ks = "ks1 @ ks2" and ?ts = "ts1 @ u # ts2" and ?t = "GNode p (ks1 @ ks2) (ts1 @ u # ts2)"
  let ?E1 = "concat (map entries ts1)" and ?E2 = "concat (map entries ts2)"
  obtain u' where u': "gid u' = nc" "forest L c1 h [] [u']"
      "cinv c1 (node_pages u' + (fpages ts1 + fpages ts2 + add_mset p N)) (epages (entries u') + (vpages ts1 + vpages ts2 + V))"
      "entries u' = del key (entries u)" "set (items u') \<subseteq> set (items u)" "frame (set_mset (node_pages u)) c c1"
      "set_mset (node_pages u') \<subseteq> set_mset (node_pages u) \<union> allocable c" "lib_sizes L \<and> fit u \<longrightarrow> fit u'"
      and key: "key \<in> fst ` set (entries u)"
    by (rule shrunk_removed [OF sh]) auto
  let ?us = "ts1 @ u' # ts2" and ?S = "set_mset (fpages ?ts)"
  have its: "inter ?ks (map items ts1 @ items w # map items ts2) = inter ks1 (map items ts1) @ items w @ after ks2 (map items ts2)" for w
    using inter_one_mid [of "map items ts1" ks1 "map items ts2" ks2 "items w"] len by simp
  have "ordered (inter ?ks (map items ?us))"
    using fo u'(2,5) by (auto simp: forest_def its ordered_append)
  then have fo1: "forest L c1 h ?ks ?us" using forest_replace [OF fo len inv u'(6,2)] by simp
  have p_out: "p \<notin> ?S \<union> allocable c" using cinv_disjoint(1,5) [OF inv] by (auto simp: nodup_union)
  have f1: "frame ?S c c1" by (rule frame_mono [OF u'(6)]) auto
  have inv1: "cinv c1 (fpages ?us + add_mset p N) (vpages ?us + V)" using u'(3) by (simp add: ac_simps)
  have own1: "set_mset (fpages ?us) \<subseteq> ?S \<union> allocable c" using u'(7) by auto
  have reb': "rebalance L c1 (length ks1) ?ks (map gid ?us) = Some ((keys', children'), c2)" using reb u'(1) by simp
  obtain vs where vs: "children' = map gid vs" "forest L c2 h keys' vs" "cinv c2 (fpages vs + add_mset p N) (vpages vs + V)"
      "concat (map entries vs) = concat (map entries ?us)"
      "set (inter keys' (map items vs)) \<subseteq> set (inter ?ks (map items ?us))"
      "frame ?S c c2" "set_mset (fpages vs) \<subseteq> ?S \<union> allocable c"
      "lib_sizes L \<and> fit (GNode 0 ?ks ?us) \<longrightarrow> fit (GNode 0 keys' vs)"
    using rebalance_ok [OF fo1 inv1 f1 own1 reb'] unfolding refined_def by blast
  note new = replace_GNode [OF vs(2,3,6) p_out rep [unfolded vs(1)]]
  let ?t' = "GNode q keys' vs"
  have lens: "length vs = Suc (length keys')" "length ?ts = Suc (length ?ks)" using vs(2) fo by (simp_all add: forest_def)
  have et: "entries ?t = ?E1 @ entries u @ ?E2" using lens by (simp add: entries_GNode)
  have "entries ?t' = ?E1 @ del key (entries u) @ ?E2" using vs(4) u'(4) lens by (simp add: entries_GNode)
  also have "\<dots> = del key (entries ?t)" unfolding et by (rule del_append [symmetric]) (use lt gt in auto)
  finally have del: "entries ?t' = del key (entries ?t)" .
  have "shrunk L (Suc h) key ?t N V c (gid ?t') True c'"
  proof (rule shrunk_removedI)
    show "key \<in> fst ` set (entries ?t)" using key unfolding et by (auto simp: image_Un)
    show "set (items ?t') \<subseteq> set (items ?t)" using vs(5) u'(5) by (simp add: its) blast
    show "lib_sizes L \<and> fit ?t \<longrightarrow> fit ?t'"
    proof
      assume f: "lib_sizes L \<and> fit ?t"
      then have "fit (GNode 0 ?ks ?us)" using u'(8) by (simp del: node_size.simps) (simp add: u'(1))
      then show "fit ?t'" using vs(8) f by simp
    qed
    show "frame (set_mset (node_pages ?t)) c c'" using new(3) by simp
    show "set_mset (node_pages ?t') \<subseteq> set_mset (node_pages ?t) \<union> allocable c" using vs(7) new(4) by auto
  qed (rule new(1) new(2) del)+
  then show ?thesis by simp
qed

lemma delete_rec_ok:
  shows "forest L c h [] [t] \<Longrightarrow> cinv c (node_pages t + N) (epages (entries t) + V) \<Longrightarrow>
    delete_rec L key c (gid t) = Some ((q, removed), c') \<Longrightarrow> shrunk L h key t N V c q removed c'"
proof (induction h arbitrary: t c N V q removed c' rule: less_induct)
  case (less h)
  from less.prems(1) show ?case
  proof (cases rule: gnode_cases)
    case (leaf p kvs)
    then show ?thesis using delete_leaf_case [of L c p kvs N V] less.prems by simp
  next
    case (node h' p ks ts)
    let ?N = "\<lambda>ts1 ts2. fpages ts1 + fpages ts2 + add_mset p N" and ?V = "\<lambda>ts1 ts2. vpages ts1 + vpages ts2 + V"
    obtain ks1 ks2 ts1 u ts2 where sp: "ks = ks1 @ ks2" "ts = ts1 @ u # ts2"
        "length ts1 = length ks1" "length ts2 = length ks2" "child_index ks key = length ks1"
        and at: "get_at (map gid ts) (length ks1) = Some (gid u)"
          "\<And>nc. set_at (map gid ts) (length ks1) nc = Some (map gid ts1 @ nc # map gid ts2)"
        and fu: "forest L c h' [] [u]" and inv: "cinv c (node_pages u + ?N ts1 ts2) (epages (entries u) + ?V ts1 ts2)"
        and lo: "\<And>a g. a \<in> set (inter ks1 (map items ts1)) \<Longrightarrow> before a (Ent key g)"
        and hi: "\<And>b g. b \<in> set (after ks2 (map items ts2)) \<Longrightarrow> before (Ent key g) b"
      by (rule descend_case [OF node(4) less.prems(2) [unfolded node(2)], of key]) blast
    have r: "(do { ((new_child, rem), c1) \<leftarrow> delete_rec L key c (gid u);
                   if \<not> rem then Some ((p, False), c1)
                   else do {
                     children1 \<leftarrow> set_at (map gid ts) (length ks1) new_child;
                     ((keys', children'), c2) \<leftarrow> rebalance L c1 (length ks1) ks children1;
                     (new_id, c3) \<leftarrow> replace_node c2 (is_scratch c p) p (Internal keys' children');
                     Some ((new_id, True), c3) } }) = Some ((q, removed), c')"
      using less.prems(3) node(2,5) sp(5) at by (simp add: delete_rec.simps [of L key c p] Let_def)
    then obtain nc rem c1 where rec: "delete_rec L key c (gid u) = Some ((nc, rem), c1)"
      by (auto simp: bind_Some_iff)
    have sh: "shrunk L h' key u (?N ts1 ts2) (?V ts1 ts2) c nc rem c1"
      by (rule less.IH [OF _ fu inv rec]) (simp add: node)
    note lt = descend_keys(1) [OF sp(3,4) lo hi] and gt = descend_keys(2) [OF sp(3,4) lo hi]
    show ?thesis
    proof (cases rem)
      case False
      have "key \<in> fst ` set (entries t) \<longleftrightarrow> key \<in> fst ` set (entries u)"
        using lt gt node(2,3) sp by (force simp: entries_GNode)
      then show ?thesis using False r rec sh node(2) by (auto simp: shrunk_def)
    next
      case True
      then obtain keys' children' c2 where
          "rebalance L c1 (length ks1) ks (map gid ts1 @ nc # map gid ts2) = Some ((keys', children'), c2)"
          "replace_node c2 (is_scratch c p) p (Internal keys' children') = Some (q, c')" and removed
        using r rec at(2) by (auto simp: bind_Some_iff)
      with delete_node_case [OF node(4) [unfolded sp(1,2)] sp(3,4) inv _ lt gt] sh True show ?thesis
        by (simp add: node(1,2) sp)
    qed
  qed
qed

end
