(* ===== verification/BTree_Store.thy ===== *)
theory BTree_Store
  imports BTree_Delete
begin

text \<open>
  The B-tree as a store: \<open>get\<close>, \<open>range\<close>, \<open>put\<close> and \<open>delete\<close> on a possibly empty tree, in
  terms of the sorted list of its key/value pairs (\<open>contents\<close>) and of the map they make
  (\<open>view\<close>).
\<close>

section \<open>Trees that may be empty\<close>

fun wf_tree :: "lib \<Rightarrow> ctx \<Rightarrow> gtree option \<Rightarrow> bool" where
  "wf_tree L c None = True"
| "wf_tree L c (Some t) = (\<exists>h. forest L c h [] [t])"

definition root_of :: "gtree option \<Rightarrow> page_id option" where
  "root_of ot = map_option gid ot"

fun tfit :: "gtree option \<Rightarrow> bool" where
  "tfit None = True"
| "tfit (Some t) = fit t"

fun height :: "gtree \<Rightarrow> nat" where
  "height (GLeaf p kvs) = 0"
| "height (GNode p ks ts) = Suc (Max (set (map height ts)))"

fun theight :: "gtree option \<Rightarrow> nat" where
  "theight None = 0"
| "theight (Some t) = height t"

fun tnodes :: "gtree option \<Rightarrow> page_id multiset" where
  "tnodes None = {#}"
| "tnodes (Some t) = node_pages t"

fun tentries :: "gtree option \<Rightarrow> (bytes \<times> gval) list" where
  "tentries None = []"
| "tentries (Some t) = entries t"

definition tvals :: "gtree option \<Rightarrow> page_id multiset" where
  "tvals ot = epages (tentries ot)"

definition contents :: "gtree option \<Rightarrow> (bytes \<times> bytes) list" where
  "contents ot = map (\<lambda>(k, g). (k, gbytes g)) (tentries ot)"

definition view :: "gtree option \<Rightarrow> bytes \<rightharpoonup> bytes" where
  "view ot = map_of (contents ot)"

lemma root_of_simps [simp]: "root_of None = None" "root_of (Some t) = Some (gid t)"
  by (simp_all add: root_of_def)

lemma view_None [simp]: "view None = Map.empty"
  by (simp add: view_def contents_def)

lemma view_entries: "view ot k = map_option gbytes (map_of (tentries ot) k)"
proof -
  have "map_of (map (\<lambda>(k, g). (k, gbytes g)) es) k = map_option gbytes (map_of es k)" for es
    by (induction es) auto
  then show ?thesis by (simp add: view_def contents_def)
qed

lemma fst_contents: "map fst (contents ot) = map fst (tentries ot)"
  by (simp add: contents_def o_def split_def)

lemma shape_height: "shape h t \<Longrightarrow> height t = h"
proof (induction h t rule: shape.induct)
  case (2 h p ks ts)
  then have "ts \<noteq> []" "\<forall>t\<in>set ts. height t = h" by auto
  then have "height ` set ts = {h}" by (cases ts) auto
  then show ?case by simp
qed auto

lemma forest_height: "forest L c h [] [t] \<Longrightarrow> height t = h"
  using shape_height by (simp add: forest_def)

lemma wf_tree_sorted:
  assumes "wf_tree L c ot"
  shows "sorted_wrt (<) (map fst (tentries ot))"
proof (cases ot)
  case (Some t)
  then obtain h where "forest L c h [] [t]" using assms by auto
  then have "ordered (items t)" by (simp add: forest_def)
  then show ?thesis using ordered_entries Some by (simp add: entries_def)
qed simp

text \<open>What is well-formed for the pages alone, without a write transaction's overlay.\<close>

definition read_ctx :: "pager \<Rightarrow> ctx" where
  "read_ctx p = \<lparr>c_pager = p, c_overlay = [], c_next_page = 0, c_free_list = [], c_obsolete = [],
     c_scratch_pool = [], c_watermark = 0\<rparr>"

lemma wf_tree_ctx_cong:
  assumes "wf_tree L c ot" "\<And>i n. i \<in># tnodes ot \<Longrightarrow> ctx_read L c i = Some n \<Longrightarrow> ctx_read L d i = Some n"
    "\<And>i. i \<in># tvals ot \<Longrightarrow> keeps (c_pager c) (c_pager d) i"
  shows "wf_tree L d ot"
proof (cases ot)
  case (Some t)
  then obtain h where h: "forest L c h [] [t]" using assms(1) by auto
  have "rep (ctx_read L d) t"
    by (rule rep_cong [of "ctx_read L c"]) (use h assms(2) Some in \<open>auto simp: forest_def\<close>)
  moreover have "vals_ok L (c_pager d) (entries t)"
    by (rule vals_ok_keeps [of L "c_pager c"]) (use h assms(3) Some in \<open>auto simp: forest_def tvals_def\<close>)
  ultimately show ?thesis using h Some by (auto simp: forest_def)
qed simp

section \<open>Lookup\<close>

lemma resolve_gstored: "gval_ok L p g \<Longrightarrow> resolve_value L p (gstored g) = Some (gbytes g)"
  by (cases g) (auto simp: read_chain_ok)

lemma map_of_middle:
  assumes "\<And>e. e \<in> set xs \<Longrightarrow> fst e < k" "\<And>e. e \<in> set zs \<Longrightarrow> k < fst e"
  shows "map_of (xs @ ys @ zs) (k :: bytes) = map_of ys k"
proof -
  have "map_of xs k = None" "map_of zs k = None"
    using assms by (force simp: map_of_eq_None_iff)+
  then show ?thesis by (auto simp: map_add_def split: option.splits)
qed

lemma map_of_sorted_nth:
  assumes "sorted_wrt (<) (map fst kvs)" "i < length kvs" "fst (kvs ! i) = (key :: bytes)"
  shows "map_of kvs key = Some (snd (kvs ! i))"
proof (rule map_of_is_SomeI)
  show "distinct (map fst kvs)" using sorted_wrt_less_sorted [OF assms(1)] by simp
  show "(key, snd (kvs ! i)) \<in> set kvs" using assms(2,3) by (metis nth_mem prod.collapse)
qed

text \<open>The parts of a node's entries to the left and right of the child of a descent.\<close>

lemma descend_entry_bounds:
  assumes len: "length ts1 = length ks1" "length ts2 = length ks2"
    and lo: "\<And>a g. a \<in> set (inter ks1 (map items ts1)) \<Longrightarrow> before a (Ent key g)"
    and hi: "\<And>b g. b \<in> set (after ks2 (map items ts2)) \<Longrightarrow> before (Ent key g) b"
  shows "\<And>e. e \<in> set (concat (map entries ts1)) \<Longrightarrow> fst e < key"
    "\<And>e. e \<in> set (concat (map entries ts2)) \<Longrightarrow> key < fst e"
proof -
  have e: "concat (map entries ts1) = entries_of (inter ks1 (map items ts1))"
    "concat (map entries ts2) = entries_of (after ks2 (map items ts2))"
    using len by (simp_all add: entries_of_inter entries_of_after entries_def [abs_def] o_def)
  show "fst x < key" if "x \<in> set (concat (map entries ts1))" for x
    using that unfolding e by (auto intro: descend_entries [OF lo])
  show "key < fst x" if "x \<in> set (concat (map entries ts2))" for x
    using that unfolding e by (auto intro: descend_entries' [OF hi])
qed

lemma get_loop_ok:
  "forest L c h [] [t] \<Longrightarrow>
   get_loop L (c_pager c) (c_overlay c) key (gid t) = Some (map_option gbytes (map_of (entries t) key))"
proof (induction h arbitrary: t rule: less_induct)
  case (less h)
  from less.prems show ?case
  proof (cases rule: gnode_cases)
    case (leaf p kvs)
    have rd: "read_node L (c_pager c) (c_overlay c) p = Some (Leaf (map fst kvs) (map (gstored \<circ> snd) kvs))"
      and v: "vals_ok L (c_pager c) kvs" and o: "ordered (map (\<lambda>(k, g). Ent k g) kvs)"
      using less.prems leaf by (auto simp: forest_GLeaf ctx_read_def)
    have s: "sorted_wrt (<) (map fst kvs)" using ordered_entries [OF o] by simp
    have sd: "sorted (map fst kvs)" using sorted_wrt_less_sorted [OF s] by simp
    show ?thesis
    proof (cases "binary_search_by (\<lambda>k. cmp k key) (map fst kvs)")
      case (Missing i)
      have "map_of kvs key = None" using key_missing [OF sd Missing] by (simp add: map_of_eq_None_iff)
      then show ?thesis using Missing rd leaf by (simp add: get_loop.simps [of L _ _ key p])
    next
      case (Found i)
      then have i: "i < length kvs" "fst (kvs ! i) = key" using binary_search_key_Found [OF sd Found] by auto
      have "gval_ok L (c_pager c) (snd (kvs ! i))" using v i(1) nth_mem by (fastforce simp: vals_ok_def)
      then show ?thesis
        using Found rd leaf i map_of_sorted_nth [OF s i]
        by (simp add: get_loop.simps [of L _ _ key p] get_at_def resolve_gstored)
    qed
  next
    case (node h' p ks ts)
    have ord: "ordered (inter ks (map items ts))" using node(4) by (simp add: forest_def)
    obtain ks1 ks2 ts1 u ts2 where sp: "ks = ks1 @ ks2" "ts = ts1 @ u # ts2"
        "length ts1 = length ks1" "length ts2 = length ks2" "child_index ks key = length ks1"
        and its: "inter ks (map items ts) = inter ks1 (map items ts1) @ items u @ after ks2 (map items ts2)"
        and lo: "\<And>a g. a \<in> set (inter ks1 (map items ts1)) \<Longrightarrow> before a (Ent key g)"
        and hi: "\<And>b g. b \<in> set (after ks2 (map items ts2)) \<Longrightarrow> before (Ent key g) b"
      using descend_child [OF node(3,6) ord, of key] by metis
    have ga: "get_at (map gid ts) (length ks1) = Some (gid u)"
      using get_at_append [of "map gid ts1" "gid u" "map gid ts2"] sp by simp
    have fu: "forest L c h' [] [u]" using node(4) sp its ord by (auto simp: forest_def ordered_append)
    note b = descend_entry_bounds [OF sp(3,4) lo hi]
    have "map_of (concat (map entries ts1) @ entries u @ concat (map entries ts2)) key =
        map_of (entries u) key"
      by (rule map_of_middle) (use b in auto)
    then have "map_of (entries t) key = map_of (entries u) key"
      using node(2,3) sp by (simp add: entries_GNode)
    then show ?thesis
      using less.IH [OF _ fu] node ga sp(5) by (simp add: get_loop.simps [of L _ _ key p] ctx_read_def)
  qed
qed

lemma btree_get_ok:
  assumes "wf_tree L c ot"
  shows "btree_get L (c_pager c) (c_overlay c) (root_of ot) key = Some (view ot key)"
  using assms by (cases ot) (auto simp: btree_get_def get_loop_ok view_entries)

section \<open>Range\<close>

lemma collect_leaf_ok:
  "vals_ok L p kvs \<Longrightarrow>
   collect_leaf L p lo hi (map (\<lambda>(k, g). (k, gstored g)) kvs) =
     Some (filter (\<lambda>(k, v). in_range lo hi k) (map (\<lambda>(k, g). (k, gbytes g)) kvs))"
  by (induction kvs) (auto simp: resolve_gstored)

lemma zip_gstored: "zip (map fst kvs) (map (gstored \<circ> snd) kvs) = map (\<lambda>(k, g). (k, gstored g)) kvs"
  by (induction kvs) auto

lemma collect_ok:
  assumes "\<forall>t\<in>set ts. shape h t \<and> rep (ctx_read L c) t" "vals_ok L (c_pager c) (concat (map entries ts))"
  shows "collect L (c_pager c) (c_overlay c) lo hi (map gid ts) =
     Some (filter (\<lambda>(k, v). in_range lo hi k) (map (\<lambda>(k, g). (k, gbytes g)) (concat (map entries ts))))"
  using assms
proof (induction h arbitrary: ts rule: less_induct)
  case (less h)
  show ?case
    using less.prems
  proof (induction ts)
    case Nil
    then show ?case by (simp add: collect.simps)
  next
    case (Cons t ts)
    have tl: "collect L (c_pager c) (c_overlay c) lo hi (map gid ts) =
        Some (filter (\<lambda>(k, v). in_range lo hi k) (map (\<lambda>(k, g). (k, gbytes g)) (concat (map entries ts))))"
      by (rule Cons.IH) (use Cons.prems in auto)
    show ?case
    proof (cases t)
      case (GLeaf p kvs)
      then show ?thesis
        using Cons.prems tl
        by (subst collect.simps) (simp add: ctx_read_def zip_gstored collect_leaf_ok)
    next
      case (GNode p ks us)
      then obtain h' where h: "h = Suc h'" and len: "length us = Suc (length ks)"
        using Cons.prems by (cases h) auto
      have "collect L (c_pager c) (c_overlay c) lo hi (map gid us) =
          Some (filter (\<lambda>(k, v). in_range lo hi k) (map (\<lambda>(k, g). (k, gbytes g)) (concat (map entries us))))"
        by (rule less.IH [of h']) (use Cons.prems GNode h len in \<open>auto simp: entries_GNode\<close>)
      then show ?thesis
        using Cons.prems tl GNode len
        by (subst collect.simps) (simp add: ctx_read_def entries_GNode)
    qed
  qed
qed

lemma btree_range_ok:
  assumes "wf_tree L c ot"
  shows "btree_range L (c_pager c) (c_overlay c) (root_of ot) lo hi =
     Some (filter (\<lambda>(k, v). in_range lo hi k) (contents ot))"
proof (cases ot)
  case None
  then show ?thesis by (simp add: btree_range_def contents_def)
next
  case (Some t)
  then obtain h where "forest L c h [] [t]" using assms by auto
  then show ?thesis
    using collect_ok [of "[t]" h L c lo hi] Some
    by (simp add: btree_range_def contents_def forest_def)
qed

section \<open>Put\<close>

lemma map_of_ins: "map_of (ins k v es) = (map_of es)(k \<mapsto> v)"
proof
  fix x
  have f: "map_of (filter (\<lambda>e. P (fst e)) es) x = (if P x then map_of es x else None)" for P
    by (induction es) auto
  show "map_of (ins k v es) x = ((map_of es)(k \<mapsto> v)) x"
    using f [of "\<lambda>y. y < k"] f [of "\<lambda>y. k < y"]
    by (cases "map_of es x") (auto simp: ins_def map_add_def split: option.splits)
qed

lemma map_of_del: "map_of (del k es) = (map_of es)(k := None)"
proof
  fix x
  show "map_of (del k es) x = ((map_of es)(k := None)) x"
    by (induction es) (auto simp: del_def)
qed

lemma contents_ins: "tentries ot' = ins k g (tentries ot) \<Longrightarrow> contents ot' = ins k (gbytes g) (contents ot)"
  by (simp add: contents_def ins_def filter_map o_def split_beta)

lemma contents_del: "tentries ot' = del k (tentries ot) \<Longrightarrow> contents ot' = del k (contents ot)"
  by (simp add: contents_def del_def filter_map o_def split_beta)

lemma view_ins: "contents ot' = ins k v (contents ot) \<Longrightarrow> view ot' = (view ot)(k \<mapsto> v)"
  by (simp add: view_def map_of_ins)

lemma view_del: "contents ot' = del k (contents ot) \<Longrightarrow> view ot' = (view ot)(k := None)"
  by (simp add: view_def map_of_del)

text \<open>A step of the tree on a context. \<open>K\<close> are the pages that are neither the tree's nor the
transaction's to give: the step accounts for all the others, so none is lost.\<close>

definition tstep :: "lib \<Rightarrow> page_id multiset \<Rightarrow> ctx \<Rightarrow> gtree option \<Rightarrow> ctx \<Rightarrow> gtree option \<Rightarrow> bool" where
  "tstep L K c ot c' ot' \<longleftrightarrow>
     wf_tree L c' ot' \<and> cinv c' (tnodes ot') (tvals ot' + K) \<and> frame (set_mset (tnodes ot)) c c'"

text \<open>The first key of a tree: the root is a leaf of one entry.\<close>

lemma put_empty_ok:
  assumes L: "lib_ok L" and inv: "cinv c {#} K" and r: "btree_put L c None key value = Some (i, c')"
  shows "\<exists>t. gid t = i \<and> tstep L K c None c' (Some t) \<and> contents (Some t) = ins key value (contents None) \<and>
    height t = 0 \<and> (length key \<le> KEY_CAP \<longrightarrow> fit t)"
proof -
  from r obtain sv c1 c2 where sv: "store_value L c value = Some (sv, c1)"
      and a: "alloc c1 = Some (i, c2)" and c': "c' = put_node c2 i (Leaf [key] [sv])"
    by (auto simp: btree_put_def bind_Some_iff)
  obtain g where g: "sv = gstored g" "gbytes g = value" "gval_ok L (c_pager c1) g"
      "cinv c1 {#} (gpages g + K)" "frame {} c c1" "c_overlay c1 = c_overlay c" "value_size (gstored g) \<le> 524"
    using store_value_ok [OF L inv sv] by blast
  have f2: "frame {} c c2" by (rule frame_trans_empty [OF g(5) frame_alloc [OF a]])
  have "cinv c' {#i#} (gpages g + K)" unfolding c' using alloc_cinv(1) [OF g(4) a] by (intro cinv_put) auto
  moreover have "frame {} c c'" unfolding c' by (rule frame_put [OF f2 alloc_owned [OF g(5) a]])
  moreover have "forest L c' 0 [] [GLeaf i [(key, g)]]"
    using g(1,3) alloc_fields(1) [OF a] by (simp add: forest_GLeaf c' ordered_Cons)
  moreover have "leaf_fit [(key, g)]" if "length key \<le> KEY_CAP"
    using that g(7) by (intro leaf_fit_small) (simp_all add: small_entry_def entry_size_def)
  ultimately show ?thesis
    using g(2)
    by (intro exI [of _ "GLeaf i [(key, g)]"]) (auto simp: tstep_def tvals_def contents_def ins_def)
qed

text \<open>The root split: a new root over its two halves.\<close>

lemma put_root_ok:
  assumes fo: "forest L c1 h [sep] ts" and ids: "map gid ts = [l, q]" and inv: "cinv c1 (fpages ts) (vpages ts + K)"
    and fr: "frame S c c1" and a: "alloc c1 = Some (i, c2)"
  defines "t \<equiv> GNode i [sep] ts" and "c' \<equiv> put_node c2 i (Internal [sep] [l, q])"
  shows "forest L c' (Suc h) [] [t]"
    "cinv c' (node_pages t) (epages (entries t) + K)" "frame S c c'"
    "entries t = concat (map entries ts)" "lib_sizes L \<Longrightarrow> fit_result (l, Some (sep, q)) ts \<Longrightarrow> fit t"
proof -
  have len: "length ts = Suc (length [sep])" using fo by (simp add: forest_def)
  have inv2: "cinv c2 (add_mset i (fpages ts)) (vpages ts + K)" by (rule alloc_cinv(1) [OF inv a])
  have ne: "i \<notin># fpages ts" by (rule cinv_add_not_in [OF inv2])
  have "forest L c' h [sep] ts"
  proof (rule forest_other_reads [OF fo])
    show "c_pager c' = c_pager c1" using alloc_fields(1) [OF a] by (simp add: c'_def)
    show "ctx_read L c' k = ctx_read L c1 k" if "k \<in># fpages ts" for k
      using that ne alloc_fields(6) [OF a, of L] by (auto simp: c'_def)
  qed
  then show "forest L c' (Suc h) [] [t]" using ids by (simp add: forest_GNode t_def c'_def)
  show "cinv c' (node_pages t) (epages (entries t) + K)"
    unfolding c'_def t_def using inv2 len by (intro cinv_put) (auto simp: epages_GNode)
  show "frame S c c'"
    unfolding c'_def by (rule frame_put [OF frame_trans_empty [OF fr frame_alloc [OF a]] alloc_owned [OF fr a]])
  show "entries t = concat (map entries ts)" using len by (simp add: t_def entries_GNode)
  show "fit t" if "lib_sizes L" and f: "fit_result (l, Some (sep, q)) ts"
  proof -
    have "length sep \<le> KEY_CAP" using f by (simp add: fit_result_def)
    then have "20 + keys_size [sep] + 8 * length (map gid ts) \<le> 3068" using len by simp
    then show ?thesis using f unfolding t_def fit.simps node_size_internal fit_result_def by simp
  qed
qed

lemma btree_put_ok:
  assumes L: "lib_ok L" and wf: "wf_tree L c ot" and inv: "cinv c (tnodes ot) (tvals ot + K)"
    and r: "btree_put L c (root_of ot) key value = Some (i, c')"
  shows "\<exists>t. gid t = i \<and> tstep L K c ot c' (Some t) \<and> contents (Some t) = ins key value (contents ot) \<and>
    height t \<le> Suc (theight ot) \<and> (lib_sizes L \<and> length key \<le> KEY_CAP \<and> tfit ot \<longrightarrow> fit t)"
proof (cases ot)
  case None
  then show ?thesis using put_empty_ok [OF L, of c K key "value" i c'] inv r by (auto simp: tvals_def)
next
  case (Some t)
  then obtain h where h: "forest L c h [] [t]" using wf by auto
  from r obtain l split c1 where rec: "insert_rec L key value c (gid t) = Some ((l, split), c1)"
      and rest: "(case split of None \<Rightarrow> Some (l, c1)
        | Some (sep, sibling) \<Rightarrow> do { (i, c2) \<leftarrow> alloc c1;
            Some (i, put_node c2 i (Internal [sep] [l, sibling])) }) = Some (i, c')"
    by (auto simp: Some btree_put_def bind_Some_iff)
  define res where "res = (l, split)"
  note rec = rec [folded res_def]
  have "grown L h key value t {#} K c res c1"
    by (rule insert_rec_ok [OF L h _ rec]) (use inv Some in \<open>simp add: tvals_def\<close>)
  then obtain ts g where ts: "map gid ts = res_ids res" "forest L c1 h (res_keys res) ts"
      "cinv c1 (fpages ts) (vpages ts + K)" "gbytes g = value"
      "concat (map entries ts) = ins key g (entries t)" "frame (set_mset (node_pages t)) c c1"
      "lib_sizes L \<and> length key \<le> KEY_CAP \<and> fit t \<longrightarrow> fit_result res ts"
    unfolding grown_def by (simp only: add_0_right) blast
  show ?thesis
  proof (cases split)
    case None
    then have res: "res = (i, None)" "c' = c1" using rest by (simp_all add: res_def)
    then obtain u where u: "ts = [u]" using ts(1) by (cases ts) auto
    then have "height u = height t" using forest_height [OF h] forest_height [of L c1 h u] ts(2) res by simp
    with u show ?thesis
      using ts res Some
      by (intro exI [of _ u]) (auto simp: fit_result_def tstep_def tvals_def intro!: contents_ins [where g = g, THEN trans])
  next
    case s: (Some sq)
    obtain sep q where sq: "split = Some (sep, q)" using s by (cases sq) auto
    then have res: "res = (l, Some (sep, q))" by (simp add: res_def)
    obtain c2 where a: "alloc c1 = Some (i, c2)" and c': "c' = put_node c2 i (Internal [sep] [l, q])"
      using rest by (auto simp: sq bind_Some_iff)
    have fo: "forest L c1 h [sep] ts" and ids: "map gid ts = [l, q]" using ts(1,2) by (simp_all add: res)
    let ?t = "GNode i [sep] ts"
    note ok = put_root_ok [OF fo ids ts(3,6) a, folded c']
    have "height ?t = Suc (height t)" using forest_height [OF ok(1)] forest_height [OF h] by simp
    moreover have "tentries (Some ?t) = ins key g (tentries ot)" using ts(5) ok(4) Some by simp
    ultimately show ?thesis
      using Some ts(4,7) ok contents_ins [of "Some ?t" key g ot]
      by (intro exI [of _ ?t]) (auto simp: tstep_def tvals_def res simp del: fit.simps)
  qed
qed

section \<open>Delete\<close>

lemma finalize_root_ok:
  "forest L c h [] [t] \<Longrightarrow> cinv c (node_pages t) (epages (entries t) + K) \<Longrightarrow> frame S c0 c \<Longrightarrow>
   set_mset (node_pages t) \<subseteq> S \<union> allocable c0 \<Longrightarrow> finalize_root L c (gid t) = Some (r, c') \<Longrightarrow>
   \<exists>ot. r = root_of ot \<and> wf_tree L c' ot \<and> cinv c' (tnodes ot) (tvals ot + K) \<and>
     tentries ot = entries t \<and> theight ot \<le> h \<and> (fit t \<longrightarrow> tfit ot) \<and> frame S c0 c'"
proof (induction h arbitrary: t c rule: less_induct)
  case (less h)
  have stop: ?case if "r = Some (gid t)" "c' = c"
    using that less.prems forest_height [OF less.prems(1)] by (intro exI [of _ "Some t"]) (auto simp: tvals_def)
  from less.prems(1) show ?case
  proof (cases rule: gnode_cases)
    case (leaf p kvs)
    have rd: "ctx_read L c p = Some (Leaf (map fst kvs) (map (gstored \<circ> snd) kvs))"
      using less.prems(1) leaf by (simp add: forest_GLeaf)
    show ?thesis
    proof (cases "kvs = []")
      case True
      then have rc: "r = None" "c' = retire c p"
        using less.prems(5) rd leaf by (auto simp: finalize_root.simps [of L c p])
      have "cinv c' {#} K" unfolding rc using less.prems(2) leaf True by (intro cinv_retire) simp
      moreover have "frame S c0 c'"
        unfolding rc by (rule frame_retire [OF less.prems(3)]) (use less.prems(4) leaf in auto)
      ultimately show ?thesis using rc True leaf by (intro exI [of _ None]) (simp add: tvals_def)
    next
      case False
      then show ?thesis using stop less.prems(5) rd leaf by (simp add: finalize_root.simps [of L c p])
    qed
  next
    case (node h' p ks ts)
    show ?thesis
    proof (cases "ks = [] \<and> length ts = 1")
      case False
      then show ?thesis using stop less.prems(5) node by (auto simp: finalize_root.simps [of L c p])
    next
      case True
      then obtain u where ts: "ts = [u]" "ks = []" by (cases ts) auto
      have r: "finalize_root L (retire c p) (gid u) = Some (r, c')"
        using less.prems(5) node ts by (simp add: finalize_root.simps [of L c p])
      have inv: "cinv c (add_mset p (node_pages u)) (epages (entries u) + K)"
        using less.prems(2) node ts by (simp add: entries_GNode)
      have ne: "p \<notin># node_pages u" by (rule cinv_add_not_in [OF inv])
      have fu: "forest L (retire c p) h' [] [u]"
        by (rule forest_other_reads [of L c]) (use node ts ne in \<open>auto intro: ctx_read_retire\<close>)
      have f: "frame S c0 (retire c p)"
        by (rule frame_retire [OF less.prems(3)]) (use less.prems(4) node in auto)
      have "\<exists>ot. r = root_of ot \<and> wf_tree L c' ot \<and> cinv c' (tnodes ot) (tvals ot + K) \<and>
          tentries ot = entries u \<and> theight ot \<le> h' \<and> (fit u \<longrightarrow> tfit ot) \<and> frame S c0 c'"
        by (rule less.IH [OF _ fu cinv_retire [OF inv] f _ r]) (use less.prems(4) node ts in auto)
      then show ?thesis using node ts by (fastforce simp: entries_GNode)
    qed
  qed
qed

lemma btree_delete_ok:
  assumes wf: "wf_tree L c ot" and inv: "cinv c (tnodes ot) (tvals ot + K)"
    and r: "btree_delete L c (root_of ot) key = Some ((r', existed), c')"
  shows "\<exists>ot'. r' = root_of ot' \<and> tstep L K c ot c' ot' \<and> contents ot' = del key (contents ot) \<and>
    existed = (view ot key \<noteq> None) \<and> theight ot' \<le> theight ot \<and> (lib_sizes L \<and> tfit ot \<longrightarrow> tfit ot')"
proof (cases ot)
  case None
  then show ?thesis
    using r wf inv
    by (intro exI [of _ None]) (auto simp: btree_delete_def tstep_def contents_def del_def)
next
  case (Some t)
  then obtain h where h: "forest L c h [] [t]" using wf by auto
  from r Some obtain q c1 where rec: "delete_rec L key c (gid t) = Some ((q, existed), c1)"
      and fin: "finalize_root L c1 q = Some (r', c')"
    by (auto simp: btree_delete_def bind_Some_iff)
  have inv': "cinv c (node_pages t + {#}) (epages (entries t) + K)"
    using inv Some by (simp add: tvals_def)
  have sh: "shrunk L h key t {#} K c q existed c1" by (rule delete_rec_ok [OF h inv' rec])
  have ex: "existed = (view ot key \<noteq> None)"
    using sh Some by (auto simp: shrunk_def view_entries map_of_eq_None_iff)
  let ?S = "set_mset (node_pages t)"
  have "\<exists>t'. gid t' = q \<and> forest L c1 h [] [t'] \<and> cinv c1 (node_pages t') (epages (entries t') + K) \<and>
      entries t' = del key (entries t) \<and> frame ?S c c1 \<and> set_mset (node_pages t') \<subseteq> ?S \<union> allocable c \<and>
      (lib_sizes L \<and> fit t \<longrightarrow> fit t')"
  proof (cases existed)
    case True
    then show ?thesis using shrunk_removed [OF sh True] by (metis add_0_right)
  next
    case False
    then show ?thesis
      using sh h inv' by (intro exI [of _ t]) (auto simp: shrunk_def del_outside)
  qed
  then obtain t' where t': "gid t' = q" "forest L c1 h [] [t']" "cinv c1 (node_pages t') (epages (entries t') + K)"
      "entries t' = del key (entries t)" "frame ?S c c1" "set_mset (node_pages t') \<subseteq> ?S \<union> allocable c"
      "lib_sizes L \<and> fit t \<longrightarrow> fit t'"
    by blast
  obtain ot' where "r' = root_of ot'" "wf_tree L c' ot'" "cinv c' (tnodes ot') (tvals ot' + K)"
      "tentries ot' = entries t'" "frame ?S c c'" "fit t' \<longrightarrow> tfit ot'" "theight ot' \<le> h"
    using finalize_root_ok [OF t'(2,3,5,6)] fin t'(1) by blast
  then show ?thesis
    using ex Some t'(4,7) forest_height [OF h] by (intro exI [of _ ot']) (auto simp: tstep_def intro!: contents_del)
qed

end
