(* ===== verification/BTree_Total.thy ===== *)
theory BTree_Total
  imports BTree_Store
begin

text \<open>
  The operations of the B-tree return. They could fail to in three ways: the number of
  pages runs out (\<open>alloc\<close> overflows, the file system refuses the write), an overflow page
  does not fit in a page, or the walk meets a page that is not what it should be. The last
  is excluded by the well-formedness of the tree, the second by the sizes of the library,
  the first by \<open>room c k\<close>: at least \<open>k\<close> more pages can be handed out.
\<close>

section \<open>Room for more pages\<close>

definition room :: "ctx \<Rightarrow> nat \<Rightarrow> bool" where
  "room c k \<longleftrightarrow> unat (c_next_page c) + k \<le> p_limit (c_pager c) \<and> p_limit (c_pager c) \<le> 2 ^ 52"

named_theorems room_intro "operations that use no pages"

lemma room_mono: "room c k \<Longrightarrow> j \<le> k \<Longrightarrow> room c j"
  by (simp add: room_def)

lemma room_put [room_intro]: "room c k \<Longrightarrow> room (put_node c i n) k"
  by (simp add: room_def)

lemma room_mark [room_intro]: "room c k \<Longrightarrow> room (mark_obsolete c i) k"
  by (simp add: room_def)

lemma room_retire [room_intro]: "room c k \<Longrightarrow> room (retire c i) k"
  by (simp add: room_def retire_def)

lemma room_obsolete [room_intro]: "room c k \<Longrightarrow> room (c\<lparr>c_obsolete := l\<rparr>) k"
  by (simp add: room_def)

lemma alloc_total:
  assumes "room c (Suc k)"
  obtains i c' where "alloc c = Some (i, c')" "room c' k"
proof -
  have np: "c_next_page c \<noteq> u64_max"
    using assms unat_u64_max by (auto simp: room_def)
  then have "alloc c \<noteq> None" by (simp add: alloc_def split: option.split)
  then obtain i c' where a: "alloc c = Some (i, c')" by auto
  have "unat (c_next_page c') \<le> Suc (unat (c_next_page c))"
    using alloc_account [OF a] by (auto simp: unat_plus_one)
  then have "room c' k" using assms alloc_fields(1) [OF a] by (simp add: room_def)
  then show thesis using that a by blast
qed

lemma alloc_below_limit:
  assumes "cinv c N V" "alloc c = Some (i, c')" "room c' k"
  shows "unat i < p_limit (c_pager c')"
proof -
  have "i < c_next_page c'"
    using cinv_bounds [OF alloc_cinv(1) [OF assms(1,2)], of i] by (simp add: all_pages_def)
  then show ?thesis using assms(3) by (simp add: room_def word_less_nat_alt)
qed

lemma cow_page_total:
  assumes "room c (Suc k)"
  obtains j c' where "cow_page c scratch i = Some (j, c')" "room c' k"
proof (cases scratch)
  case True
  then show thesis using that assms room_mono [of c "Suc k" k] by (simp add: cow_page_def)
next
  case False
  obtain j c' where "alloc (mark_obsolete c i) = Some (j, c')" "room c' k"
    by (rule alloc_total [OF room_mark [OF assms]])
  then show thesis using that False by (simp add: cow_page_def)
qed

lemma replace_node_total:
  assumes "room c (Suc k)"
  obtains j c' where "replace_node c scratch i n = Some (j, c')" "room c' k"
proof -
  obtain j c' where "cow_page c scratch i = Some (j, c')" "room c' k"
    by (rule cow_page_total [OF assms])
  then show thesis using that room_put by (simp add: replace_node_def)
qed

section \<open>Values\<close>

definition value_pages :: "bytes \<Rightarrow> nat" where
  "value_pages value =
     (if length value \<le> INLINE_VALUE_LIMIT then 0 else (length value + OVERFLOW_CHUNK - 1) div OVERFLOW_CHUNK)"

lemma write_chunks_total:
  assumes L: "lib_ok L" "lib_sizes L"
  shows "cinv c N V \<Longrightarrow> room c (length cs + k) \<Longrightarrow> \<forall>ch\<in>set cs. length ch \<le> OVERFLOW_CHUNK \<Longrightarrow>
    \<exists>next' c'. write_chunks L c next cs = Some (next', c') \<and> room c' k \<and> (next' = None \<longrightarrow> next = None \<and> cs = [])"
proof (induction cs arbitrary: c V "next")
  case Nil
  then show ?case by simp
next
  case (Cons ch cs)
  have "room c (Suc (length cs + k))" using Cons.prems(2) by simp
  then obtain i c1 where a: "alloc c = Some (i, c1)" "room c1 (length cs + k)"
    by (rule alloc_total)
  have "over_size \<lparr>op_next = next, op_data = ch\<rparr> \<le> 4092"
    using Cons.prems(3) opt_size_le [of 8 "next"] by (simp add: over_size_def OVERFLOW_CHUNK_def)
  then obtain buf where buf: "encode_page L (sd_over L) \<lparr>op_next = next, op_data = ch\<rparr> = Some buf"
    using encode_fits(4) [OF L] by blast
  obtain p where p: "write_page (c_pager c1) i buf = Some p"
    using alloc_below_limit [OF Cons.prems(1) a] by (auto simp: write_page_def)
  let ?c2 = "c1\<lparr>c_pager := p\<rparr>"
  have "cinv ?c2 N (add_mset i V)"
    using alloc_cinv(2) [OF Cons.prems(1) a(1)] by (simp add: cinv_set_pager)
  moreover have "room ?c2 (length cs + k)"
    using a(2) write_page_fields [OF p] by (simp add: room_def)
  ultimately show ?case
    using Cons.IH [of ?c2 "add_mset i V" "Some i"] Cons.prems(3) a buf p by auto
qed

lemma store_value_total:
  assumes L: "lib_ok L" "lib_sizes L" and inv: "cinv c N V" and room: "room c (value_pages value + k)"
  obtains sv c' where "store_value L c value = Some (sv, c')" "room c' k"
proof (cases "length value \<le> INLINE_VALUE_LIMIT")
  case True
  then show thesis using that room by (simp add: store_value_def value_pages_def)
next
  case False
  let ?cs = "rev (chunks OVERFLOW_CHUNK value)"
  have "length ?cs = value_pages value" "?cs \<noteq> []"
    using False length_chunks [of OVERFLOW_CHUNK "value"] chunks_not_Nil [of OVERFLOW_CHUNK "value"]
    by (auto simp: value_pages_def OVERFLOW_CHUNK_def)
  moreover have "\<forall>ch\<in>set ?cs. length ch \<le> OVERFLOW_CHUNK" using chunks_length by auto
  ultimately obtain "next" c' where
      "write_chunks L c None ?cs = Some (next, c')" "room c' k" "next \<noteq> None"
    using write_chunks_total [OF L inv, of ?cs k None] room by auto
  then show thesis using that False by (auto simp: store_value_def)
qed

section \<open>Put\<close>

lemma insert_leaf_total:
  assumes L: "lib_ok L" "lib_sizes L" and s: "sorted_wrt (<) (map fst kvs)"
    and v: "vals_ok L (c_pager c) kvs" and inv: "cinv c N (epages kvs + V)"
    and room: "room c (value_pages value + k)"
  obtains keys' values' c' where
    "insert_leaf L c key value (map fst kvs) (map (gstored \<circ> snd) kvs) = Some ((keys', values'), c')"
    "room c' k"
proof -
  have sd: "sorted (map fst kvs)" using sorted_wrt_less_sorted [OF s] by simp
  show thesis
  proof (cases "binary_search_by (\<lambda>k. cmp k key) (map fst kvs)")
    case (Found i)
    then have i: "i < length kvs" using binary_search_key_Found [OF sd Found] by auto
    let ?old = "snd (kvs ! i)"
    have old: "gval_ok L (c_pager c) ?old" using v i by (force simp: vals_ok_def split_beta)
    obtain l where l: "retire_value L c (gstored ?old) = Some (c\<lparr>c_obsolete := c_obsolete c @ l\<rparr>)"
        "mset l = gpages ?old"
      using retire_value_ok [OF old] by blast
    have "epages kvs = gpages ?old + epages (take i kvs @ drop (Suc i) kvs)"
    proof -
      have "kvs = take i kvs @ kvs ! i # drop (Suc i) kvs" using i by (rule id_take_nth_drop)
      then have "epages kvs = epages (take i kvs @ (fst (kvs ! i), ?old) # drop (Suc i) kvs)" by simp
      then show ?thesis by (simp only: epages_append epages_Cons) (simp add: ac_simps)
    qed
    then have "cinv (c\<lparr>c_obsolete := c_obsolete c @ l\<rparr>) N (epages (take i kvs @ drop (Suc i) kvs) + V)"
      by (intro cinv_obsolete) (use inv l(2) in \<open>simp add: ac_simps\<close>)
    then obtain sv c' where "store_value L (c\<lparr>c_obsolete := c_obsolete c @ l\<rparr>) value = Some (sv, c')"
        "room c' k"
      by (rule store_value_total [OF L _ room_obsolete [OF room]])
    then show thesis using that Found i l(1) by (simp add: insert_leaf_def get_at_def set_at_def)
  next
    case (Missing i)
    have "i \<le> length kvs" using binary_search_key_Missing [OF sd Missing] by simp
    moreover obtain sv c' where "store_value L c value = Some (sv, c')" "room c' k"
      by (rule store_value_total [OF L inv room])
    ultimately show thesis using that Missing by (simp add: insert_leaf_def insert_at_def)
  qed
qed

lemma finish_leaf_total:
  assumes "room c (Suc (Suc k))" "keys \<noteq> []" "length values = length keys"
  obtains res c' where "finish_leaf L c scratch i keys values = Some (res, c')" "room c' k"
proof -
  obtain j c1 where c1: "cow_page c scratch i = Some (j, c1)" "room c1 (Suc k)"
    by (rule cow_page_total [OF assms(1)])
  obtain r c2 where c2: "alloc c1 = Some (r, c2)" "room c2 k"
    by (rule alloc_total [OF c1(2)])
  have mid: "length keys div 2 < length keys" using assms(2) by (cases keys) auto
  have "\<exists>res c'. finish_leaf L c scratch i keys values = Some (res, c') \<and> room c' k"
  proof (cases "SPLIT_THRESHOLD < encoded_len (sd_node L) (Leaf keys values)")
    case True
    then show ?thesis
      using c1 c2 assms(3) mid
      by (simp add: finish_leaf_def Let_def get_at_def slice_from_def slice_to_def room_put)
  next
    case False
    then show ?thesis
      using c1 room_mono [OF c1(2), of k] by (simp add: finish_leaf_def room_put)
  qed
  then show thesis using that by blast
qed

lemma finish_internal_total:
  assumes L: "lib_sizes L" and "room c (Suc (Suc k))" "length children = Suc (length keys)"
  obtains res c' where "finish_internal L c scratch i keys children = Some (res, c')" "room c' k"
proof -
  obtain j c1 where c1: "cow_page c scratch i = Some (j, c1)" "room c1 (Suc k)"
    by (rule cow_page_total [OF assms(2)])
  obtain r c2 where c2: "alloc c1 = Some (r, c2)" "room c2 k"
    by (rule alloc_total [OF c1(2)])
  have "\<exists>res c'. finish_internal L c scratch i keys children = Some (res, c') \<and> room c' k"
  proof (cases "SPLIT_THRESHOLD < encoded_len (sd_node L) (Internal keys children)")
    case True
    then have "keys \<noteq> []"
      using assms(3) L by (auto simp: encoded_len_def lib_sizes_def SPLIT_THRESHOLD_def)
    then have "length keys div 2 < length keys" by (cases keys) auto
    then show ?thesis
      using True c1 c2 assms(3)
      by (simp add: finish_internal_def Let_def get_at_def slice_from_def slice_to_def room_put)
  next
    case False
    then show ?thesis
      using c1 room_mono [OF c1(2), of k] by (simp add: finish_internal_def room_put)
  qed
  then show thesis using that by blast
qed

lemma insert_rec_total:
  assumes L: "lib_ok L" "lib_sizes L"
  shows "forest L c h [] [t] \<Longrightarrow> cinv c (node_pages t + N) (epages (entries t) + V) \<Longrightarrow>
    room c (value_pages value + 2 * Suc h + k) \<Longrightarrow>
    \<exists>res c'. insert_rec L key value c (gid t) = Some (res, c') \<and> room c' k"
proof (induction h arbitrary: t N V k rule: less_induct)
  case (less h)
  from less.prems(1) show ?case
  proof (cases rule: gnode_cases)
    case (leaf p kvs)
    have rd: "ctx_read L c p = Some (Leaf (map fst kvs) (map (gstored \<circ> snd) kvs))"
      and v: "vals_ok L (c_pager c) kvs" and o: "ordered (map (\<lambda>(k, g). Ent k g) kvs)"
      using less.prems(1) leaf by (auto simp: forest_GLeaf)
    have s: "sorted_wrt (<) (map fst kvs)" using ordered_entries [OF o] by simp
    have inv: "cinv c (add_mset p N) (epages kvs + V)" using less.prems(2) leaf by simp
    have r: "room c (value_pages value + Suc (Suc k))" using less.prems(3) leaf by simp
    obtain keys' values' c1 where
        il: "insert_leaf L c key value (map fst kvs) (map (gstored \<circ> snd) kvs) = Some ((keys', values'), c1)"
        and r1: "room c1 (Suc (Suc k))"
      by (rule insert_leaf_total [OF L s v inv r])
    have "\<exists>g. keys' = map fst (ins key g kvs) \<and> values' = map (gstored \<circ> snd) (ins key g kvs)"
      using insert_leaf_ok [OF L(1) s v inv il] by blast
    then have kv: "keys' \<noteq> []" "length values' = length keys'" by (auto simp: ins_def)
    obtain res c' where "finish_leaf L c1 (is_scratch c p) p keys' values' = Some (res, c')" "room c' k"
      by (rule finish_leaf_total [OF r1 kv])
    then show ?thesis using rd il leaf by (simp add: insert_rec.simps [of L key "value" c p])
  next
    case (node h' p ks ts)
    obtain ks1 ks2 ts1 u ts2 where sp: "ks = ks1 @ ks2" "ts = ts1 @ u # ts2"
        "length ts1 = length ks1" "length ts2 = length ks2" "child_index ks key = length ks1"
        and ga: "get_at (map gid ts) (length ks1) = Some (gid u)" and fu: "forest L c h' [] [u]"
        and inv: "cinv c (node_pages u + (fpages ts1 + fpages ts2 + add_mset p N))
          (epages (entries u) + (vpages ts1 + vpages ts2 + V))"
      by (rule descend_case [OF node(4) less.prems(2) [unfolded node(2)], of key]) blast
    have "room c (value_pages value + 2 * Suc h' + Suc (Suc k))"
      using less.prems(3) node(1) by (simp add: ac_simps)
    then obtain r1 c1 where rec: "insert_rec L key value c (gid u) = Some (r1, c1)" "room c1 (Suc (Suc k))"
      using less.IH [OF _ fu inv] node(1) by blast
    let ?ks = "ks1 @ res_keys r1 @ ks2" and ?ids = "map gid ts1 @ res_ids r1 @ map gid ts2"
    have ab: "absorb_split ks (map gid ts) (length ks1) r1 = Some (?ks, ?ids)"
      using absorb_split_ok [of ks1 "length ks1" ts1 ks2 u ts2 r1] sp by simp
    have "length ?ids = Suc (length ?ks)"
      using sp by (simp add: res_keys_def res_ids_def split: option.split)
    then obtain res c' where "finish_internal L c1 (is_scratch c p) p ?ks ?ids = Some (res, c')" "room c' k"
      by (rule finish_internal_total [OF L(2) rec(2)])
    then show ?thesis
      using ga rec(1) ab node sp(5) by (simp add: insert_rec.simps [of L key "value" c p])
  qed
qed

text \<open>The pages an operation may use, in terms of the height of the tree.\<close>

definition put_pages :: "gtree option \<Rightarrow> bytes \<Rightarrow> nat" where
  "put_pages ot value = value_pages value + 2 * (case ot of None \<Rightarrow> 0 | Some t \<Rightarrow> Suc (height t)) + 1"

definition delete_pages :: "gtree option \<Rightarrow> nat" where
  "delete_pages ot = 2 * (case ot of None \<Rightarrow> 0 | Some t \<Rightarrow> Suc (height t))"

lemma btree_put_total:
  assumes L: "lib_ok L" "lib_sizes L" and wf: "wf_tree L c ot" and inv: "cinv c (tnodes ot) (tvals ot + K)"
    and room: "room c (put_pages ot value + k)"
  shows "\<exists>i c'. btree_put L c (root_of ot) key value = Some (i, c') \<and> room c' k"
proof (cases ot)
  case None
  have "room c (value_pages value + Suc k)" using room None by (simp add: put_pages_def)
  then obtain sv c1 where "store_value L c value = Some (sv, c1)" "room c1 (Suc k)"
    by (rule store_value_total [OF L inv])
  moreover from this(2) obtain i c2 where "alloc c1 = Some (i, c2)" "room c2 k"
    by (rule alloc_total)
  ultimately show ?thesis using None by (simp add: btree_put_def room_put)
next
  case (Some t)
  then obtain h where h: "forest L c h [] [t]" using wf by auto
  then have "height t = h" using shape_height by (simp add: forest_def)
  then have "room c (value_pages value + 2 * Suc h + Suc k)"
    using room Some by (simp add: put_pages_def ac_simps)
  moreover have "cinv c (node_pages t + {#}) (epages (entries t) + K)"
    using inv Some by (simp add: tvals_def)
  ultimately obtain r c1 where rec: "insert_rec L key value c (gid t) = Some (r, c1)" "room c1 (Suc k)"
    using insert_rec_total [OF L h] by blast
  obtain i c2 where "alloc c1 = Some (i, c2)" "room c2 k" by (rule alloc_total [OF rec(2)])
  then show ?thesis
    using rec Some room_mono [OF rec(2), of k]
    by (cases r) (auto simp: btree_put_def room_put split: option.split)
qed

section \<open>Delete\<close>

lemma try_merge_total:
  obtains m where "try_merge L a b (Some sep) = Some m"
  by (cases a; cases b) (auto simp: Let_def)

lemma merge_at_total:
  assumes "length ids = Suc (length ks)" "Suc i < length ids" "\<forall>j\<in>set ids. ctx_read L c j \<noteq> None"
    "room c (Suc k)"
  obtains m ks' ids' c' where "merge_at L c i ks ids = Some ((m, ks', ids'), c')" "room c' k"
    "\<not> m \<longrightarrow> ks' = ks \<and> ids' = ids \<and> c' = c"
proof -
  obtain a where a: "ctx_read L c (ids ! i) = Some a" using assms(2,3) by fastforce
  obtain b where b: "ctx_read L c (ids ! Suc i) = Some b" using assms(2,3) by fastforce
  obtain j c2 where al: "alloc (retire (retire c (ids ! i)) (ids ! Suc i)) = Some (j, c2)" "room c2 k"
    by (rule alloc_total [OF room_retire [OF room_retire [OF assms(4)]]])
  have k: "room c k" using room_mono [OF assms(4)] by simp
  obtain m where m: "try_merge L a b (Some (ks ! i)) = Some m" by (rule try_merge_total)
  show thesis
  proof (cases m)
    case None
    then have tm: "try_merge L a b (Some (ks ! i)) = Some None" using m by simp
    show thesis
      by (rule that [of False ks ids c]) (use assms(1,2) a b tm k in \<open>auto simp: merge_at_def get_at_def\<close>)
  next
    case (Some n)
    then have tm: "try_merge L a b (Some (ks ! i)) = Some (Some n)" using m by simp
    show thesis
      by (rule that [of True _ _ "put_node c2 j n"])
        (use assms(1,2) a b tm al in
          \<open>auto simp: merge_at_def get_at_def set_at_def remove_at_def Let_def intro: room_put\<close>)
  qed
qed

lemma rebalance_total:
  assumes len: "length ids = Suc (length ks)" and idx: "idx < length ids"
    and rd: "\<forall>j\<in>set ids. ctx_read L c j \<noteq> None" and room: "room c (Suc k)"
  obtains ks' ids' c' where "rebalance L c idx ks ids = Some ((ks', ids'), c')" "room c' k"
proof -
  obtain n where n: "ctx_read L c (ids ! idx) = Some n" using idx rd by fastforce
  show thesis
  proof (cases "is_underfull L n")
    case False
    then show thesis
      using that n idx room_mono [OF room, of k] by (simp add: rebalance_def get_at_def)
  next
    case True
    obtain m ks1 ids1 c1 where
        right: "(if Suc idx < length ids then merge_at L c idx ks ids else Some ((False, ks, ids), c)) =
          Some ((m, ks1, ids1), c1)" "m \<longrightarrow> room c1 k" "\<not> m \<longrightarrow> ks1 = ks \<and> ids1 = ids \<and> c1 = c"
    proof (cases "Suc idx < length ids")
      case True
      obtain m ks' ids' c' where "merge_at L c idx ks ids = Some ((m, ks', ids'), c')" "room c' k"
          "\<not> m \<longrightarrow> ks' = ks \<and> ids' = ids \<and> c' = c"
        by (rule merge_at_total [OF len True rd room])
      then show thesis using that True by simp
    next
      case False
      then show thesis by (intro that [of False ks ids c]) simp_all
    qed
    have eq: "rebalance L c idx ks ids =
        (if \<not> m \<and> 0 < idx
         then do { ((_, ks2, ids2), c2) \<leftarrow> merge_at L c1 (idx - 1) ks1 ids1; Some ((ks2, ids2), c2) }
         else Some ((ks1, ids1), c1))"
      using idx n True by (simp add: rebalance_def get_at_def right(1))
    show thesis
    proof (cases "\<not> m \<and> 0 < idx")
      case False
      have "room c1 k" using right(2,3) room_mono [OF room, of k] by (cases m) auto
      moreover have "rebalance L c idx ks ids = Some ((ks1, ids1), c1)"
        by (simp only: eq False if_False)
      ultimately show thesis using that by blast
    next
      case left: True
      then have "Suc (idx - 1) < length ids" using idx by simp
      then obtain m' ks' ids' c' where m': "merge_at L c (idx - 1) ks ids = Some ((m', ks', ids'), c')"
          "room c' k"
        by (rule merge_at_total [OF len _ rd room])
      then have "rebalance L c idx ks ids = Some ((ks', ids'), c')" using left right(3) by (simp add: eq)
      then show thesis using that m'(2) by blast
    qed
  qed
qed

text \<open>A leaf: one page at most.\<close>

lemma delete_leaf_total:
  assumes fo: "forest L c 0 [] [GLeaf p kvs]" and rm: "room c (Suc k)"
  shows "\<exists>q removed c'. delete_rec L key c p = Some ((q, removed), c') \<and> room c' k"
proof -
  have rd: "ctx_read L c p = Some (Leaf (map fst kvs) (map (gstored \<circ> snd) kvs))"
    and v: "vals_ok L (c_pager c) kvs" and o: "ordered (map (\<lambda>(k, g). Ent k g) kvs)"
    using fo by (auto simp: forest_GLeaf)
  have sd: "sorted (map fst kvs)" using sorted_wrt_less_sorted ordered_entries [OF o] by simp
  show ?thesis
  proof (cases "binary_search_by (\<lambda>k. cmp k key) (map fst kvs)")
    case (Missing i)
    then show ?thesis
      using rd room_mono [OF rm, of k] by (simp add: delete_rec.simps [of L key c p] ex_bool_eq)
  next
    case (Found i)
    then have i: "i < length kvs" using binary_search_key_Found [OF sd Found] by auto
    have old: "gval_ok L (c_pager c) (snd (kvs ! i))" using v i by (force simp: vals_ok_def split_beta)
    obtain l where l: "retire_value L c (gstored (snd (kvs ! i))) = Some (c\<lparr>c_obsolete := c_obsolete c @ l\<rparr>)"
      using retire_value_ok [OF old] by blast
    have r: "room (c\<lparr>c_obsolete := c_obsolete c @ l\<rparr>) (Suc k)" using rm by (simp add: room_def)
    obtain q c' where "replace_node (c\<lparr>c_obsolete := c_obsolete c @ l\<rparr>) (is_scratch c p) p
        (Leaf (take i (map fst kvs) @ drop (Suc i) (map fst kvs))
          (take i (map (gstored \<circ> snd) kvs) @ drop (Suc i) (map (gstored \<circ> snd) kvs))) = Some (q, c')"
        "room c' k"
      by (rule replace_node_total [OF r])
    then show ?thesis
      using rd Found i l by (simp add: delete_rec.simps [of L key c p] remove_at_def ex_bool_eq)
  qed
qed

text \<open>An internal node whose child lost the key: the child's siblings are still there to rebalance with.\<close>

lemma delete_node_total:
  assumes fo: "forest L c h (ks1 @ ks2) (ts1 @ u # ts2)" and len: "length ts1 = length ks1" "length ts2 = length ks2"
    and inv: "cinv c (node_pages u + (fpages ts1 + fpages ts2 + N)) V'"
    and u': "forest L c1 h [] [u']" and fr: "frame (set_mset (node_pages u)) c c1" and r1: "room c1 (Suc (Suc k))"
  shows "\<exists>ks' ids' c2 q c3. rebalance L c1 (length ks1) (ks1 @ ks2) (map gid (ts1 @ u' # ts2)) = Some ((ks', ids'), c2) \<and>
    replace_node c2 scratch p (Internal ks' ids') = Some (q, c3) \<and> room c3 k"
proof -
  let ?us = "ts1 @ u' # ts2"
  have dis: "set_mset (fpages ts1 + fpages ts2) \<inter> (set_mset (node_pages u) \<union> allocable c) = {}"
    using cinv_disjoint(1,5) [OF inv] by (auto simp: nodup_union)
  have "rep (ctx_read L c1) t" if t: "t \<in> set (ts1 @ ts2)" for t
  proof (rule rep_frame [OF _ fr])
    show "rep (ctx_read L c) t" using fo t by (auto simp: forest_def)
    show "set_mset (node_pages t) \<inter> (set_mset (node_pages u) \<union> allocable c) = {}"
      using dis node_pages_subset_fpages [OF t] by auto
  qed
  then have "\<forall>t\<in>set ?us. rep (ctx_read L c1) t" using u' by (auto simp: forest_def)
  then have rd: "\<forall>j\<in>set (map gid ?us). ctx_read L c1 j \<noteq> None" using rep_read by fastforce
  have "length (map gid ?us) = Suc (length (ks1 @ ks2))" "length ks1 < length (map gid ?us)"
    using len by auto
  then obtain ks' ids' c2 where
      reb: "rebalance L c1 (length ks1) (ks1 @ ks2) (map gid ?us) = Some ((ks', ids'), c2)" "room c2 (Suc k)"
    by (rule rebalance_total [OF _ _ rd r1])
  obtain q c3 where "replace_node c2 scratch p (Internal ks' ids') = Some (q, c3)" "room c3 k"
    by (rule replace_node_total [OF reb(2)])
  then show ?thesis using reb(1) by blast
qed

lemma delete_rec_total:
  shows "forest L c h [] [t] \<Longrightarrow> cinv c (node_pages t + N) (epages (entries t) + V) \<Longrightarrow>
    room c (2 * Suc h + k) \<Longrightarrow>
    \<exists>q removed c'. delete_rec L key c (gid t) = Some ((q, removed), c') \<and> room c' k"
proof (induction h arbitrary: t N V k rule: less_induct)
  case (less h)
  from less.prems(1) show ?case
  proof (cases rule: gnode_cases)
    case (leaf p kvs)
    then show ?thesis
      using delete_leaf_total [of L c p kvs k key] less.prems(1) room_mono [OF less.prems(3), of "Suc k"] by simp
  next
    case (node h' p ks ts)
    obtain ks1 ks2 ts1 u ts2 where sp: "ks = ks1 @ ks2" "ts = ts1 @ u # ts2"
        "length ts1 = length ks1" "length ts2 = length ks2" "child_index ks key = length ks1"
        and at: "get_at (map gid ts) (length ks1) = Some (gid u)"
          "\<And>nc. set_at (map gid ts) (length ks1) nc = Some (map gid ts1 @ nc # map gid ts2)"
        and fu: "forest L c h' [] [u]"
        and inv: "cinv c (node_pages u + (fpages ts1 + fpages ts2 + add_mset p N))
          (epages (entries u) + (vpages ts1 + vpages ts2 + V))"
      by (rule descend_case [OF node(4) less.prems(2) [unfolded node(2)], of key]) blast
    have "room c (2 * Suc h' + Suc (Suc k))" using less.prems(3) node(1) by (simp add: ac_simps)
    then obtain nc rem c1 where rec: "delete_rec L key c (gid u) = Some ((nc, rem), c1)"
        and r1: "room c1 (Suc (Suc k))"
      using less.IH [OF _ fu inv] node(1) by blast
    show ?thesis
    proof (cases rem)
      case False
      then show ?thesis
        using rec r1 node at sp(5) room_mono [OF r1, of k] by (simp add: delete_rec.simps [of L key c p] Let_def ex_bool_eq)
    next
      case True
      obtain u' where u': "gid u' = nc" "forest L c1 h' [] [u']" "frame (set_mset (node_pages u)) c c1"
        using delete_rec_ok [OF fu inv rec] True by (auto simp: shrunk_def)
      from delete_node_total [OF node(4) [unfolded sp(1,2)] sp(3,4) inv u'(2,3) r1, of "is_scratch c p" p]
      obtain ks' ids' c2 q c3 where
          "rebalance L c1 (length ks1) ks (map gid (ts1 @ u' # ts2)) = Some ((ks', ids'), c2)"
          "replace_node c2 (is_scratch c p) p (Internal ks' ids') = Some (q, c3)" "room c3 k"
        using sp(1) by blast
      then show ?thesis
        using rec True node at sp(5) u'(1) by (simp add: delete_rec.simps [of L key c p] Let_def ex_bool_eq)
    qed
  qed
qed

lemma finalize_root_total:
  "forest L c h [] [t] \<Longrightarrow> cinv c (node_pages t) (epages (entries t) + K) \<Longrightarrow> room c k \<Longrightarrow>
   \<exists>r c'. finalize_root L c (gid t) = Some (r, c') \<and> room c' k"
proof (induction h arbitrary: t c rule: less_induct)
  case (less h)
  from less.prems(1) show ?case
  proof (cases rule: gnode_cases)
    case (leaf p kvs)
    then show ?thesis
      using less.prems by (auto simp: finalize_root.simps [of L c p] forest_GLeaf intro: room_retire)
  next
    case (node h' p ks ts)
    show ?thesis
    proof (cases "ks = [] \<and> length ts = 1")
      case False
      then show ?thesis using less.prems(3) node by (auto simp: finalize_root.simps [of L c p])
    next
      case True
      then obtain u where ts: "ts = [u]" "ks = []" by (cases ts) auto
      have inv: "cinv c (add_mset p (node_pages u)) (epages (entries u) + K)"
        using less.prems(2) node ts by (simp add: entries_GNode)
      have ne: "p \<notin># node_pages u" by (rule cinv_add_not_in [OF inv])
      have fu: "forest L (retire c p) h' [] [u]"
        by (rule forest_other_reads [of L c]) (use node ts ne in \<open>auto intro: ctx_read_retire\<close>)
      have "\<exists>r c'. finalize_root L (retire c p) (gid u) = Some (r, c') \<and> room c' k"
        by (rule less.IH [OF _ fu cinv_retire [OF inv] room_retire [OF less.prems(3)]]) (use node in simp)
      then show ?thesis using node ts by (simp add: finalize_root.simps [of L c p])
    qed
  qed
qed

lemma btree_delete_total:
  assumes wf: "wf_tree L c ot" and inv: "cinv c (tnodes ot) (tvals ot + K)"
    and room: "room c (delete_pages ot + k)"
  shows "\<exists>r' existed c'. btree_delete L c (root_of ot) key = Some ((r', existed), c') \<and> room c' k"
proof (cases ot)
  case None
  then show ?thesis using room by (simp add: btree_delete_def delete_pages_def ex_bool_eq)
next
  case (Some t)
  then obtain h where h: "forest L c h [] [t]" using wf by auto
  have inv': "cinv c (node_pages t + {#}) (epages (entries t) + K)"
    using inv Some by (simp add: tvals_def)
  have "height t = h" using h shape_height by (simp add: forest_def)
  then have "room c (2 * Suc h + k)" using room Some by (simp add: delete_pages_def)
  then obtain q removed c1 where rec: "delete_rec L key c (gid t) = Some ((q, removed), c1)" "room c1 k"
    using delete_rec_total [OF h inv'] by blast
  have sh: "shrunk L h key t {#} K c q removed c1" by (rule delete_rec_ok [OF h inv' rec(1)])
  have "\<exists>t'. gid t' = q \<and> forest L c1 h [] [t'] \<and> cinv c1 (node_pages t') (epages (entries t') + K)"
  proof (cases removed)
    case True
    then show ?thesis using sh by (auto simp: shrunk_def)
  next
    case False
    then show ?thesis using sh h inv' by (intro exI [of _ t]) (auto simp: shrunk_def)
  qed
  then obtain r c' where "finalize_root L c1 q = Some (r, c')" "room c' k"
    using finalize_root_total [OF _ _ rec(2)] by blast
  then show ?thesis using Some rec(1) by (simp add: btree_delete_def)
qed

end
