(* ===== verification/Txn.thy ===== *)
theory Txn
  imports BTree_Total
begin

text \<open>
  src/storage/txn.rs: the environment, snapshot readers and the single writer.

  The environment and the write transaction are records with the source's fields; what the
  source shares behind a lock (the committed meta page, the reader registry, the file) is
  part of the environment, so an operation of a transaction takes and gives back both. The
  mutex of the writer is the flag \<open>e_writer\<close>: \<open>begin_write\<close> blocks while it is set, and
  a transaction clears it when it ends. A panic is None.
\<close>

section \<open>State\<close>

record environment =
  e_pager :: pager
  e_committed :: meta
  e_writer :: bool
  e_readers :: "u64 list"

record read_txn =
  r_root :: "page_id option"
  r_txn_id :: u64

record write_txn =
  w_base_txn_id :: u64
  w_root :: "page_id option"
  w_next_page :: page_id
  w_overlay :: overlay
  w_free_list :: "(u64 \<times> page_id) list"
  w_obsolete :: "page_id list"
  w_scratch_pool :: "page_id list"
  w_watermark :: u64

section \<open>Environment\<close>

definition open_env :: "lib \<Rightarrow> nat \<Rightarrow> bool list \<Rightarrow> bytes list option \<Rightarrow> (io_error + environment) option" where
  "open_env L lim syncs existing =
     map_option (map_sum id (\<lambda>(p, m). \<lparr>e_pager = p, e_committed = m, e_writer = False, e_readers = []\<rparr>))
       (open_pager L lim syncs existing)"

text \<open>\<open>begin_read\<close> copies the committed meta page, then registers the copy's transaction id.\<close>

definition register_reader :: "environment \<Rightarrow> meta \<Rightarrow> read_txn \<times> environment" where
  "register_reader env m =
     (\<lparr>r_root = root m, r_txn_id = txn_id m\<rparr>, env\<lparr>e_readers := e_readers env @ [txn_id m]\<rparr>)"

definition begin_read :: "environment \<Rightarrow> read_txn \<times> environment" where
  "begin_read env = register_reader env (e_committed env)"

definition oldest_reader_txn_id :: "environment \<Rightarrow> u64 option" where
  "oldest_reader_txn_id env =
     (if e_readers env = [] then None else Some (Min (set (e_readers env))))"

definition begin_write :: "lib \<Rightarrow> environment \<Rightarrow> (write_txn \<times> environment) option" where
  "begin_write L env =
     (if e_writer env then None
      else do {
        let m = e_committed env;
        free_list \<leftarrow> load L (e_pager env) (free_list_head m);
        Some (\<lparr>w_base_txn_id = txn_id m, w_root = root m, w_next_page = next_page m,
               w_overlay = [], w_free_list = free_list, w_obsolete = [], w_scratch_pool = [],
               w_watermark = (case oldest_reader_txn_id env of None \<Rightarrow> u64_max | Some t \<Rightarrow> t)\<rparr>,
              env\<lparr>e_writer := True\<rparr>) })"

section \<open>Read transactions\<close>

definition read_get :: "lib \<Rightarrow> environment \<Rightarrow> read_txn \<Rightarrow> bytes \<Rightarrow> bytes option option" where
  "read_get L env r key = btree_get L (e_pager env) [] (r_root r) key"

definition read_range :: "lib \<Rightarrow> environment \<Rightarrow> read_txn \<Rightarrow> bytes option \<Rightarrow> bytes option \<Rightarrow>
    (bytes \<times> bytes) list option" where
  "read_range L env r lo hi = btree_range L (e_pager env) [] (r_root r) lo hi"

definition drop_read :: "environment \<Rightarrow> read_txn \<Rightarrow> environment" where
  "drop_read env r =
     (case position (\<lambda>t. t = r_txn_id r) (e_readers env) of
        None \<Rightarrow> env
      | Some pos \<Rightarrow> env\<lparr>e_readers := swap_remove pos (e_readers env)\<rparr>)"

section \<open>Write transactions\<close>

definition txn_ctx :: "environment \<Rightarrow> write_txn \<Rightarrow> ctx" where
  "txn_ctx env w =
     \<lparr>c_pager = e_pager env, c_overlay = w_overlay w, c_next_page = w_next_page w,
      c_free_list = w_free_list w, c_obsolete = w_obsolete w, c_scratch_pool = w_scratch_pool w,
      c_watermark = w_watermark w\<rparr>"

text \<open>The source's context borrows the fields of the transaction; here they are put back.\<close>

definition put_ctx :: "ctx \<Rightarrow> write_txn \<Rightarrow> write_txn" where
  "put_ctx c w =
     w\<lparr>w_next_page := c_next_page c, w_overlay := c_overlay c, w_free_list := c_free_list c,
       w_obsolete := c_obsolete c, w_scratch_pool := c_scratch_pool c\<rparr>"

definition write_get :: "lib \<Rightarrow> environment \<Rightarrow> write_txn \<Rightarrow> bytes \<Rightarrow> bytes option option" where
  "write_get L env w key = btree_get L (e_pager env) (w_overlay w) (w_root w) key"

definition write_range :: "lib \<Rightarrow> environment \<Rightarrow> write_txn \<Rightarrow> bytes option \<Rightarrow> bytes option \<Rightarrow>
    (bytes \<times> bytes) list option" where
  "write_range L env w lo hi = btree_range L (e_pager env) (w_overlay w) (w_root w) lo hi"

definition write_put :: "lib \<Rightarrow> environment \<Rightarrow> write_txn \<Rightarrow> bytes \<Rightarrow> bytes \<Rightarrow>
    (write_txn \<times> environment) option" where
  "write_put L env w key value =
     do { (i, c) \<leftarrow> btree_put L (txn_ctx env w) (w_root w) key value;
          Some ((put_ctx c w)\<lparr>w_root := Some i\<rparr>, env\<lparr>e_pager := c_pager c\<rparr>) }"

definition write_delete :: "lib \<Rightarrow> environment \<Rightarrow> write_txn \<Rightarrow> bytes \<Rightarrow>
    (bool \<times> write_txn \<times> environment) option" where
  "write_delete L env w key =
     do { ((new_root, existed), c) \<leftarrow> btree_delete L (txn_ctx env w) (w_root w) key;
          Some (existed, (put_ctx c w)\<lparr>w_root := new_root\<rparr>, env\<lparr>e_pager := c_pager c\<rparr>) }"

section \<open>Commit and rollback\<close>

text \<open>
  The staged nodes are written in the order of the list; the source iterates a hash map, and
  the order does not matter to the file (\<open>flush_order\<close> in Store_Props).
\<close>

fun flush :: "lib \<Rightarrow> pager \<Rightarrow> overlay \<Rightarrow> (pager \<times> (io_error + unit)) option" where
  "flush L p [] = Some (p, Inr ())"
| "flush L p ((i, n) # rest) =
     (case encode_node L n of None \<Rightarrow> None
      | Some buf \<Rightarrow>
          (case write_page p i buf of None \<Rightarrow> Some (p, Inl WriteFailed)
           | Some p' \<Rightarrow> flush L p' rest))"

text \<open>What \<open>commit\<close> puts in the free list: leftovers first, then what this transaction freed.\<close>

definition freed_entries :: "u64 \<Rightarrow> write_txn \<Rightarrow> (u64 \<times> page_id) list" where
  "freed_entries new_txn_id w =
     w_free_list w @ map (Pair new_txn_id) (w_obsolete w @ w_scratch_pool w)"

text \<open>
  The first half of \<open>commit\<close>, up to the sync of the data pages: flush the nodes, write the
  free list past \<open>next_page\<close>. The value is the meta page to publish. The transaction id
  must not overflow (a panic in a debug build), nor may the committed page have moved
  (\<open>debug_assert\<close>).
\<close>

definition commit_pages :: "lib \<Rightarrow> environment \<Rightarrow> write_txn \<Rightarrow> (pager \<times> (io_error + meta)) option" where
  "commit_pages L env w =
     (case flush L (e_pager env) (w_overlay w) of None \<Rightarrow> None
      | Some (p, Inl e) \<Rightarrow> Some (p, Inl e)
      | Some (p, Inr _) \<Rightarrow>
          let base = e_committed env in
          if txn_id base \<noteq> w_base_txn_id w \<or> txn_id base = u64_max then None
          else
            (case store L bump p (w_next_page w) (freed_entries (txn_id base + 1) w) of None \<Rightarrow> None
             | Some (p', Inl e) \<Rightarrow> Some (p', Inl e)
             | Some (p', Inr (np, free_head)) \<Rightarrow> Some (p', Inr (advance base (w_root w) np free_head))))"

definition commit :: "lib \<Rightarrow> environment \<Rightarrow> write_txn \<Rightarrow> (environment \<times> (io_error + unit)) option" where
  "commit L env w =
     (let fail = (\<lambda>p e. Some (env\<lparr>e_pager := p, e_writer := False\<rparr>, Inl e)) in
      case commit_pages L env w of None \<Rightarrow> None
      | Some (p, Inl e) \<Rightarrow> fail p e
      | Some (p, Inr new_meta) \<Rightarrow>
          (case sync_data p of
             (p1, Inl e) \<Rightarrow> fail p1 e
           | (p1, Inr _) \<Rightarrow>
               (case commit_meta L p1 new_meta of None \<Rightarrow> None
                | Some (p2, Inl e) \<Rightarrow> fail p2 e
                | Some (p2, Inr _) \<Rightarrow>
                    Some (env\<lparr>e_pager := p2, e_committed := new_meta, e_writer := False\<rparr>, Inr ()))))"

definition rollback :: "environment \<Rightarrow> write_txn \<Rightarrow> environment" where
  "rollback env w = env\<lparr>e_writer := False\<rparr>"

end
