(* ===== verification/Txn_Inv.thy ===== *)
theory Txn_Inv
  imports Txn
begin

text \<open>
  What holds between transactions and while one is under way.

  \<open>committed\<close> says that the pages hold what the committed meta page points to: a
  well-formed tree, a free list, and every page number in one of them at most.
  \<open>reader_ok\<close> says that a reader's tree is intact and out of the writer's reach;
  \<open>writer_ok\<close> that the writer's working tree is well-formed and that it has touched only
  pages that were spare when it began.
\<close>

section \<open>The committed store\<close>

definition tree_pages :: "gtree option \<Rightarrow> page_id multiset" where
  "tree_pages ot = tnodes ot + tvals ot"

definition free_pages :: "(u64 \<times> page_id) list list \<Rightarrow> page_id multiset" where
  "free_pages es = image_mset snd (mset (concat es))"

definition committed :: "lib \<Rightarrow> pager \<Rightarrow> meta \<Rightarrow> gtree option \<Rightarrow> page_id list \<Rightarrow>
    (u64 \<times> page_id) list list \<Rightarrow> bool" where
  "committed L p m ot is es \<longleftrightarrow>
     magic m = MAGIC \<and> root m = root_of ot \<and> wf_tree L (read_ctx p) ot \<and>
     free_list_head m = hd_opt is \<and> free_chain L p is es \<and>
     nodup (tree_pages ot + free_pages es) \<and> set is \<inter> set_mset (free_pages es) = {} \<and>
     2 \<le> next_page m \<and>
     (\<forall>i\<in>set_mset (tree_pages ot + free_pages es) \<union> set is. 2 \<le> i \<and> i < next_page m) \<and>
     (\<forall>(f, i)\<in>set (concat es). f \<le> txn_id m)"

text \<open>The pages below \<open>next_page\<close> that neither the tree nor the free list holds. They are those of
the free lists' own chains, the committed one and the ones before it: no list ever names them.\<close>

definition outside :: "meta \<Rightarrow> gtree option \<Rightarrow> (u64 \<times> page_id) list list \<Rightarrow> page_id multiset" where
  "outside m ot es = mset_set ({2..<next_page m} - set_mset (tree_pages ot + free_pages es))"

definition start_ctx :: "pager \<Rightarrow> meta \<Rightarrow> (u64 \<times> page_id) list \<Rightarrow> u64 \<Rightarrow> ctx" where
  "start_ctx p m fl W = \<lparr>c_pager = p, c_overlay = [], c_next_page = next_page m, c_free_list = fl,
     c_obsolete = [], c_scratch_pool = [], c_watermark = W\<rparr>"

definition spare :: "meta \<Rightarrow> (u64 \<times> page_id) list \<Rightarrow> u64 \<Rightarrow> page_id set" where
  "spare m fl W = {i. \<exists>f. (f, i) \<in> set fl \<and> f \<le> W} \<union> {i. next_page m \<le> i}"

lemma allocable_start [simp]: "allocable (start_ctx p m fl W) = spare m fl W"
  by (auto simp: allocable_def start_ctx_def spare_def)

lemma staged_start [simp]: "staged (start_ctx p m fl W) = {}"
  by (simp add: staged_def start_ctx_def)

lemma start_ctx_simps [simp]: "c_pager (start_ctx p m fl W) = p"
  "c_overlay (start_ctx p m fl W) = []" "c_free_list (start_ctx p m fl W) = fl"
  "c_next_page (start_ctx p m fl W) = next_page m" "c_watermark (start_ctx p m fl W) = W"
  by (simp_all add: start_ctx_def)

lemma read_ctx_simps [simp]: "c_pager (read_ctx p) = p" "c_overlay (read_ctx p) = []"
  by (simp_all add: read_ctx_def)

lemma ctx_read_clean: "c_overlay c = [] \<Longrightarrow> ctx_read L c = ctx_read L (read_ctx (c_pager c))"
  by (simp add: ctx_read_def [abs_def])

lemma wf_tree_clean:
  assumes "c_overlay c = []"
  shows "wf_tree L c ot \<longleftrightarrow> wf_tree L (read_ctx (c_pager c)) ot"
  using wf_tree_ctx_cong [of L c ot "read_ctx (c_pager c)"]
    wf_tree_ctx_cong [of L "read_ctx (c_pager c)" ot c] ctx_read_clean [OF assms, of L]
  by auto

lemma committed_start:
  assumes "committed L p m ot is es"
  shows "cinv (start_ctx p m (concat es) W) (tnodes ot) (tvals ot + outside m ot es)"
    "wf_tree L (start_ctx p m (concat es) W) ot"
proof -
  let ?P = "tree_pages ot + free_pages es"
  have all: "all_pages (start_ctx p m (concat es) W) (tnodes ot) (tvals ot + outside m ot es) = ?P + outside m ot es"
    by (simp add: all_pages_def pool_def start_ctx_def tree_pages_def free_pages_def)
  have "set_mset ?P \<subseteq> {2..<next_page m}" using assms by (auto simp: committed_def)
  then have "set_mset (?P + outside m ot es) = {2..<next_page m}" "nodup (?P + outside m ot es)"
    using assms by (auto simp: outside_def committed_def nodup_union)
  then show "cinv (start_ctx p m (concat es) W) (tnodes ot) (tvals ot + outside m ot es)"
    using assms unfolding cinv_def all by (simp add: committed_def)
  show "wf_tree L (start_ctx p m (concat es) W) ot"
    using assms by (simp add: committed_def wf_tree_clean [of "start_ctx p m (concat es) W"])
qed

lemma spare_free: "i \<in> spare m fl W \<Longrightarrow> i \<in> snd ` set fl \<or> next_page m \<le> i"
  by (force simp: spare_def)

text \<open>No spare page belongs to the committed tree, to the free list's own chain, or to a meta page.\<close>

lemma committed_spare:
  assumes "committed L p m ot is es" "i \<in> spare m (concat es) W"
  shows "i \<notin># tree_pages ot" "i \<notin> set is" "2 \<le> i"
proof -
  have "i \<in># free_pages es \<or> next_page m \<le> i"
    using spare_free [OF assms(2)] by (simp add: free_pages_def)
  then show "i \<notin># tree_pages ot" "i \<notin> set is" "2 \<le> i"
    using assms(1) unfolding committed_def nodup_union by (auto dest: order.trans leD)
qed

section \<open>Reading on another pager\<close>

lemma read_ctx_keeps:
  assumes "keeps p q i" "ctx_read L (read_ctx p) i = Some n"
  shows "ctx_read L (read_ctx q) i = Some n"
  using assms by (auto simp: ctx_read_def read_node_def keeps_def bind_Some_iff)

lemma wf_tree_keeps:
  assumes "wf_tree L (read_ctx p) ot" "\<And>i. i \<in># tree_pages ot \<Longrightarrow> keeps p q i"
  shows "wf_tree L (read_ctx q) ot"
  by (rule wf_tree_ctx_cong [OF assms(1)])
    (use assms(2) in \<open>auto simp: tree_pages_def intro: read_ctx_keeps\<close>)

lemma committed_keeps:
  assumes "committed L p m ot is es" "\<And>i. i \<in># tree_pages ot \<Longrightarrow> keeps p q i"
    "\<And>i. i \<in> set is \<Longrightarrow> keeps p q i"
  shows "committed L q m ot is es"
  using assms wf_tree_keeps [of L p ot q] free_chain_keeps [of L p "is" es q]
  by (simp add: committed_def)

lemma keeps_same_file: "p_file p = p_file q \<Longrightarrow> keeps p q i"
  by (simp add: keeps_def read_page_def)

lemma committed_same_file: "committed L p m ot is es \<Longrightarrow> p_file p = p_file q \<Longrightarrow> committed L q m ot is es"
  by (rule committed_keeps) (auto intro: keeps_same_file)

lemma committed_wrote:
  assumes "committed L p m ot is es" "wrote X p q" "X \<subseteq> spare m (concat es) W"
  shows "committed L q m ot is es"
proof -
  have "keeps p q i" if "i \<in># tree_pages ot \<or> i \<in> set is" for i
    using wrote_keeps [OF assms(2), of i] committed_spare [OF assms(1), of i W] assms(3) that by blast
  then show ?thesis by (intro committed_keeps [OF assms(1)]) auto
qed

section \<open>Readers and the writer\<close>

definition reader_ok :: "lib \<Rightarrow> pager \<Rightarrow> meta \<Rightarrow> (u64 \<times> page_id) list \<Rightarrow> page_id set \<Rightarrow>
    read_txn \<Rightarrow> (bytes \<times> bytes) list \<Rightarrow> bool" where
  "reader_ok L p m fl A r xs \<longleftrightarrow>
     (\<exists>ot. r_root r = root_of ot \<and> wf_tree L (read_ctx p) ot \<and> contents ot = xs \<and>
        r_txn_id r \<le> txn_id m \<and> set_mset (tree_pages ot) \<inter> A = {} \<and>
        (\<forall>i\<in>#tree_pages ot. 2 \<le> i \<and> i < next_page m \<and> (\<forall>f. (f, i) \<in> set fl \<longrightarrow> r_txn_id r < f)))"

definition writer_ok :: "lib \<Rightarrow> environment \<Rightarrow> (u64 \<times> page_id) list \<Rightarrow> page_id multiset \<Rightarrow> write_txn \<Rightarrow>
    gtree option \<Rightarrow> bool" where
  "writer_ok L env fl K w ot \<longleftrightarrow>
     w_base_txn_id w = txn_id (e_committed env) \<and> w_root w = root_of ot \<and>
     wf_tree L (txn_ctx env w) ot \<and> cinv (txn_ctx env w) (tnodes ot) (tvals ot + K) \<and>
     set (w_free_list w) \<subseteq> set fl \<and> next_page (e_committed env) \<le> w_next_page w \<and>
     allocable (txn_ctx env w) \<union> staged (txn_ctx env w) \<subseteq> spare (e_committed env) fl (w_watermark w)"

lemma txn_ctx_simps [simp]:
  "c_pager (txn_ctx env w) = e_pager env" "c_overlay (txn_ctx env w) = w_overlay w"
  "c_next_page (txn_ctx env w) = w_next_page w" "c_free_list (txn_ctx env w) = w_free_list w"
  "c_obsolete (txn_ctx env w) = w_obsolete w" "c_scratch_pool (txn_ctx env w) = w_scratch_pool w"
  "c_watermark (txn_ctx env w) = w_watermark w"
  by (simp_all add: txn_ctx_def)

lemma txn_ctx_put_ctx: "c_watermark c = w_watermark w \<Longrightarrow>
    txn_ctx (env\<lparr>e_pager := c_pager c\<rparr>) ((put_ctx c w)\<lparr>w_root := r\<rparr>) = c"
  by (simp add: txn_ctx_def put_ctx_def)

lemma reader_ok_keeps:
  assumes "reader_ok L p m fl A r xs" "\<And>i. 2 \<le> i \<Longrightarrow> i \<notin> A \<Longrightarrow> keeps p q i"
  shows "reader_ok L q m fl A r xs"
proof -
  obtain ot where ot: "r_root r = root_of ot" "wf_tree L (read_ctx p) ot" "contents ot = xs"
      "r_txn_id r \<le> txn_id m" "set_mset (tree_pages ot) \<inter> A = {}"
      "\<forall>i\<in>#tree_pages ot. 2 \<le> i \<and> i < next_page m \<and> (\<forall>f. (f, i) \<in> set fl \<longrightarrow> r_txn_id r < f)"
    using assms(1) by (auto simp: reader_ok_def)
  have "wf_tree L (read_ctx q) ot"
    by (rule wf_tree_keeps [OF ot(2)]) (use ot(5,6) assms(2) in blast)
  then show ?thesis using ot unfolding reader_ok_def by blast
qed

lemma reader_ok_wrote:
  "reader_ok L p m fl A r xs \<Longrightarrow> wrote X p q \<Longrightarrow> X \<subseteq> A \<Longrightarrow> reader_ok L q m fl A r xs"
  by (rule reader_ok_keeps) (auto intro: wrote_keeps)

lemma reader_ok_get:
  "reader_ok L (e_pager env) m fl A r xs \<Longrightarrow> read_get L env r key = Some (map_of xs key)"
  using btree_get_ok [of L "read_ctx (e_pager env)"]
  by (auto simp: reader_ok_def read_get_def view_def)

lemma reader_ok_range:
  "reader_ok L (e_pager env) m fl A r xs \<Longrightarrow>
     read_range L env r lo hi = Some (filter (\<lambda>(k, v). in_range lo hi k) xs)"
  using btree_range_ok [of L "read_ctx (e_pager env)"]
  by (auto simp: reader_ok_def read_range_def)

text \<open>A reader that begins sees the committed tree, which no running writer can touch.\<close>

lemma begin_read_ok:
  assumes "committed L (e_pager env) (e_committed env) ot is es" "begin_read env = (r, env')"
  shows "reader_ok L (e_pager env) (e_committed env) (concat es) {} r (contents ot)"
    "reader_ok L (e_pager env) (e_committed env) (concat es) (spare (e_committed env) (concat es) W) r (contents ot)"
    "e_readers env' = e_readers env @ [r_txn_id r]"
    "e_pager env' = e_pager env" "e_committed env' = e_committed env" "e_writer env' = e_writer env"
proof -
  have r: "r_root r = root_of ot" "r_txn_id r = txn_id (e_committed env)"
    using assms by (auto simp: begin_read_def register_reader_def committed_def)
  have "(f, i) \<notin> set (concat es)" if "i \<in># tree_pages ot" for f i
  proof
    assume "(f, i) \<in> set (concat es)"
    then have "i \<in># free_pages es" by (force simp: free_pages_def)
    then show False using assms(1) that by (auto simp: committed_def nodup_union)
  qed
  moreover have "set_mset (tree_pages ot) \<inter> spare (e_committed env) (concat es) W = {}"
    using committed_spare(1) [OF assms(1)] by blast
  moreover have "\<forall>i\<in>#tree_pages ot. 2 \<le> i \<and> i < next_page (e_committed env)" "wf_tree L (read_ctx (e_pager env)) ot"
    using assms(1) by (auto simp: committed_def)
  ultimately have ok: "reader_ok L (e_pager env) (e_committed env) (concat es) A r (contents ot)"
    if "A = {} \<or> A = spare (e_committed env) (concat es) W" for A
    using r that unfolding reader_ok_def by (intro exI [of _ ot]) auto
  show "reader_ok L (e_pager env) (e_committed env) (concat es) {} r (contents ot)"
    "reader_ok L (e_pager env) (e_committed env) (concat es) (spare (e_committed env) (concat es) W) r (contents ot)"
    by (simp_all add: ok)
qed (use assms in \<open>auto simp: begin_read_def register_reader_def\<close>)

lemma mset_drop_read:
  assumes "r_txn_id r \<in> set (e_readers env)"
  shows "mset (e_readers env) = add_mset (r_txn_id r) (mset (e_readers (drop_read env r)))"
proof -
  obtain pos where pos: "position (\<lambda>t. t = r_txn_id r) (e_readers env) = Some pos"
    using assms position_None [of "\<lambda>t. t = r_txn_id r" "e_readers env"]
    by (cases "position (\<lambda>t. t = r_txn_id r) (e_readers env)") auto
  from position_Some [OF pos] show ?thesis
    using mset_swap_remove [of pos "e_readers env"] pos by (simp add: drop_read_def)
qed

lemma drop_read_simps [simp]: "e_pager (drop_read env r) = e_pager env"
  "e_committed (drop_read env r) = e_committed env" "e_writer (drop_read env r) = e_writer env"
  by (auto simp: drop_read_def split: option.split)

section \<open>The write transaction\<close>

lemma begin_write_ok:
  assumes "committed L (e_pager env) (e_committed env) ot is es" "\<not> e_writer env"
  obtains w where "begin_write L env = Some (w, env\<lparr>e_writer := True\<rparr>)"
    "writer_ok L (env\<lparr>e_writer := True\<rparr>) (concat es) (outside (e_committed env) ot es) w ot"
    "w_watermark w = (case oldest_reader_txn_id env of None \<Rightarrow> u64_max | Some t \<Rightarrow> t)"
proof -
  let ?m = "e_committed env"
  let ?W = "case oldest_reader_txn_id env of None \<Rightarrow> u64_max | Some t \<Rightarrow> t"
  let ?w = "\<lparr>w_base_txn_id = txn_id ?m, w_root = root ?m, w_next_page = next_page ?m,
     w_overlay = [], w_free_list = concat es, w_obsolete = [], w_scratch_pool = [], w_watermark = ?W\<rparr>"
  let ?env = "env\<lparr>e_writer := True\<rparr>"
  have "load L (e_pager env) (free_list_head ?m) = Some (concat es)"
    using assms(1) load_ok by (simp add: committed_def)
  then have bw: "begin_write L env = Some (?w, ?env)"
    using assms(2) by (simp add: begin_write_def Let_def)
  have c: "txn_ctx ?env ?w = start_ctx (e_pager env) ?m (concat es) ?W"
    by (simp add: txn_ctx_def start_ctx_def)
  have "writer_ok L ?env (concat es) (outside ?m ot es) ?w ot"
    using committed_start [OF assms(1), of ?W] assms(1)
    by (simp add: writer_ok_def c) (simp add: committed_def)
  then show thesis using that [OF bw] by simp
qed

text \<open>The watermark keeps the writer off every registered reader's pages.\<close>

lemma reader_ok_begin_write:
  assumes "reader_ok L p m fl {} r xs" "r_txn_id r \<in> set (e_readers env)"
  shows "reader_ok L p m fl (spare m fl (case oldest_reader_txn_id env of None \<Rightarrow> u64_max | Some t \<Rightarrow> t)) r xs"
proof -
  let ?W = "case oldest_reader_txn_id env of None \<Rightarrow> u64_max | Some t \<Rightarrow> t"
  have W: "?W \<le> r_txn_id r"
    using assms(2) by (auto simp: oldest_reader_txn_id_def)
  obtain ot where ot: "r_root r = root_of ot" "wf_tree L (read_ctx p) ot" "contents ot = xs"
      "r_txn_id r \<le> txn_id m"
      "\<forall>i\<in>#tree_pages ot. 2 \<le> i \<and> i < next_page m \<and> (\<forall>f. (f, i) \<in> set fl \<longrightarrow> r_txn_id r < f)"
    using assms(1) by (auto simp: reader_ok_def)
  have "i \<notin> spare m fl ?W" if i: "i \<in># tree_pages ot" for i
  proof
    assume "i \<in> spare m fl ?W"
    then obtain f where "(f, i) \<in> set fl \<and> f \<le> ?W \<or> next_page m \<le> i" by (auto simp: spare_def)
    then show False using ot(5) i W by (meson leD order.trans)
  qed
  then show ?thesis using ot unfolding reader_ok_def by blast
qed

lemma write_get_ok: "writer_ok L env fl K w ot \<Longrightarrow> write_get L env w key = Some (map_of (contents ot) key)"
  using btree_get_ok [of L "txn_ctx env w" ot] by (simp add: writer_ok_def write_get_def view_def)

lemma write_range_ok: "writer_ok L env fl K w ot \<Longrightarrow>
    write_range L env w lo hi = Some (filter (\<lambda>(k, v). in_range lo hi k) (contents ot))"
  using btree_range_ok [of L "txn_ctx env w" ot] by (simp add: writer_ok_def write_range_def)

text \<open>A step on the tree, seen from the transaction.\<close>

lemma writer_ok_step:
  assumes w: "writer_ok L env fl K w ot" and st: "tstep L K (txn_ctx env w) ot c ot'"
  defines "env' \<equiv> env\<lparr>e_pager := c_pager c\<rparr>" and "w' \<equiv> (put_ctx c w)\<lparr>w_root := root_of ot'\<rparr>"
  shows "writer_ok L env' fl K w' ot'" "w_watermark w' = w_watermark w"
    "wrote (spare (e_committed env) fl (w_watermark w)) (e_pager env) (e_pager env')"
proof -
  have fr: "frame (set_mset (tnodes ot)) (txn_ctx env w) c" using st by (simp add: tstep_def)
  then have wm: "c_watermark c = w_watermark w" by (simp add: frame_def)
  have c: "txn_ctx env' w' = c" unfolding env'_def w'_def by (rule txn_ctx_put_ctx [OF wm])
  show ww: "w_watermark w' = w_watermark w" by (simp add: w'_def put_ctx_def)
  let ?S = "spare (e_committed env) fl (w_watermark w)"
  have own: "owned (set_mset (tnodes ot)) (txn_ctx env w) \<subseteq> ?S"
    using w by (auto simp: owned_def writer_ok_def)
  have "allocable c \<union> staged c \<subseteq> ?S"
    using fr own w by (auto simp: frame_def owned_def writer_ok_def)
  moreover have "set (c_free_list c) \<subseteq> set fl" "next_page (e_committed env) \<le> c_next_page c"
    using fr w by (auto simp: frame_def writer_ok_def)
  ultimately show "writer_ok L env' fl K w' ot'"
    using st w by (simp add: writer_ok_def c ww) (simp add: env'_def w'_def put_ctx_def tstep_def)
  show "wrote ?S (e_pager env) (e_pager env')"
    using fr own by (auto simp: frame_def env'_def intro: wrote_mono)
qed

lemma write_put_ok:
  assumes L: "lib_ok L" and w: "writer_ok L env fl K w ot" and r: "write_put L env w key value = Some (w', env')"
  obtains ot' where "writer_ok L env' fl K w' ot'" "contents ot' = ins key value (contents ot)"
    "wrote (spare (e_committed env) fl (w_watermark w)) (e_pager env) (e_pager env')"
    "env' = env\<lparr>e_pager := e_pager env'\<rparr>" "w_watermark w' = w_watermark w"
    "theight ot' \<le> Suc (theight ot)" "lib_sizes L \<and> length key \<le> KEY_CAP \<and> tfit ot \<longrightarrow> tfit ot'"
proof -
  from r w obtain i c where p: "btree_put L (txn_ctx env w) (root_of ot) key value = Some (i, c)"
      and eq: "w' = (put_ctx c w)\<lparr>w_root := Some i\<rparr>" "env' = env\<lparr>e_pager := c_pager c\<rparr>"
    by (auto simp: write_put_def bind_Some_iff writer_ok_def)
  obtain t where t: "gid t = i" "tstep L K (txn_ctx env w) ot c (Some t)"
      "contents (Some t) = ins key value (contents ot)" "height t \<le> Suc (theight ot)" "lib_sizes L \<and> length key \<le> KEY_CAP \<and> tfit ot \<longrightarrow> fit t"
    using btree_put_ok [OF L _ _ p] w by (auto simp: writer_ok_def)
  show thesis
    using that [of "Some t"] writer_ok_step [OF w t(2)] t(1,3,4,5) eq by simp
qed

lemma write_delete_ok:
  assumes w: "writer_ok L env fl K w ot" and r: "write_delete L env w key = Some (existed, w', env')"
  obtains ot' where "writer_ok L env' fl K w' ot'" "contents ot' = del key (contents ot)"
    "existed = (map_of (contents ot) key \<noteq> None)"
    "wrote (spare (e_committed env) fl (w_watermark w)) (e_pager env) (e_pager env')"
    "env' = env\<lparr>e_pager := e_pager env'\<rparr>" "w_watermark w' = w_watermark w"
    "theight ot' \<le> theight ot" "lib_sizes L \<and> tfit ot \<longrightarrow> tfit ot'"
proof -
  from r w obtain i c where p: "btree_delete L (txn_ctx env w) (root_of ot) key = Some ((i, existed), c)"
      and eq: "w' = (put_ctx c w)\<lparr>w_root := i\<rparr>" "env' = env\<lparr>e_pager := c_pager c\<rparr>"
    by (auto simp: write_delete_def bind_Some_iff writer_ok_def)
  obtain ot' where t: "i = root_of ot'" "tstep L K (txn_ctx env w) ot c ot'"
      "contents ot' = del key (contents ot)" "existed = (view ot key \<noteq> None)"
      "theight ot' \<le> theight ot" "lib_sizes L \<and> tfit ot \<longrightarrow> tfit ot'"
    using btree_delete_ok [OF _ _ p] w by (auto simp: writer_ok_def)
  show thesis
    using that [of ot'] writer_ok_step [OF w t(2)] t(1,3-6) eq by (simp add: view_def)
qed

end
