(* ===== verification/Txn_Commit.thy ===== *)
theory Txn_Commit
  imports Txn_Inv
begin

text \<open>
  Commit: after the flush and the free list the new meta page describes the working tree
  (\<open>commit_pages_ok\<close>); publishing it makes it the committed store; every way to fail leaves
  the committed store and all readers as they were.
\<close>

section \<open>Flushing the staged nodes\<close>

lemma flush_wrote: "flush L p ov = Some (p', r) \<Longrightarrow> wrote (fst ` set ov) p p'"
proof (induction L p ov rule: flush.induct)
  case (2 L p i n rest)
  then obtain buf where buf: "encode_node L n = Some buf" by (auto split: option.splits)
  show ?case
  proof (cases "write_page p i buf")
    case None
    then show ?thesis using 2(2) buf by simp
  next
    case (Some p1)
    then have "wrote (fst ` set rest) p1 p'" using 2 buf by simp
    with wrote_write [OF Some] have "wrote ({i} \<union> fst ` set rest) p p'" by (rule wrote_trans)
    then show ?thesis by simp
  qed
qed simp

text \<open>A flush that succeeds, in one go: the buffers staged, and what they make of the file.\<close>

definition staged_write :: "lib \<Rightarrow> page_id \<times> node \<Rightarrow> page_id \<times> bytes" where
  "staged_write L e = (fst e, the (encode_node L (snd e)))"

lemma flush_Some:
  "flush L p ov = Some (p', Inr u) \<longleftrightarrow>
     (\<forall>(i, n)\<in>set ov. encode_node L n \<noteq> None \<and> unat i < p_limit p) \<and>
     p' = p\<lparr>p_file := fold (\<lambda>e f. file_write f (fst e) (snd (staged_write L e))) ov (p_file p),
            p_pending := p_pending p @ map (staged_write L) ov\<rparr>"
  by (induction L p ov rule: flush.induct)
    (auto simp: write_page_def staged_write_def split: option.splits if_splits)

lemma flush_reads:
  assumes L: "lib_ok L"
  shows "flush L p ov = Some (p', Inr u) \<Longrightarrow> distinct (map fst ov) \<Longrightarrow> (i, n) \<in> set ov \<Longrightarrow>
    ctx_read L (read_ctx p') i = Some n"
proof (induction ov arbitrary: p)
  case (Cons jm rest)
  obtain j m where jm: "jm = (j, m)" by fastforce
  from Cons.prems(1) obtain buf p1 where buf: "encode_node L m = Some buf"
      and w: "write_page p j buf = Some p1" and rest: "flush L p1 rest = Some (p', Inr u)"
    by (auto simp: jm split: option.splits)
  show ?case
  proof (cases "(i, n) = (j, m)")
    case True
    have "ctx_read L (read_ctx p1) j = Some m"
      using read_page_write_same [OF w] decode_encode_laws(2) [OF L buf [unfolded encode_node_def]]
      by (simp add: ctx_read_def read_node_def)
    moreover have "keeps p1 p' j"
      by (rule wrote_keeps [OF flush_wrote [OF rest]]) (use Cons.prems(2) jm in auto)
    ultimately show ?thesis using True read_ctx_keeps by auto
  next
    case False
    then show ?thesis using Cons jm rest by auto
  qed
qed simp

lemma wf_tree_flush:
  assumes L: "lib_ok L" and wf: "wf_tree L c ot" and inv: "cinv c (tnodes ot) (tvals ot + K)"
    and f: "flush L (c_pager c) (c_overlay c) = Some (p', Inr u)"
  shows "wf_tree L (read_ctx p') ot"
proof (rule wf_tree_ctx_cong [OF wf])
  have stg: "fst ` set (c_overlay c) = staged c" by (simp add: staged_def dom_map_of_conv_image_fst)
  have dis: "distinct (map fst (c_overlay c))" using inv by (simp add: cinv_def)
  fix i
  show "ctx_read L (read_ctx p') i = Some n" if n: "ctx_read L c i = Some n" for n
  proof (cases "map_of (c_overlay c) i")
    case None
    then have "i \<notin> fst ` set (c_overlay c)" by (simp add: map_of_eq_None_iff)
    then have "keeps (c_pager c) p' i" by (rule wrote_keeps [OF flush_wrote [OF f]])
    moreover have "ctx_read L (read_ctx (c_pager c)) i = Some n"
      using n None by (simp add: ctx_read_def read_node_def)
    ultimately show ?thesis by (rule read_ctx_keeps)
  next
    case (Some m)
    then have "(i, n) \<in> set (c_overlay c)"
      using n by (simp add: ctx_read_def read_node_def map_of_SomeD)
    then show ?thesis by (rule flush_reads [OF L f dis])
  qed
  show "keeps (c_pager c) (c_pager (read_ctx p')) i" if "i \<in># tvals ot"
  proof -
    have "i \<notin> staged c" by (rule cinv_V_not_staged [OF inv]) (use that in simp)
    then show ?thesis using wrote_keeps [OF flush_wrote [OF f]] stg by simp
  qed
qed

section \<open>The pages of a commit\<close>

lemma commit_pages_wrote:
  assumes w: "writer_ok L env fl K w ot" and c: "commit_pages L env w = Some (p', r)"
  shows "wrote (spare (e_committed env) fl (w_watermark w)) (e_pager env) p'"
proof -
  let ?S = "spare (e_committed env) fl (w_watermark w)"
  have "fst ` set (w_overlay w) = staged (txn_ctx env w)"
    by (simp add: staged_def dom_map_of_conv_image_fst)
  then have ov: "fst ` set (w_overlay w) \<subseteq> ?S" using w by (auto simp: writer_ok_def)
  have np: "{i. w_next_page w \<le> i} \<subseteq> ?S" using w by (auto simp: writer_ok_def spare_def)
  from c obtain p r1 where f: "flush L (e_pager env) (w_overlay w) = Some (p, r1)"
    by (auto simp: commit_pages_def split: option.splits)
  have f': "wrote ?S (e_pager env) p" by (rule wrote_mono [OF flush_wrote [OF f] ov])
  show ?thesis
  proof (cases r1)
    case (Inl e)
    then show ?thesis using c f f' by (simp add: commit_pages_def)
  next
    case (Inr u)
    let ?t = "txn_id (e_committed env)"
    obtain r2 where st: "store L bump p (w_next_page w) (freed_entries (?t + 1) w) = Some (p', r2)"
      using c f Inr by (auto simp: commit_pages_def Let_def split: option.splits sum.splits if_splits prod.splits)
    have "wrote ?S p p'" by (rule wrote_mono [OF bump_source.store_wrote [OF TrueI st] np])
    from wrote_trans [OF f' this] show ?thesis by simp
  qed
qed

lemma free_pages_mset: "mset (concat es) = mset fl \<Longrightarrow> free_pages es = image_mset snd (mset fl)"
  by (simp add: free_pages_def)

text \<open>The free list a commit stores: the pages of the transaction that its tree does not use, none
tagged later than the commit.\<close>

definition freed_chunks :: "64 word \<Rightarrow> write_txn \<Rightarrow> (64 word \<times> 64 word) list list" where
  "freed_chunks t w = rev (chunks FREELIST_CHUNK (freed_entries t w))"

lemma freed_chunks_entries: "mset (concat (freed_chunks t w)) = mset (freed_entries t w)"
  by (simp add: freed_chunks_def mset_concat_rev FREELIST_CHUNK_def concat_chunks)

lemma freed_chunks_pages:
  "tree_pages ot + free_pages (freed_chunks t w) + K = all_pages (txn_ctx env w) (tnodes ot) (tvals ot + K)"
proof -
  have "image_mset snd (mset (freed_entries t w)) = pool (txn_ctx env w) + mset (w_obsolete w)"
    by (simp add: freed_entries_def pool_def multiset.map_comp o_def ac_simps)
  then have "free_pages (freed_chunks t w) = pool (txn_ctx env w) + mset (w_obsolete w)"
    using free_pages_mset [OF freed_chunks_entries] by (rule trans [rotated])
  then show ?thesis by (simp add: all_pages_def tree_pages_def ac_simps)
qed

lemma freed_chunks_tags:
  assumes co: "committed L (e_pager env) (e_committed env) ot0 is0 es0" and w: "writer_ok L env (concat es0) K w ot"
    and t: "txn_id (e_committed env) \<noteq> u64_max"
  shows "\<forall>(f, i)\<in>set (concat (freed_chunks (txn_id (e_committed env) + 1) w)). f \<le> txn_id (e_committed env) + 1"
proof -
  have "\<forall>(f, i)\<in>set (w_free_list w). f \<le> txn_id (e_committed env)"
    using w co by (fastforce simp: writer_ok_def committed_def)
  then have "\<forall>(f, i)\<in>set (freed_entries (txn_id (e_committed env) + 1) w). f \<le> txn_id (e_committed env) + 1"
    using less_plus_one [OF t] by (auto simp: freed_entries_def)
  then show ?thesis using freed_chunks_entries by (metis set_mset_mset)
qed

lemma outside_cover:
  assumes nod: "nodup (tree_pages ot + free_pages es + K)"
    and cover: "set_mset (tree_pages ot + free_pages es + K) = {2..<n}" and le: "2 \<le> n" "n \<le> next_page m"
  shows "outside m ot es = mset_set {n..<next_page m} + K"
proof -
  let ?A = "set_mset (tree_pages ot + free_pages es)"
  have u: "?A \<union> set_mset K = {2..<n}" using cover by simp
  have d: "?A \<inter> set_mset K = {}" using nod by (simp add: nodup_union)
  have "{2..<next_page m} = {2..<n} \<union> {n..<next_page m}" by (rule pages_split [OF le, symmetric])
  moreover have "{2..<n} \<inter> {n..<next_page m} = {}" by auto
  ultimately have "{2..<next_page m} - ?A = {n..<next_page m} \<union> set_mset K" "{n..<next_page m} \<inter> set_mset K = {}"
    using u d by blast+
  moreover have "mset_set (set_mset K) = K" using nod by (simp add: nodup_union mset_set_nodup)
  ultimately show ?thesis by (simp add: outside_def mset_set_Union)
qed

lemma commit_pages_ok:
  assumes L: "lib_ok L" and co: "committed L (e_pager env) (e_committed env) ot0 is0 es0"
    and w: "writer_ok L env (concat es0) K w ot" and c: "commit_pages L env w = Some (p', Inr m')"
  obtains "is" es where "committed L p' m' ot is es"
    "txn_id m' = txn_id (e_committed env) + 1" "txn_id (e_committed env) \<noteq> u64_max"
    "next_page (e_committed env) \<le> next_page m'"
    "mset (concat es) = mset (freed_entries (txn_id m') w)" "outside m' ot es = mset_set (set is) + K"
proof -
  let ?m = "e_committed env"
  let ?t = "txn_id ?m + 1" and ?c = "txn_ctx env w"
  let ?es = "freed_chunks ?t w"
  from c obtain p np head where f: "flush L (e_pager env) (w_overlay w) = Some (p, Inr ())"
      and st: "store L bump p (w_next_page w) (freed_entries ?t w) = Some (p', Inr (np, head))"
      and m': "m' = advance ?m (w_root w) np head" and t: "txn_id ?m \<noteq> u64_max"
    by (auto simp: commit_pages_def Let_def split: option.splits sum.splits if_splits prod.splits)
  have inv: "cinv ?c (tnodes ot) (tvals ot + K)" and wf: "wf_tree L ?c ot" and root: "w_root w = root_of ot"
    using w by (auto simp: writer_ok_def)
  obtain "is" where ch: "head = hd_opt is" "free_chain L p' is ?es"
      "set is \<subseteq> {i. w_next_page w \<le> i}" "{i. np \<le> i} = {i. w_next_page w \<le> i} - set is"
      "\<forall>i. i \<notin> {i. w_next_page w \<le> i} \<longrightarrow> keeps p p' i"
    using bump_source.store_ok [OF L TrueI st] unfolding freed_chunks_def by blast
  have npw: "w_next_page w \<le> np" using ch(4) by auto
  have ids: "set is = {w_next_page w..<np}" using ch(3,4) by (auto simp: set_eq_iff simp flip: not_le)
  then have isn: "w_next_page w \<le> i \<and> i < np" if "i \<in> set is" for i using that by simp
  have two: "2 \<le> w_next_page w" and nodK: "nodup (tree_pages ot + free_pages ?es + K)"
    and cover: "set_mset (tree_pages ot + free_pages ?es + K) = {2..<w_next_page w}"
    using inv unfolding freed_chunks_pages [of ot ?t w K env] by (simp_all add: cinv_def)
  have below: "2 \<le> i \<and> i < w_next_page w" if "i \<in># tree_pages ot + free_pages ?es" for i
    using that cover by auto
  have nod: "nodup (tree_pages ot + free_pages ?es)" using nodK by (simp add: nodup_union)
  have out: "outside m' ot ?es = mset_set (set is) + K"
    unfolding ids using outside_cover [OF nodK cover two, of m'] npw by (simp add: m' advance_def)
  have "wf_tree L (read_ctx p) ot" by (rule wf_tree_flush [OF L wf inv]) (use f in simp)
  then have wf': "wf_tree L (read_ctx p') ot"
    by (rule wf_tree_keeps) (use ch(5) below in \<open>auto simp: not_le\<close>)
  have "committed L p' m' ot is ?es"
    unfolding committed_def
  proof (intro conjI)
    show "magic m' = MAGIC" using co by (simp add: m' advance_def committed_def)
    show "root m' = root_of ot" "free_list_head m' = hd_opt is" using root ch(1) by (simp_all add: m' advance_def)
    show "set is \<inter> set_mset (free_pages ?es) = {}" using below isn by (fastforce simp: not_le)
    show "2 \<le> next_page m'" using two npw by (simp add: m' advance_def)
    have "2 \<le> i \<and> i < np" if "i \<in># tree_pages ot + free_pages ?es" for i
      using below [OF that] npw order.strict_trans2 by blast
    moreover have "2 \<le> i \<and> i < np" if "i \<in> set is" for i using isn [OF that] order.trans [OF two] by blast
    ultimately show "\<forall>i\<in>set_mset (tree_pages ot + free_pages ?es) \<union> set is. 2 \<le> i \<and> i < next_page m'"
      unfolding m' advance_def by auto
    show "\<forall>(f, i)\<in>set (concat ?es). f \<le> txn_id m'" using freed_chunks_tags [OF co w t] by (simp add: m' advance_def)
  qed (use wf' ch(2) nod in auto)
  moreover have "next_page ?m \<le> next_page m'" using w npw by (auto simp: m' advance_def writer_ok_def)
  ultimately show thesis using that freed_chunks_entries t out by (simp add: m' advance_def)
qed

section \<open>Publishing\<close>

definition slot_ok :: "pager \<Rightarrow> bool" where
  "slot_ok p \<longleftrightarrow> active_meta_slot p = 0 \<or> active_meta_slot p = 1"

lemma sync_keeps: "sync_data p = (p', r) \<Longrightarrow> p_file p' = p_file p \<and> active_meta_slot p' = active_meta_slot p"
  by (metis fst_conv p_file_sync(1,3))

lemma not_meta_page: "2 \<le> (i :: page_id) \<Longrightarrow> i \<noteq> 0 \<and> i \<noteq> 1"
  by (auto simp: word_le_nat_alt)

lemma commit_meta_keeps:
  assumes "commit_meta L p m = Some (p', r)" "slot_ok p"
  shows "slot_ok p'" "2 \<le> i \<Longrightarrow> keeps p p' i"
proof -
  let ?s = "1 - active_meta_slot p"
  have s: "?s = 0 \<or> ?s = 1" using assms(2) by (auto simp: slot_ok_def)
  from assms(1) obtain buf where buf: "encode_meta L m = Some buf"
    by (auto simp: commit_meta_def write_meta_slot_def Let_def split: option.splits)
  have "slot_ok p' \<and> (2 \<le> i \<longrightarrow> keeps p p' i)"
  proof (cases "write_page p ?s buf")
    case None
    then show ?thesis using assms buf by (simp add: commit_meta_def write_meta_slot_def)
  next
    case (Some p1)
    obtain p2 r2 where p2: "sync_data p1 = (p2, r2)" by fastforce
    note f = sync_keeps [OF p2]
    have "keeps p p1 i" if "2 \<le> i"
      by (rule keeps_write [OF Some]) (use s not_meta_page [OF that] in auto)
    moreover have "p_file p' = p_file p2" "active_meta_slot p' = active_meta_slot p2 \<or> active_meta_slot p' = ?s"
      using assms(1) buf Some p2
      by (auto simp: commit_meta_def write_meta_slot_def Let_def split: sum.splits)
    ultimately show ?thesis
      using f s assms(2) write_page_fields [OF Some] by (auto simp: slot_ok_def keeps_def read_page_def)
  qed
  then show "slot_ok p'" "2 \<le> i \<Longrightarrow> keeps p p' i" by auto
qed

lemma wrote_slot: "wrote X p q \<Longrightarrow> slot_ok p \<Longrightarrow> slot_ok q"
  by (simp add: slot_ok_def wrote_fields)

text \<open>Whatever happens, a commit leaves alone every page that was not spare.\<close>

lemma commit_keeps:
  assumes w: "writer_ok L env fl K w ot" and s: "slot_ok (e_pager env)" and c: "commit L env w = Some (env', r)"
  shows "slot_ok (e_pager env')" "e_writer env' = False" "e_readers env' = e_readers env"
    "r = Inl e \<Longrightarrow> e_committed env' = e_committed env"
    "2 \<le> i \<Longrightarrow> i \<notin> spare (e_committed env) fl (w_watermark w) \<Longrightarrow> keeps (e_pager env) (e_pager env') i"
proof -
  let ?S = "spare (e_committed env) fl (w_watermark w)"
  from c obtain p r1 where cp: "commit_pages L env w = Some (p, r1)"
    by (auto simp: commit_def Let_def split: option.splits)
  have wr: "wrote ?S (e_pager env) p" by (rule commit_pages_wrote [OF w cp])
  have k: "keeps (e_pager env) p i" if "i \<notin> ?S" for i by (rule wrote_keeps [OF wr that])
  have sp: "slot_ok p" by (rule wrote_slot [OF wr s])
  have "slot_ok (e_pager env') \<and> e_writer env' = False \<and> e_readers env' = e_readers env \<and>
      (r = Inl e \<longrightarrow> e_committed env' = e_committed env) \<and>
      (2 \<le> i \<longrightarrow> i \<notin> ?S \<longrightarrow> keeps (e_pager env) (e_pager env') i)"
  proof (cases r1)
    case (Inl e')
    then show ?thesis using c cp k sp by (auto simp: commit_def)
  next
    case (Inr m')
    obtain p1 r2 where sy: "sync_data p = (p1, r2)" by fastforce
    note f = sync_keeps [OF sy]
    have k1: "keeps (e_pager env) p1 i" if "i \<notin> ?S" for i
      using k [OF that] f by (simp add: keeps_def read_page_def)
    have s1: "slot_ok p1" using sp f by (simp add: slot_ok_def)
    show ?thesis
    proof (cases r2)
      case (Inl e')
      then show ?thesis using c cp Inr sy k1 s1 by (auto simp: commit_def)
    next
      case r2: (Inr u)
      obtain p2 r3 where cm: "commit_meta L p1 m' = Some (p2, r3)"
        using c cp Inr sy r2 by (auto simp: commit_def split: option.splits)
      note ck = commit_meta_keeps [OF cm s1]
      have "keeps (e_pager env) p2 i" if "2 \<le> i" "i \<notin> ?S"
        by (rule keeps_trans [OF k1 [OF that(2)] ck(2) [OF that(1)]])
      then show ?thesis
        using c cp Inr sy r2 cm ck(1) by (auto simp: commit_def split: sum.splits)
    qed
  qed
  then show "slot_ok (e_pager env')" "e_writer env' = False" "e_readers env' = e_readers env"
    "r = Inl e \<Longrightarrow> e_committed env' = e_committed env"
    "2 \<le> i \<Longrightarrow> i \<notin> ?S \<Longrightarrow> keeps (e_pager env) (e_pager env') i" by auto
qed

text \<open>A commit that fails leaves the committed store as it was.\<close>

lemma commit_fail_committed:
  assumes "committed L (e_pager env) (e_committed env) ot0 is0 es0" "slot_ok (e_pager env)"
    "writer_ok L env (concat es0) K w ot" "commit L env w = Some (env', Inl e)"
  shows "committed L (e_pager env') (e_committed env') ot0 is0 es0"
proof -
  note ck = commit_keeps [OF assms(3,2,4)]
  show ?thesis
    unfolding ck(4) [OF refl]
  proof (rule committed_keeps [OF assms(1)]; rule ck(5))
    let ?S = "spare (e_committed env) (concat es0) (w_watermark w)"
    show "2 \<le> i" "i \<notin> ?S" if "i \<in># tree_pages ot0" for i
      using assms(1) that committed_spare(1) [OF assms(1)] by (auto simp: committed_def)
    show "2 \<le> i" "i \<notin> ?S" if "i \<in> set is0" for i
      using assms(1) that committed_spare(2) [OF assms(1)] by (auto simp: committed_def)
  qed
qed

text \<open>A commit that succeeds goes through all of its steps.\<close>

lemma commit_InrE:
  assumes "commit L env w = Some (env', Inr u)"
  obtains p p1 p2 m' where "commit_pages L env w = Some (p, Inr m')" "sync_data p = (p1, Inr ())"
    "commit_meta L p1 m' = Some (p2, Inr ())"
    "env' = env\<lparr>e_pager := p2, e_committed := m', e_writer := False\<rparr>"
  using assms by (auto simp: commit_def Let_def split: option.splits sum.splits prod.splits)

lemma commit_ok:
  assumes L: "lib_ok L" and co: "committed L (e_pager env) (e_committed env) ot0 is0 es0"
    and s: "slot_ok (e_pager env)" and w: "writer_ok L env (concat es0) K w ot"
    and c: "commit L env w = Some (env', Inr u)"
  obtains "is" es where "committed L (e_pager env') (e_committed env') ot is es"
    "txn_id (e_committed env') = txn_id (e_committed env) + 1" "txn_id (e_committed env) \<noteq> u64_max"
    "next_page (e_committed env) \<le> next_page (e_committed env')"
    "mset (concat es) = mset (freed_entries (txn_id (e_committed env')) w)"
    "outside (e_committed env') ot es = mset_set (set is) + K"
proof -
  obtain p p1 p2 m' where st: "commit_pages L env w = Some (p, Inr m')" "sync_data p = (p1, Inr ())"
      "commit_meta L p1 m' = Some (p2, Inr ())"
      "env' = env\<lparr>e_pager := p2, e_committed := m', e_writer := False\<rparr>"
    by (rule commit_InrE [OF c])
  obtain "is" es where co': "committed L p m' ot is es"
      "txn_id m' = txn_id (e_committed env) + 1" "txn_id (e_committed env) \<noteq> u64_max"
      "next_page (e_committed env) \<le> next_page m'"
      "mset (concat es) = mset (freed_entries (txn_id m') w)" "outside m' ot es = mset_set (set is) + K"
    by (rule commit_pages_ok [OF L co w st(1)])
  have "slot_ok p1"
    using wrote_slot [OF commit_pages_wrote [OF w st(1)] s] sync_keeps [OF st(2)] by (simp add: slot_ok_def)
  note ck = commit_meta_keeps [OF st(3) this]
  have "committed L p1 m' ot is es"
    by (rule committed_same_file [OF co'(1)]) (use sync_keeps [OF st(2)] in simp)
  then have "committed L p2 m' ot is es"
    by (rule committed_keeps; intro ck(2)) (use co'(1) in \<open>auto simp: committed_def\<close>)
  then show thesis using that co' st(4) by simp
qed

text \<open>Readers across a commit: their pages may now be in the free list, but tagged too new.\<close>

lemma reader_ok_commit:
  assumes L: "lib_ok L" and s: "slot_ok (e_pager env)" and w: "writer_ok L env fl K w ot"
    and c: "commit L env w = Some (env', Inr u)"
    and r: "reader_ok L (e_pager env) (e_committed env) fl (spare (e_committed env) fl (w_watermark w)) r xs"
    and m': "txn_id (e_committed env') = txn_id (e_committed env) + 1" "txn_id (e_committed env) \<noteq> u64_max"
      "next_page (e_committed env) \<le> next_page (e_committed env')"
      "mset fl' = mset (freed_entries (txn_id (e_committed env')) w)"
  shows "reader_ok L (e_pager env') (e_committed env') fl' {} r xs"
proof -
  let ?S = "spare (e_committed env) fl (w_watermark w)"
  have "reader_ok L (e_pager env') (e_committed env) fl ?S r xs"
    by (rule reader_ok_keeps [OF r]) (rule commit_keeps(5) [OF w s c])
  then obtain ot' where ot': "r_root r = root_of ot'" "wf_tree L (read_ctx (e_pager env')) ot'"
      "contents ot' = xs" "r_txn_id r \<le> txn_id (e_committed env)"
      "\<forall>i\<in>#tree_pages ot'. 2 \<le> i \<and> i < next_page (e_committed env) \<and> (\<forall>f. (f, i) \<in> set fl \<longrightarrow> r_txn_id r < f)"
    by (auto simp: reader_ok_def)
  have lt: "r_txn_id r < txn_id (e_committed env')"
    using ot'(4) less_plus_one [OF m'(2)] m'(1) by simp
  have tag: "r_txn_id r < f" if i: "i \<in># tree_pages ot'" "(f, i) \<in> set fl'" for f i
  proof -
    have "(f, i) \<in> set (freed_entries (txn_id (e_committed env')) w)" using i(2) m'(4) by (metis set_mset_mset)
    then have "(f, i) \<in> set fl \<or> f = txn_id (e_committed env')"
      using w by (auto simp: freed_entries_def writer_ok_def)
    then show ?thesis using ot'(5) i(1) lt by blast
  qed
  have "\<forall>i\<in>#tree_pages ot'. 2 \<le> i \<and> i < next_page (e_committed env') \<and>
      (\<forall>f. (f, i) \<in> set fl' \<longrightarrow> r_txn_id r < f)"
    using ot'(5) tag order.strict_trans2 [OF _ m'(3)] by blast
  moreover have "r_txn_id r \<le> txn_id (e_committed env')" using lt by simp
  ultimately show ?thesis using ot'(1,2,3) unfolding reader_ok_def by blast
qed

section \<open>Commit returns\<close>

text \<open>
  The steps of a commit when every staged node fits in a page, there is room for the pages
  of the free list, the transaction id does not overflow and the syncs succeed.
\<close>

definition fits :: "overlay \<Rightarrow> bool" where
  "fits ov \<longleftrightarrow> (\<forall>(i, n)\<in>set ov. node_size n \<le> 4092)"

definition freelist_pages :: "write_txn \<Rightarrow> nat" where
  "freelist_pages w = length (chunks FREELIST_CHUNK (freed_entries 0 w))"

lemma flush_total:
  assumes "lib_ok L" "lib_sizes L"
  shows "fits ov \<Longrightarrow> \<forall>i\<in>fst ` set ov. unat i < p_limit p \<Longrightarrow> \<exists>p'. flush L p ov = Some (p', Inr ())"
proof (induction ov arbitrary: p)
  case (Cons jm rest)
  obtain j m where jm: "jm = (j, m)" by fastforce
  obtain buf where buf: "encode_node L m = Some buf"
    using encode_fits(2) [OF assms, of m] Cons.prems(1) by (auto simp: jm fits_def encode_node_def)
  obtain p1 where p1: "write_page p j buf = Some p1" using Cons.prems(2) by (auto simp: jm write_page_def)
  have "\<exists>p'. flush L p1 rest = Some (p', Inr ())"
    by (rule Cons.IH) (use Cons.prems write_page_fields [OF p1] in \<open>auto simp: fits_def\<close>)
  then show ?case using buf p1 by (simp add: jm)
qed simp

lemma store_chunks_total:
  assumes "lib_ok L" "lib_sizes L"
  shows "unat np + length cs \<le> p_limit p \<Longrightarrow> p_limit p \<le> 2 ^ 52 \<Longrightarrow>
    \<forall>c\<in>set cs. length c \<le> FREELIST_CHUNK \<Longrightarrow>
    \<exists>p' np' head. store_chunks L bump p np next cs = Some (p', Inr (np', head))"
proof (induction cs arbitrary: p np "next")
  case (Cons c cs)
  have np: "np \<noteq> u64_max" using Cons.prems(1,2) unat_u64_max by auto
  have "free_size \<lparr>fp_next = next, fp_entries = c\<rparr> \<le> 4092"
    using Cons.prems(3) opt_size_le [of 8 "next"] by (simp add: free_size_def FREELIST_CHUNK_def)
  then obtain buf where buf: "encode_page L (sd_free L) \<lparr>fp_next = next, fp_entries = c\<rparr> = Some buf"
    using encode_fits(3) [OF assms] by blast
  obtain p1 where p1: "write_page p np buf = Some p1"
    using Cons.prems(1) by (auto simp: write_page_def)
  have "\<exists>p' np' head. store_chunks L bump p1 (np + 1) (Some np) cs = Some (p', Inr (np', head))"
    by (rule Cons.IH) (use Cons.prems write_page_fields [OF p1] np in \<open>auto simp: unat_plus_one\<close>)
  moreover have "bump np = Some (np, np + 1)" using np by (simp add: bump_def)
  ultimately show ?case using buf p1 by simp
qed simp

lemma commit_total:
  assumes L: "lib_ok L" "lib_sizes L" and w: "writer_ok L env fl K w ot" and s: "slot_ok (e_pager env)"
    and fit: "fits (w_overlay w)" and room: "room (txn_ctx env w) (freelist_pages w)"
    and t: "txn_id (e_committed env) \<noteq> u64_max" and sync: "p_syncs (e_pager env) = []"
  obtains env' where "commit L env w = Some (env', Inr ())"
proof -
  have inv: "cinv (txn_ctx env w) (tnodes ot) (tvals ot + K)" using w by (simp add: writer_ok_def)
  have np: "2 \<le> w_next_page w" using inv by (simp add: cinv_def)
  have "\<forall>i\<in>fst ` set (w_overlay w). unat i < p_limit (e_pager env)"
  proof
    fix i assume "i \<in> fst ` set (w_overlay w)"
    then have "i \<in> staged (txn_ctx env w)" by (simp add: staged_def dom_map_of_conv_image_fst)
    then have "i \<in># all_pages (txn_ctx env w) (tnodes ot) (tvals ot + K)"
      using cinv_staged [OF inv] by (simp add: all_pages_def)
    then have "i < w_next_page w" using cinv_bounds [OF inv] by simp
    then show "unat i < p_limit (e_pager env)" using room by (simp add: room_def word_less_nat_alt)
  qed
  then obtain p where f: "flush L (e_pager env) (w_overlay w) = Some (p, Inr ())"
    using flush_total [OF L fit] by blast
  note pf = wrote_fields [OF flush_wrote [OF f]]
  let ?fl = "freed_entries (txn_id (e_committed env) + 1) w"
  have len: "length (chunks FREELIST_CHUNK ?fl) = freelist_pages w"
    by (simp add: freelist_pages_def length_chunks FREELIST_CHUNK_def freed_entries_def)
  have chunk_len: "\<forall>c\<in>set (chunks FREELIST_CHUNK ?fl). length c \<le> FREELIST_CHUNK"
    using chunks_length by blast
  obtain p' np' head where st: "store L bump p (w_next_page w) ?fl = Some (p', Inr (np', head))"
    using store_chunks_total [OF L, of "w_next_page w" "chunks FREELIST_CHUNK ?fl" p None]
      room pf len chunk_len by (auto simp: store_def room_def)
  note pf' = wrote_fields [OF bump_source.store_wrote [OF TrueI st]]
  let ?m = "advance (e_committed env) (w_root w) np' head"
  have cp: "commit_pages L env w = Some (p', Inr ?m)"
    using f st t w by (simp add: commit_pages_def writer_ok_def)
  have lim: "2 \<le> p_limit p'"
    using pf pf' room np by (simp add: room_def word_le_nat_alt)
  have sy: "p_syncs p' = []" using pf pf' sync by simp
  obtain buf where buf: "encode_meta L ?m = Some buf"
    using encode_meta_page [OF L] by (auto simp: encode_meta_def)
  have "1 - active_meta_slot p' = 0 \<or> 1 - active_meta_slot p' = 1"
    using s pf pf' by (auto simp: slot_ok_def)
  then have "unat (1 - active_meta_slot p') < p_limit p'" using lim by auto
  then show thesis
    using that cp sy buf
    by (simp add: commit_def sync_data_def commit_meta_def write_meta_slot_def write_page_def Let_def)
qed

end
