(* ===== verification/Durability.thy ===== *)
theory Durability
  imports Txn_Commit
begin

text \<open>
  What survives a crash. The system may stop at any point; each write since the last sync
  is then lost, on the platter, or torn (a torn meta page does not decode, since its
  checksum does not match). \<open>durable\<close> is the invariant of the file system's side of an
  environment: the durable pages hold the committed store, and what is pending touches none
  of its pages and neither meta page.
\<close>

section \<open>Crashes\<close>

inductive torn :: "lib \<Rightarrow> (page_id \<times> bytes) list \<Rightarrow> (page_id \<times> bytes) list \<Rightarrow> bool" for L where
  torn_Nil: "torn L [] []"
| torn_lost: "torn L pend ws \<Longrightarrow> torn L (x # pend) ws"
| torn_kept: "torn L pend ws \<Longrightarrow> torn L (x # pend) (x # ws)"
| torn_partial: "torn L pend ws \<Longrightarrow> decode_meta L b' = None \<Longrightarrow> torn L ((i, b) # pend) ((i, b') # ws)"

inductive_cases torn_NilE [elim!]: "torn L [] ws"
inductive_cases torn_ConsE: "torn L (x # pend) ws"

definition crash :: "lib \<Rightarrow> pager \<Rightarrow> bytes list \<Rightarrow> bool" where
  "crash L p f \<longleftrightarrow> (\<exists>ws. torn L (p_pending p) ws \<and> f = apply_writes ws (p_durable p))"

lemma torn_fst: "torn L pend ws \<Longrightarrow> fst ` set ws \<subseteq> fst ` set pend"
  by (induction rule: torn.induct) auto

lemma torn_all: "torn L pend pend"
  by (induction pend) (auto intro: torn.intros)

lemma torn_none: "torn L pend []"
  by (induction pend) (auto intro: torn.intros)

lemma torn_append: "torn L xs ws \<Longrightarrow> torn L (xs @ ys) ws"
  by (induction rule: torn.induct) (auto intro: torn.intros torn_none)

text \<open>Stopping earlier leaves nothing that stopping later, before the next sync, could not leave.\<close>

lemma crash_earlier: "wrote X p q \<Longrightarrow> crash L p f \<Longrightarrow> crash L q f"
  unfolding crash_def wrote_def using torn_append by fastforce

section \<open>The invariant\<close>

definition on_disk :: "bytes list \<Rightarrow> pager" where
  "on_disk f = open_file 0 [] f"

lemma p_file_on_disk [simp]: "p_file (on_disk f) = f"
  by (simp add: on_disk_def open_file_def)

definition durable :: "lib \<Rightarrow> pager \<Rightarrow> meta \<Rightarrow> gtree option \<Rightarrow> page_id list \<Rightarrow>
    (u64 \<times> page_id) list list \<Rightarrow> bool" where
  "durable L p m ot is es \<longleftrightarrow>
     committed L (on_disk (p_durable p)) m ot is es \<and>
     slots_ok L (p_durable p) (active_meta_slot p) m \<and> 2 \<le> length (p_durable p) \<and>
     p_file p = apply_writes (p_pending p) (p_durable p) \<and>
     (\<forall>i\<in>fst ` set (p_pending p). 2 \<le> i \<and> i \<notin># tree_pages ot \<and> i \<notin> set is)"

lemma length_file_write: "length f \<le> length (file_write f i b)"
  by (simp add: file_write_def)

lemma length_apply_writes: "length f \<le> length (apply_writes ws f)"
proof (induction ws arbitrary: f)
  case (Cons x ws)
  then show ?case
    using length_file_write [of f "fst x" "snd x"] order.trans by (cases x) fastforce
qed simp

lemma read_meta_slot_other:
  assumes "unat s < length f" "s \<notin> fst ` set ws"
  shows "read_meta_slot L (apply_writes ws f) s = read_meta_slot L f s"
proof -
  obtain b where b: "file_read f s = Some b" using assms(1) by (auto simp: file_read_def get_at_def)
  then have "file_read (apply_writes ws f) s = Some b" using assms(2) by (rule file_read_apply_writes)
  then show ?thesis using b by (simp add: read_meta_slot_def)
qed

lemma slots_ok_writes:
  assumes "slots_ok L f s m" "2 \<le> length f" "\<forall>i\<in>fst ` set ws. 2 \<le> i"
  shows "slots_ok L (apply_writes ws f) s m"
proof -
  have "read_meta_slot L (apply_writes ws f) t = read_meta_slot L f t" if t: "t = 0 \<or> t = 1" for t
  proof (rule read_meta_slot_other)
    show "t \<notin> fst ` set ws" using assms(3) not_meta_page [of t] t by blast
  qed (use assms(2) t in auto)
  then show ?thesis using assms(1) by (auto simp: slots_ok_def)
qed

lemma committed_writes:
  assumes "committed L (on_disk f) m ot is es" "\<forall>i\<in>fst ` set ws. i \<notin># tree_pages ot \<and> i \<notin> set is"
  shows "committed L (on_disk (apply_writes ws f)) m ot is es"
proof (rule committed_keeps [OF assms(1)])
  have k: "keeps (on_disk f) (on_disk (apply_writes ws f)) i" if "i \<notin> fst ` set ws" for i
    using that by (simp add: keeps_def read_page_def file_read_apply_writes)
  show "keeps (on_disk f) (on_disk (apply_writes ws f)) i" if "i \<in># tree_pages ot" for i
    using assms(2) that by (intro k) auto
  show "keeps (on_disk f) (on_disk (apply_writes ws f)) i" if "i \<in> set is" for i
    using assms(2) that by (intro k) auto
qed

text \<open>After a crash the store opens, on the same meta page and with the same tree.\<close>

lemma durable_crash:
  assumes d: "durable L p m ot is es" and c: "crash L p f"
  shows "open_pager L lim syncs (Some f) = Some (Inr ((open_file lim syncs f)\<lparr>active_meta_slot := active_meta_slot p\<rparr>, m))"
    "durable L ((open_file lim syncs f)\<lparr>active_meta_slot := active_meta_slot p\<rparr>) m ot is es"
    "committed L ((open_file lim syncs f)\<lparr>active_meta_slot := active_meta_slot p\<rparr>) m ot is es"
proof -
  obtain ws where ws: "torn L (p_pending p) ws" "f = apply_writes ws (p_durable p)"
    using c by (auto simp: crash_def)
  have out: "\<forall>i\<in>fst ` set ws. 2 \<le> i \<and> i \<notin># tree_pages ot \<and> i \<notin> set is"
    using d torn_fst [OF ws(1)] unfolding durable_def by blast
  have co: "committed L (on_disk f) m ot is es"
    unfolding ws(2) by (rule committed_writes) (use d out in \<open>auto simp: durable_def\<close>)
  have sl: "slots_ok L f (active_meta_slot p) m"
    unfolding ws(2) by (rule slots_ok_writes) (use d out in \<open>auto simp: durable_def\<close>)
  have len: "2 \<le> length f"
    using d length_apply_writes [of "p_durable p" ws] by (simp add: ws(2) durable_def)
  show "open_pager L lim syncs (Some f) = Some (Inr ((open_file lim syncs f)\<lparr>active_meta_slot := active_meta_slot p\<rparr>, m))"
    using slots_ok_choose [OF sl] by (simp add: open_pager_def)
  show "durable L ((open_file lim syncs f)\<lparr>active_meta_slot := active_meta_slot p\<rparr>) m ot is es"
    using co sl len by (simp add: durable_def open_file_def)
  show "committed L ((open_file lim syncs f)\<lparr>active_meta_slot := active_meta_slot p\<rparr>) m ot is es"
    by (rule committed_same_file [OF co]) (simp add: open_file_def)
qed

section \<open>The invariant under the operations\<close>

lemma durable_committed: "durable L p m ot is es \<Longrightarrow> committed L p m ot is es"
  using committed_writes [of L "p_durable p" m ot "is" es "p_pending p"]
  by (auto simp: durable_def intro: committed_same_file)

lemma durable_wrote:
  assumes d: "durable L p m ot is es" and w: "wrote X p q" and X: "X \<subseteq> spare m (concat es) W"
  shows "durable L q m ot is es"
proof -
  obtain ws where ws: "fst ` set ws \<subseteq> X"
      "q = p\<lparr>p_file := apply_writes ws (p_file p), p_pending := p_pending p @ ws\<rparr>"
    using w by (auto simp: wrote_def)
  have co: "committed L p m ot is es" by (rule durable_committed [OF d])
  have "\<forall>i\<in>fst ` set ws. 2 \<le> i \<and> i \<notin># tree_pages ot \<and> i \<notin> set is"
    using committed_spare [OF co] ws(1) X by blast
  then show ?thesis using d by (auto simp: durable_def ws(2) apply_writes_append)
qed

lemma durable_sync:
  assumes d: "durable L p m ot is es" and s: "sync_data p = (q, Inr u)"
  shows "durable L q m ot is es"
proof -
  have q: "q = p\<lparr>p_syncs := tl (p_syncs p), p_durable := p_file p, p_pending := []\<rparr>"
    by (rule sync_data_ok [OF s])
  have f: "p_file p = apply_writes (p_pending p) (p_durable p)" using d by (simp add: durable_def)
  have "committed L (on_disk (p_file p)) m ot is es"
    unfolding f by (rule committed_writes) (use d in \<open>auto simp: durable_def\<close>)
  moreover have "slots_ok L (p_file p) (active_meta_slot p) m"
    unfolding f by (rule slots_ok_writes) (use d in \<open>auto simp: durable_def\<close>)
  moreover have "2 \<le> length (p_file p)"
    using d length_apply_writes [of "p_durable p" "p_pending p"] by (simp add: durable_def)
  ultimately show ?thesis by (simp add: durable_def q)
qed

text \<open>Publishing on a durable pager: the old meta page until the new one is synced.\<close>

lemma publish_ok:
  assumes L: "lib_ok L" and d: "durable L p m ot0 is0 es0" and pend: "p_pending p = []"
    and co: "committed L p m' ot is es" and t: "txn_id m < txn_id m'"
    and buf: "encode_meta L m' = Some buf" and w: "write_page p (1 - active_meta_slot p) buf = Some q"
  shows "crash L q f \<Longrightarrow> durable L (on_disk f\<lparr>active_meta_slot := active_meta_slot p\<rparr>) m ot0 is0 es0 \<or>
      durable L (on_disk f\<lparr>active_meta_slot := 1 - active_meta_slot p\<rparr>) m' ot is es"
    "sync_data q = (q', Inr u) \<Longrightarrow>
      durable L (q'\<lparr>active_meta_slot := 1 - active_meta_slot p\<rparr>) m' ot is es"
proof -
  let ?s = "active_meta_slot p" and ?f = "p_durable p"
  have fl: "p_file p = ?f" and sl: "slots_ok L ?f ?s m" and len: "2 \<le> length ?f"
    using d pend by (simp_all add: durable_def)
  have s: "?s = 0 \<or> ?s = 1" using sl by (simp add: slots_ok_def)
  have q: "p_file q = file_write ?f (1 - ?s) buf" "p_pending q = [(1 - ?s, buf)]" "p_durable q = ?f"
    using w pend fl by (auto simp: write_page_def split: if_splits)
  have mm: "magic m' = MAGIC" using co by (simp add: committed_def)
  have keep: "read_meta_slot L (file_write ?f (1 - ?s) b) ?s = Some m" for b
    by (rule read_meta_slot_keep) (use s sl in \<open>auto simp: slots_ok_def\<close>)
  have new: "slots_ok L (file_write ?f (1 - ?s) buf) (1 - ?s) m'"
    using s keep [of buf] read_meta_slot_write [OF L buf mm, of ?f "1 - ?s"] t by (auto simp: slots_ok_def)
  have len': "2 \<le> length (file_write ?f (1 - ?s) b)" for b
    using len length_file_write [of ?f "1 - ?s" b] by simp
  have other: "keeps p (on_disk (file_write ?f (1 - ?s) b)) i" if "2 \<le> i" for i b
    using s not_meta_page [OF that] by (auto simp: keeps_def read_page_def fl file_read_write_keep)
  have tree: "committed L (on_disk (file_write ?f (1 - ?s) b)) m1 ot1 is1 es1"
    if c: "committed L p m1 ot1 is1 es1" for b m1 ot1 is1 es1
    by (rule committed_keeps [OF c]; rule other) (use c in \<open>auto simp: committed_def\<close>)
  show "durable L (q'\<lparr>active_meta_slot := 1 - ?s\<rparr>) m' ot is es" if "sync_data q = (q', Inr u)"
    using sync_data_ok [OF that] q tree [OF co, of buf] new len' by (simp add: durable_def)
  show "durable L (on_disk f\<lparr>active_meta_slot := ?s\<rparr>) m ot0 is0 es0 \<or>
      durable L (on_disk f\<lparr>active_meta_slot := 1 - ?s\<rparr>) m' ot is es" if c: "crash L q f"
  proof -
    have slots: "slots_ok L (file_write ?f (1 - ?s) b) ?s m" if "decode_meta L b = None" for b
      using s keep [of b] that by (auto simp: slots_ok_def read_meta_slot_def)
    have d0: "committed L p m ot0 is0 es0" by (rule durable_committed [OF d])
    from c have "f = ?f \<or> f = file_write ?f (1 - ?s) buf \<or>
        (\<exists>b. decode_meta L b = None \<and> f = file_write ?f (1 - ?s) b)"
      unfolding crash_def q by (auto elim!: torn_ConsE)
    then show ?thesis
    proof (elim disjE exE conjE)
      assume "f = ?f"
      then show ?thesis using d by (simp add: durable_def on_disk_def open_file_def)
    next
      assume "f = file_write ?f (1 - ?s) buf"
      then show ?thesis
        using tree [OF co] new len' by (simp add: durable_def) (simp add: on_disk_def open_file_def)
    next
      fix b assume "decode_meta L b = None" "f = file_write ?f (1 - ?s) b"
      then show ?thesis
        using tree [OF d0] slots len' by (simp add: durable_def) (simp add: on_disk_def open_file_def)
    qed
  qed
qed

text \<open>The states of the pager a commit goes through, each a point where it may stop.\<close>

definition commit_points :: "lib \<Rightarrow> environment \<Rightarrow> write_txn \<Rightarrow> pager list" where
  "commit_points L env w =
     (case commit_pages L env w of None \<Rightarrow> [e_pager env]
      | Some (p, Inl e) \<Rightarrow> [p]
      | Some (p, Inr m') \<Rightarrow>
          p # (case sync_data p of (p1, Inl e) \<Rightarrow> [p1]
               | (p1, Inr _) \<Rightarrow>
                   p1 # (case encode_meta L m' of None \<Rightarrow> []
                         | Some buf \<Rightarrow>
                             (case write_page p1 (1 - active_meta_slot p1) buf of None \<Rightarrow> []
                              | Some p2 \<Rightarrow> [p2, fst (sync_data p2)]))))"

lemma sync_fail_crash: "sync_data p = (q, Inl e) \<Longrightarrow> crash L q = crash L p"
  by (drule sync_data_fail) (simp add: crash_def [abs_def])

lemma committed_after_sync: "committed L p m ot is es \<Longrightarrow> sync_data p = (q, r) \<Longrightarrow> committed L q m ot is es"
  by (rule committed_same_file) (use sync_keeps in auto)

lemma durable_slot_update:
  "durable L p m ot is es \<Longrightarrow> q = p\<lparr>p_limit := l, p_syncs := y\<rparr> \<Longrightarrow> durable L q m ot is es"
  by (simp add: durable_def)

lemma commit_pointsE:
  assumes q: "q \<in> set (commit_points L env w)"
  obtains (start) "q = e_pager env"
  | (pages) r where "commit_pages L env w = Some (q, r)"
  | (synced) p m' r where "commit_pages L env w = Some (p, Inr m')" "sync_data p = (q, r)"
  | (published) p m' p1 u buf p2 where "commit_pages L env w = Some (p, Inr m')" "sync_data p = (p1, Inr u)"
      "encode_meta L m' = Some buf" "write_page p1 (1 - active_meta_slot p1) buf = Some p2"
      "q = p2 \<or> q = fst (sync_data p2)"
proof (cases "commit_pages L env w")
  case None
  then show thesis using q start by (simp add: commit_points_def)
next
  case (Some pr)
  then obtain p r where cp: "commit_pages L env w = Some (p, r)" by (cases pr) auto
  show thesis
  proof (cases "q = p")
    case True
    then show thesis using pages cp by blast
  next
    case False
    then obtain m' p1 r1 where r: "r = Inr m'" and sy: "sync_data p = (p1, r1)"
      using q cp by (cases r; cases "sync_data p") (auto simp: commit_points_def)
    show thesis
    proof (cases "q = p1")
      case True
      then show thesis using synced cp r sy by blast
    next
      case False
      then obtain buf p2 where "r1 = Inr ()" "encode_meta L m' = Some buf"
          "write_page p1 (1 - active_meta_slot p1) buf = Some p2" "q = p2 \<or> q = fst (sync_data p2)"
        using q cp r sy \<open>q \<noteq> p\<close>
        by (cases r1; cases "encode_meta L m'") (auto simp: commit_points_def split: option.splits dest!: sym [of "Some _" "write_page _ _ _"])
      then show thesis using published cp r sy by blast
    qed
  qed
qed

text \<open>The states before the meta page is written: the tree of the previous commit is still the one a
restart finds.\<close>

lemma commit_crash_early:
  assumes d: "durable L (e_pager env) (e_committed env) ot0 is0 es0" and w: "writer_ok L env (concat es0) K w ot"
    and cp: "commit_pages L env w = Some (p, r)"
  shows "durable L p (e_committed env) ot0 is0 es0"
    "sync_data p = (p1, r1) \<Longrightarrow> crash L p1 f \<Longrightarrow> \<exists>q. durable L q (e_committed env) ot0 is0 es0 \<and> crash L q f"
proof -
  show d0: "durable L p (e_committed env) ot0 is0 es0"
    by (rule durable_wrote [OF d commit_pages_wrote [OF w cp] order.refl])
  show "\<exists>q. durable L q (e_committed env) ot0 is0 es0 \<and> crash L q f" if sy: "sync_data p = (p1, r1)" and c: "crash L p1 f"
  proof (cases r1)
    case (Inl e)
    then show ?thesis using d0 c sy sync_fail_crash [of p p1 e L] by auto
  next
    case (Inr u)
    then show ?thesis using durable_sync [OF d0, of p1 u] sy c by blast
  qed
qed

lemma commit_crash:
  assumes L: "lib_ok L" and d: "durable L (e_pager env) (e_committed env) ot0 is0 es0"
    and w: "writer_ok L env (concat es0) K w ot" and p: "q \<in> set (commit_points L env w)" and c: "crash L q f"
  shows "\<exists>slot. durable L (on_disk f\<lparr>active_meta_slot := slot\<rparr>) (e_committed env) ot0 is0 es0 \<or>
     (\<exists>m' is es. durable L (on_disk f\<lparr>active_meta_slot := slot\<rparr>) m' ot is es)"
proof -
  have old: ?thesis if "durable L q (e_committed env) ot0 is0 es0" "crash L q f" for q
    using durable_crash(2) [OF that, of 0 "[]"] unfolding on_disk_def by blast
  from p show ?thesis
  proof (cases rule: commit_pointsE)
    case start
    then show ?thesis using old d c by simp
  next
    case (pages r)
    then show ?thesis using old commit_crash_early(1) [OF d w] c by blast
  next
    case (synced p m' r)
    then show ?thesis using old commit_crash_early(2) [OF d w _ _ c] by blast
  next
    case (published p0 m' p1 u buf p2)
    have d1: "durable L p1 (e_committed env) ot0 is0 es0"
      by (rule durable_sync [OF commit_crash_early(1) [OF d w published(1)] published(2)])
    have pend: "p_pending p1 = []" using sync_data_ok [OF published(2)] by simp
    obtain "is" es where co: "committed L p0 m' ot is es" "txn_id m' = txn_id (e_committed env) + 1"
        "txn_id (e_committed env) \<noteq> u64_max"
      using commit_pages_ok [OF L durable_committed [OF d] w published(1)] by metis
    have t: "txn_id (e_committed env) < txn_id m'" using less_plus_one co(2,3) by simp
    note pub = publish_ok [OF L d1 pend committed_after_sync [OF co(1) published(2)] t published(3,4)]
    have late: ?thesis if "crash L p2 f" using pub(1) [OF that] by blast
    obtain p3 r3 where p3: "sync_data p2 = (p3, r3)" by fastforce
    show ?thesis
    proof (cases "q = p2")
      case True
      then show ?thesis using late c by blast
    next
      case False
      then have q: "q = p3" using published(5) p3 by simp
      show ?thesis
      proof (cases r3)
        case (Inl e)
        then show ?thesis using late c q sync_fail_crash [of p2 p3 e L] p3 by simp
      next
        case (Inr v)
        have "crash L (p3\<lparr>active_meta_slot := 1 - active_meta_slot p1\<rparr>) f"
          using c q by (simp add: crash_def)
        from durable_crash(2) [OF pub(2) this, of v 0 "[]"] show ?thesis
          using p3 Inr unfolding on_disk_def by auto
      qed
    qed
  qed
qed

text \<open>The invariant after a commit, unless a sync failed.\<close>

lemma durable_commit_fail:
  assumes L: "lib_ok L" and d: "durable L (e_pager env) (e_committed env) ot0 is0 es0"
    and w: "writer_ok L env (concat es0) K w ot" and c: "commit L env w = Some (env', Inl e)"
    and e: "e \<noteq> SyncFailed"
  shows "durable L (e_pager env') (e_committed env') ot0 is0 es0"
proof -
  from c obtain p0 r where cp: "commit_pages L env w = Some (p0, r)"
    by (auto simp: commit_def Let_def split: option.splits)
  have d0: "durable L p0 (e_committed env) ot0 is0 es0"
    by (rule durable_wrote [OF d commit_pages_wrote [OF w cp] order.refl])
  show ?thesis
  proof (cases r)
    case (Inl e')
    then show ?thesis using c cp d0 by (auto simp: commit_def)
  next
    case (Inr m')
    obtain p1 r1 where sy: "sync_data p0 = (p1, r1)" by fastforce
    obtain u where r1: "r1 = Inr u"
      using c cp Inr sy e sync_data_fail [of p0 p1] by (cases r1) (auto simp: commit_def)
    have d1: "durable L p1 (e_committed env) ot0 is0 es0"
      by (rule durable_sync [OF d0]) (use sy r1 in simp)
    obtain p2 where cm: "commit_meta L p1 m' = Some (p2, Inl e)"
        and env': "env' = env\<lparr>e_pager := p2, e_writer := False\<rparr>"
      using c cp Inr sy r1 by (auto simp: commit_def split: option.splits sum.splits)
    have "p2 = p1"
      using cm e sync_data_fail
      by (auto simp: commit_meta_def write_meta_slot_def Let_def split: option.splits sum.splits)
    then show ?thesis using d1 env' by simp
  qed
qed

lemma durable_commit_ok:
  assumes L: "lib_ok L" and d: "durable L (e_pager env) (e_committed env) ot0 is0 es0"
    and w: "writer_ok L env (concat es0) K w ot" and c: "commit L env w = Some (env', Inr u)"
    and co': "committed L (e_pager env') (e_committed env') ot is es"
    and t: "txn_id (e_committed env) < txn_id (e_committed env')"
  shows "durable L (e_pager env') (e_committed env') ot is es"
proof -
  obtain p p1 p2 m' where st: "commit_pages L env w = Some (p, Inr m')" "sync_data p = (p1, Inr ())"
      "commit_meta L p1 m' = Some (p2, Inr ())"
      "env' = env\<lparr>e_pager := p2, e_committed := m', e_writer := False\<rparr>"
    by (rule commit_InrE [OF c])
  have d0: "durable L p (e_committed env) ot0 is0 es0"
    by (rule durable_wrote [OF d commit_pages_wrote [OF w st(1)] order.refl])
  have d1: "durable L p1 (e_committed env) ot0 is0 es0" by (rule durable_sync [OF d0 st(2)])
  have sl: "slots_ok L (p_file p1) (active_meta_slot p1) (e_committed env)" and len: "2 \<le> length (p_file p1)"
    using d1 sync_data_ok [OF st(2)] by (simp_all add: durable_def)
  have m': "magic m' = MAGIC" "txn_id (e_committed env) < txn_id m'"
    using co' t st(4) by (simp_all add: committed_def)
  have "slots_ok L (p_file p2) (active_meta_slot p2) m'"
    by (rule commit_meta_slots_ok [OF L sl st(3) m'])
  moreover have "p_durable p2 = p_file p2 \<and> p_pending p2 = [] \<and> length (p_file p1) \<le> length (p_file p2)"
    using st(3) length_file_write
    by (auto simp: commit_meta_def write_meta_slot_def write_page_def Let_def dest!: sync_data_ok
        split: option.splits sum.splits prod.splits if_splits)
  moreover have "committed L (on_disk (p_file p2)) m' ot is es"
    by (rule committed_same_file [of L "e_pager env'"]) (use co' st(4) in simp_all)
  ultimately show ?thesis using st(4) len by (simp add: durable_def)
qed

end
