(* ===== verification/MVCC.thy ===== *)
theory MVCC
  imports Durability
begin

text \<open>
  Any number of readers and one writer at a time over an environment, as a state machine
  (\<open>sys_step\<close>), and what it promises as one on plain lists of key/value pairs
  (\<open>db_step\<close>): a reader sees the store as of its beginning whatever the writer does
  meanwhile, the writer sees its own changes, a commit publishes them all and a rollback or
  a failed commit none. \<open>sim\<close> relates the two; every step of the code is a step of the
  promise with the same output.
\<close>

section \<open>Simulations\<close>

text \<open>
  A machine takes an action to a state and an output, or is stuck; a specification says
  which outputs it allows. A relation that every step keeps makes every run an allowed one.
\<close>

fun run :: "('s \<Rightarrow> 'a \<Rightarrow> ('s \<times> 'o) option) \<Rightarrow> 's \<Rightarrow> 'a list \<Rightarrow> ('s \<times> 'o list) option" where
  "run step s [] = Some (s, [])"
| "run step s (a # acts) =
     do { (s1, out) \<leftarrow> step s a; (s2, outs) \<leftarrow> run step s1 acts; Some (s2, out # outs) }"

lemma run_append:
  "run step s acts = Some (s1, outs) \<Longrightarrow> run step s1 acts' = Some (s2, outs') \<Longrightarrow>
    run step s (acts @ acts') = Some (s2, outs @ outs')"
  by (induction acts arbitrary: s outs) (auto simp: bind_eq_Some_conv)

lemma run_single: "step s a = Some (s1, out) \<Longrightarrow> run step s [a] = Some (s1, [out])"
  by simp

fun allows :: "('d \<Rightarrow> 'a \<Rightarrow> 'o \<Rightarrow> 'd option) \<Rightarrow> 'd \<Rightarrow> 'a list \<Rightarrow> 'o list \<Rightarrow> 'd option" where
  "allows spec d [] [] = Some d"
| "allows spec d (a # acts) (out # outs) = do { d1 \<leftarrow> spec d a out; allows spec d1 acts outs }"
| "allows spec d _ _ = None"

locale simulation =
  fixes step :: "'s \<Rightarrow> 'a \<Rightarrow> ('s \<times> 'o) option"
    and spec :: "'d \<Rightarrow> 'a \<Rightarrow> 'o \<Rightarrow> 'd option"
    and R :: "'s \<Rightarrow> 'd \<Rightarrow> bool"
  assumes step_ok: "R s d \<Longrightarrow> step s a = Some (s', out) \<Longrightarrow> \<exists>d'. spec d a out = Some d' \<and> R s' d'"
begin

lemma run_ok:
  "R s d \<Longrightarrow> run step s acts = Some (s', outs) \<Longrightarrow> \<exists>d'. allows spec d acts outs = Some d' \<and> R s' d'"
proof (induction acts arbitrary: s d outs)
  case Nil
  then show ?case by simp
next
  case (Cons a acts)
  from Cons.prems(2) obtain s1 out outs' where
      s1: "step s a = Some (s1, out)" "run step s1 acts = Some (s', outs')" "outs = out # outs'"
    by (auto simp: bind_Some_iff)
  obtain d1 where "spec d a out = Some d1" "R s1 d1" using step_ok [OF Cons.prems(1) s1(1)] by blast
  with Cons.IH [OF this(2) s1(2)] show ?case using s1(3) by auto
qed

end

section \<open>The machine and its promise\<close>

datatype action =
    BeginRead | ReadGet nat bytes | ReadRange nat "bytes option" "bytes option" | EndRead nat
  | BeginWrite | WriteGet bytes | WriteRange "bytes option" "bytes option"
  | WritePut bytes bytes | WriteDelete bytes | Commit | Rollback

datatype answer =
    Done | Value "bytes option" | Rows "(bytes \<times> bytes) list" | Existed bool | Failed io_error

record sys =
  y_env :: environment
  y_readers :: "read_txn list"
  y_writer :: "write_txn option"
  y_synced :: bool

fun sys_step :: "lib \<Rightarrow> sys \<Rightarrow> action \<Rightarrow> (sys \<times> answer) option" where
  "sys_step L s BeginRead =
     (let (r, env) = begin_read (y_env s)
      in Some (s\<lparr>y_env := env, y_readers := y_readers s @ [r]\<rparr>, Done))"
| "sys_step L s (ReadGet k key) =
     do { r \<leftarrow> get_at (y_readers s) k; v \<leftarrow> read_get L (y_env s) r key; Some (s, Value v) }"
| "sys_step L s (ReadRange k lo hi) =
     do { r \<leftarrow> get_at (y_readers s) k; rows \<leftarrow> read_range L (y_env s) r lo hi; Some (s, Rows rows) }"
| "sys_step L s (EndRead k) =
     do { (r, rest) \<leftarrow> remove_at (y_readers s) k;
          Some (s\<lparr>y_env := drop_read (y_env s) r, y_readers := rest\<rparr>, Done) }"
| "sys_step L s BeginWrite =
     (case y_writer s of Some w \<Rightarrow> None
      | None \<Rightarrow> do { (w, env) \<leftarrow> begin_write L (y_env s);
                     Some (s\<lparr>y_env := env, y_writer := Some w\<rparr>, Done) })"
| "sys_step L s (WriteGet key) =
     do { w \<leftarrow> y_writer s; v \<leftarrow> write_get L (y_env s) w key; Some (s, Value v) }"
| "sys_step L s (WriteRange lo hi) =
     do { w \<leftarrow> y_writer s; rows \<leftarrow> write_range L (y_env s) w lo hi; Some (s, Rows rows) }"
| "sys_step L s (WritePut key value) =
     do { w \<leftarrow> y_writer s; (w', env) \<leftarrow> write_put L (y_env s) w key value;
          Some (s\<lparr>y_env := env, y_writer := Some w'\<rparr>, Done) }"
| "sys_step L s (WriteDelete key) =
     do { w \<leftarrow> y_writer s; (existed, w', env) \<leftarrow> write_delete L (y_env s) w key;
          Some (s\<lparr>y_env := env, y_writer := Some w'\<rparr>, Existed existed) }"
| "sys_step L s Commit =
     do { w \<leftarrow> y_writer s; (env, r) \<leftarrow> commit L (y_env s) w;
          Some (s\<lparr>y_env := env, y_writer := None, y_synced := y_synced s \<and> r \<noteq> Inl SyncFailed\<rparr>,
                (case r of Inl e \<Rightarrow> Failed e | Inr _ \<Rightarrow> Done)) }"
| "sys_step L s Rollback =
     do { w \<leftarrow> y_writer s; Some (s\<lparr>y_env := rollback (y_env s) w, y_writer := None\<rparr>, Done) }"

type_synonym rows = "(bytes \<times> bytes) list"

record db =
  d_data :: rows
  d_snaps :: "rows list"
  d_work :: "rows option"

definition select :: "bytes option \<Rightarrow> bytes option \<Rightarrow> rows \<Rightarrow> rows" where
  "select lo hi = filter (\<lambda>(k, v). in_range lo hi k)"

definition expect :: "bool \<Rightarrow> 'a \<Rightarrow> 'a option" where
  "expect b x = (if b then Some x else None)"

lemma expect_Some [simp]: "expect b x = Some y \<longleftrightarrow> b \<and> x = y"
  by (simp add: expect_def)

lemma expect_simps [simp]: "expect True x = Some x" "expect False x = None"
  by (simp_all add: expect_def)

fun db_step :: "db \<Rightarrow> action \<Rightarrow> answer \<Rightarrow> db option" where
  "db_step d BeginRead out = expect (out = Done) (d\<lparr>d_snaps := d_snaps d @ [d_data d]\<rparr>)"
| "db_step d (ReadGet k key) out =
     do { xs \<leftarrow> get_at (d_snaps d) k; expect (out = Value (map_of xs key)) d }"
| "db_step d (ReadRange k lo hi) out =
     do { xs \<leftarrow> get_at (d_snaps d) k; expect (out = Rows (select lo hi xs)) d }"
| "db_step d (EndRead k) out =
     do { (_, rest) \<leftarrow> remove_at (d_snaps d) k; expect (out = Done) (d\<lparr>d_snaps := rest\<rparr>) }"
| "db_step d BeginWrite out =
     expect (out = Done \<and> d_work d = None) (d\<lparr>d_work := Some (d_data d)\<rparr>)"
| "db_step d (WriteGet key) out =
     do { xs \<leftarrow> d_work d; expect (out = Value (map_of xs key)) d }"
| "db_step d (WriteRange lo hi) out =
     do { xs \<leftarrow> d_work d; expect (out = Rows (select lo hi xs)) d }"
| "db_step d (WritePut key value) out =
     do { xs \<leftarrow> d_work d; expect (out = Done) (d\<lparr>d_work := Some (ins key value xs)\<rparr>) }"
| "db_step d (WriteDelete key) out =
     do { xs \<leftarrow> d_work d;
          expect (out = Existed (map_of xs key \<noteq> None)) (d\<lparr>d_work := Some (del key xs)\<rparr>) }"
| "db_step d Commit out =
     do { xs \<leftarrow> d_work d;
          case out of Done \<Rightarrow> Some (d\<lparr>d_data := xs, d_work := None\<rparr>)
          | Failed e \<Rightarrow> Some (d\<lparr>d_work := None\<rparr>)
          | _ \<Rightarrow> None }"
| "db_step d Rollback out =
     do { xs \<leftarrow> d_work d; expect (out = Done) (d\<lparr>d_work := None\<rparr>) }"

section \<open>The relation\<close>

text \<open>The pages a running writer may write; none while there is no writer.\<close>

definition reach :: "meta \<Rightarrow> (u64 \<times> page_id) list \<Rightarrow> write_txn option \<Rightarrow> page_id set" where
  "reach m fl ow = (case ow of None \<Rightarrow> {} | Some w \<Rightarrow> spare m fl (w_watermark w))"

definition work_ok :: "lib \<Rightarrow> environment \<Rightarrow> (u64 \<times> page_id) list \<Rightarrow> page_id multiset \<Rightarrow>
    write_txn option \<Rightarrow> rows option \<Rightarrow> bool" where
  "work_ok L env fl K ow xs \<longleftrightarrow>
     (case ow of None \<Rightarrow> xs = None \<and> \<not> e_writer env
      | Some w \<Rightarrow> e_writer env \<and> (\<exists>ot. writer_ok L env fl K w ot \<and> xs = Some (contents ot)))"

definition sim :: "lib \<Rightarrow> sys \<Rightarrow> db \<Rightarrow> bool" where
  "sim L s d \<longleftrightarrow>
     (\<exists>ot is es. let env = y_env s; m = e_committed env; fl = concat es in
        committed L (e_pager env) m ot is es \<and> contents ot = d_data d \<and> slot_ok (e_pager env) \<and>
        mset (e_readers env) = mset (map r_txn_id (y_readers s)) \<and>
        list_all2 (reader_ok L (e_pager env) m fl (reach m fl (y_writer s))) (y_readers s) (d_snaps d) \<and>
        work_ok L env fl (outside m ot es) (y_writer s) (d_work d) \<and>
        (y_synced s \<longrightarrow> durable L (e_pager env) m ot is es))"

lemma simI:
  assumes "committed L (e_pager (y_env s)) (e_committed (y_env s)) ot is es" "contents ot = d_data d"
    "slot_ok (e_pager (y_env s))" "mset (e_readers (y_env s)) = mset (map r_txn_id (y_readers s))"
    "list_all2 (reader_ok L (e_pager (y_env s)) (e_committed (y_env s)) (concat es)
       (reach (e_committed (y_env s)) (concat es) (y_writer s))) (y_readers s) (d_snaps d)"
    "work_ok L (y_env s) (concat es) (outside (e_committed (y_env s)) ot es) (y_writer s) (d_work d)"
    "y_synced s \<longrightarrow> durable L (e_pager (y_env s)) (e_committed (y_env s)) ot is es"
  shows "sim L s d"
  unfolding sim_def Let_def using assms by blast

lemma simE:
  assumes "sim L s d"
  obtains ot "is" es where
    "committed L (e_pager (y_env s)) (e_committed (y_env s)) ot is es" "contents ot = d_data d"
    "slot_ok (e_pager (y_env s))" "mset (e_readers (y_env s)) = mset (map r_txn_id (y_readers s))"
    "list_all2 (reader_ok L (e_pager (y_env s)) (e_committed (y_env s)) (concat es)
       (reach (e_committed (y_env s)) (concat es) (y_writer s))) (y_readers s) (d_snaps d)"
    "work_ok L (y_env s) (concat es) (outside (e_committed (y_env s)) ot es) (y_writer s) (d_work d)"
    "y_synced s \<longrightarrow> durable L (e_pager (y_env s)) (e_committed (y_env s)) ot is es"
  using assms unfolding sim_def Let_def by blast

section \<open>Every step of the code is a step of the promise\<close>

lemma reach_simps [simp]: "reach m fl None = {}" "reach m fl (Some w) = spare m fl (w_watermark w)"
  by (simp_all add: reach_def)

lemma work_ok_simps [simp]:
  "work_ok L env fl K None xs \<longleftrightarrow> xs = None \<and> \<not> e_writer env"
  "work_ok L env fl K (Some w) xs \<longleftrightarrow> e_writer env \<and> (\<exists>ot. writer_ok L env fl K w ot \<and> xs = Some (contents ot))"
  by (simp_all add: work_ok_def)

lemma writer_ok_env: "writer_ok L env fl K w ot \<Longrightarrow> e_pager env' = e_pager env \<Longrightarrow>
    e_committed env' = e_committed env \<Longrightarrow> writer_ok L env' fl K w ot"
  by (simp add: writer_ok_def txn_ctx_def)

lemma work_ok_env: "work_ok L env fl K ow xs \<Longrightarrow> e_pager env' = e_pager env \<Longrightarrow>
    e_committed env' = e_committed env \<Longrightarrow> e_writer env' = e_writer env \<Longrightarrow> work_ok L env' fl K ow xs"
  by (cases ow) (auto dest: writer_ok_env)

lemma sim_BeginRead:
  assumes "sim L s d" "sys_step L s BeginRead = Some (s', out)"
  shows "\<exists>d'. db_step d BeginRead out = Some d' \<and> sim L s' d'"
proof -
  obtain ot "is" es where st: "committed L (e_pager (y_env s)) (e_committed (y_env s)) ot is es"
    "contents ot = d_data d"
    "slot_ok (e_pager (y_env s))" "mset (e_readers (y_env s)) = mset (map r_txn_id (y_readers s))"
    "list_all2 (reader_ok L (e_pager (y_env s)) (e_committed (y_env s)) (concat es)
       (reach (e_committed (y_env s)) (concat es) (y_writer s))) (y_readers s) (d_snaps d)"
    "work_ok L (y_env s) (concat es) (outside (e_committed (y_env s)) ot es) (y_writer s) (d_work d)"
    "y_synced s \<longrightarrow> durable L (e_pager (y_env s)) (e_committed (y_env s)) ot is es"
    by (rule simE [OF assms(1)])
  obtain r env where b: "begin_read (y_env s) = (r, env)" by fastforce
  have s': "s' = s\<lparr>y_env := env, y_readers := y_readers s @ [r]\<rparr>" "out = Done"
    using assms(2) b by simp_all
  note ok = begin_read_ok [OF st(1) b]
  have "reader_ok L (e_pager (y_env s)) (e_committed (y_env s)) (concat es)
      (reach (e_committed (y_env s)) (concat es) (y_writer s)) r (contents ot)"
    using ok(1,2) by (cases "y_writer s") auto
  moreover have "work_ok L env (concat es) (outside (e_committed (y_env s)) ot es) (y_writer s) (d_work d)"
    by (rule work_ok_env [OF st(6) ok(4,5,6)])
  ultimately show ?thesis
    using st s' ok(3,4,5) by (auto intro!: simI [of L _ ot "is" es] list_all2_appendI)
qed

lemma sim_EndRead:
  assumes "sim L s d" "sys_step L s (EndRead k) = Some (s', out)"
  shows "\<exists>d'. db_step d (EndRead k) out = Some d' \<and> sim L s' d'"
proof -
  obtain ot "is" es where st: "committed L (e_pager (y_env s)) (e_committed (y_env s)) ot is es"
    "contents ot = d_data d"
    "slot_ok (e_pager (y_env s))" "mset (e_readers (y_env s)) = mset (map r_txn_id (y_readers s))"
    "list_all2 (reader_ok L (e_pager (y_env s)) (e_committed (y_env s)) (concat es)
       (reach (e_committed (y_env s)) (concat es) (y_writer s))) (y_readers s) (d_snaps d)"
    "work_ok L (y_env s) (concat es) (outside (e_committed (y_env s)) ot es) (y_writer s) (d_work d)"
    "y_synced s \<longrightarrow> durable L (e_pager (y_env s)) (e_committed (y_env s)) ot is es"
    by (rule simE [OF assms(1)])
  let ?env = "drop_read (y_env s) (y_readers s ! k)"
  have k: "k < length (y_readers s)" and out: "out = Done"
    and s': "s' = s\<lparr>y_env := ?env, y_readers := take k (y_readers s) @ drop (Suc k) (y_readers s)\<rparr>"
    using assms(2) by (auto simp: remove_at_def split: if_splits)
  have len: "length (y_readers s) = length (d_snaps d)" by (rule list_all2_lengthD [OF st(5)])
  let ?r = "y_readers s ! k"
  have mem: "?r \<in> set (y_readers s)" using k by simp
  have "r_txn_id ?r \<in># mset (e_readers (y_env s))" unfolding st(4) using mem by auto
  then have "r_txn_id ?r \<in> set (e_readers (y_env s))" by simp
  from mset_drop_read [OF this] have
    "add_mset (r_txn_id ?r) (mset (e_readers ?env)) = mset (map r_txn_id (y_readers s))"
    using st(4) by simp
  also have "\<dots> = mset (map r_txn_id (take k (y_readers s) @ ?r # drop (Suc k) (y_readers s)))"
    using id_take_nth_drop [OF k] by simp
  finally have "mset (e_readers ?env) = mset (map r_txn_id (y_readers s'))" by (simp add: s')
  moreover have "list_all2 (reader_ok L (e_pager (y_env s)) (e_committed (y_env s)) (concat es)
       (reach (e_committed (y_env s)) (concat es) (y_writer s)))
       (take k (y_readers s) @ drop (Suc k) (y_readers s)) (take k (d_snaps d) @ drop (Suc k) (d_snaps d))"
    by (intro list_all2_appendI list_all2_takeI list_all2_dropI st(5))
  moreover have "work_ok L ?env (concat es) (outside (e_committed (y_env s)) ot es) (y_writer s) (d_work d)"
    by (rule work_ok_env [OF st(6)]) simp_all
  moreover have "db_step d (EndRead k) out = Some (d\<lparr>d_snaps := take k (d_snaps d) @ drop (Suc k) (d_snaps d)\<rparr>)"
    using k len out by (simp add: remove_at_def)
  ultimately show ?thesis
    using st(1,2,3,7) s' by (auto intro!: simI [of L _ ot "is" es])
qed

lemma sim_reads:
  assumes "sim L s d" "sys_step L s a = Some (s', out)"
    "(\<exists>k key. a = ReadGet k key) \<or> (\<exists>k lo hi. a = ReadRange k lo hi) \<or> (\<exists>key. a = WriteGet key) \<or>
     (\<exists>lo hi. a = WriteRange lo hi)"
  shows "\<exists>d'. db_step d a out = Some d' \<and> sim L s' d'"
proof -
  obtain ot "is" es where st:
    "list_all2 (reader_ok L (e_pager (y_env s)) (e_committed (y_env s)) (concat es)
       (reach (e_committed (y_env s)) (concat es) (y_writer s))) (y_readers s) (d_snaps d)"
    "work_ok L (y_env s) (concat es) (outside (e_committed (y_env s)) ot es) (y_writer s) (d_work d)"
    using simE [OF assms(1)] by metis
  have rd: "k < length (d_snaps d) \<and> reader_ok L (e_pager (y_env s)) (e_committed (y_env s)) (concat es)
       (reach (e_committed (y_env s)) (concat es) (y_writer s)) (y_readers s ! k) (d_snaps d ! k)"
    if "k < length (y_readers s)" for k
    using st(1) that by (auto simp: list_all2_conv_all_nth)
  have "s' = s \<and> db_step d a out = Some d"
    using assms(3)
  proof (elim disjE exE)
    fix k key assume a: "a = ReadGet k key"
    then have "k < length (y_readers s)" using assms(2) by (auto simp: get_at_def split: if_splits)
    with rd [OF this] show ?thesis
      using assms(2) reader_ok_get [of L "y_env s"] by (auto simp: a get_at_def)
  next
    fix k lo hi assume a: "a = ReadRange k lo hi"
    then have "k < length (y_readers s)" using assms(2) by (auto simp: get_at_def split: if_splits)
    with rd [OF this] show ?thesis
      using assms(2) reader_ok_range [of L "y_env s"] by (auto simp: a get_at_def select_def)
  next
    fix key assume a: "a = WriteGet key"
    then obtain w where "y_writer s = Some w" using assms(2) by (auto simp: bind_Some_iff)
    then show ?thesis using assms(2) st(2) write_get_ok by (auto simp: a)
  next
    fix lo hi assume a: "a = WriteRange lo hi"
    then obtain w where "y_writer s = Some w" using assms(2) by (auto simp: bind_Some_iff)
    then show ?thesis using assms(2) st(2) write_range_ok by (auto simp: a select_def)
  qed
  then show ?thesis using assms(1) by blast
qed

lemma sim_BeginWrite:
  assumes "sim L s d" "sys_step L s BeginWrite = Some (s', out)"
  shows "\<exists>d'. db_step d BeginWrite out = Some d' \<and> sim L s' d'"
proof -
  obtain ot "is" es where st: "committed L (e_pager (y_env s)) (e_committed (y_env s)) ot is es"
    "contents ot = d_data d"
    "slot_ok (e_pager (y_env s))" "mset (e_readers (y_env s)) = mset (map r_txn_id (y_readers s))"
    "list_all2 (reader_ok L (e_pager (y_env s)) (e_committed (y_env s)) (concat es)
       (reach (e_committed (y_env s)) (concat es) (y_writer s))) (y_readers s) (d_snaps d)"
    "work_ok L (y_env s) (concat es) (outside (e_committed (y_env s)) ot es) (y_writer s) (d_work d)"
    "y_synced s \<longrightarrow> durable L (e_pager (y_env s)) (e_committed (y_env s)) ot is es"
    by (rule simE [OF assms(1)])
  have none: "y_writer s = None" using assms(2) by (auto split: option.splits)
  then have nw: "\<not> e_writer (y_env s)" "d_work d = None" using st(6) by auto
  let ?env = "(y_env s)\<lparr>e_writer := True\<rparr>"
  obtain w where w: "begin_write L (y_env s) = Some (w, ?env)" "writer_ok L ?env (concat es) (outside (e_committed (y_env s)) ot es) w ot"
      "w_watermark w = (case oldest_reader_txn_id (y_env s) of None \<Rightarrow> u64_max | Some t \<Rightarrow> t)"
    by (rule begin_write_ok [OF st(1) nw(1)])
  have s': "s' = s\<lparr>y_env := ?env, y_writer := Some w\<rparr>" "out = Done"
    using assms(2) none w(1) by simp_all
  have "list_all2 (reader_ok L (e_pager (y_env s)) (e_committed (y_env s)) (concat es)
      (spare (e_committed (y_env s)) (concat es) (w_watermark w))) (y_readers s) (d_snaps d)"
    unfolding list_all2_conv_all_nth
  proof (intro conjI allI impI)
    show "length (y_readers s) = length (d_snaps d)" by (rule list_all2_lengthD [OF st(5)])
    fix k assume k: "k < length (y_readers s)"
    then have "y_readers s ! k \<in> set (y_readers s)" by simp
    then have "r_txn_id (y_readers s ! k) \<in># mset (e_readers (y_env s))" unfolding st(4) by auto
    then have mem: "r_txn_id (y_readers s ! k) \<in> set (e_readers (y_env s))" by simp
    have "reader_ok L (e_pager (y_env s)) (e_committed (y_env s)) (concat es) {} (y_readers s ! k) (d_snaps d ! k)"
      using st(5) k none by (auto simp: list_all2_conv_all_nth)
    then show "reader_ok L (e_pager (y_env s)) (e_committed (y_env s)) (concat es)
      (spare (e_committed (y_env s)) (concat es) (w_watermark w)) (y_readers s ! k) (d_snaps d ! k)"
      unfolding w(3) using mem by (rule reader_ok_begin_write)
  qed
  moreover have "work_ok L ?env (concat es) (outside (e_committed (y_env s)) ot es) (Some w) (Some (d_data d))"
    using w(2) st(2) [symmetric] by auto
  ultimately have "sim L s' (d\<lparr>d_work := Some (d_data d)\<rparr>)"
    using st(1-4,7) s' by (intro simI [of L _ ot "is" es]) (simp_all del: work_ok_simps)
  then show ?thesis using s'(2) nw(2) by simp
qed

text \<open>A step of the writer on its tree.\<close>

lemma sim_work:
  assumes "sim L s d" "y_writer s = Some w"
    and step: "\<And>fl K ot. writer_ok L (y_env s) fl K w ot \<Longrightarrow> d_work d = Some (contents ot) \<Longrightarrow>
      (\<exists>ot'. writer_ok L env fl K w' ot' \<and> contents ot' = xs) \<and>
      wrote (spare (e_committed (y_env s)) fl (w_watermark w)) (e_pager (y_env s)) (e_pager env) \<and>
      env = (y_env s)\<lparr>e_pager := e_pager env\<rparr> \<and> w_watermark w' = w_watermark w"
  shows "sim L (s\<lparr>y_env := env, y_writer := Some w'\<rparr>) (d\<lparr>d_work := Some xs\<rparr>)"
proof -
  obtain ot "is" es where st: "committed L (e_pager (y_env s)) (e_committed (y_env s)) ot is es"
    "contents ot = d_data d"
    "slot_ok (e_pager (y_env s))" "mset (e_readers (y_env s)) = mset (map r_txn_id (y_readers s))"
    "list_all2 (reader_ok L (e_pager (y_env s)) (e_committed (y_env s)) (concat es)
       (reach (e_committed (y_env s)) (concat es) (y_writer s))) (y_readers s) (d_snaps d)"
    "work_ok L (y_env s) (concat es) (outside (e_committed (y_env s)) ot es) (y_writer s) (d_work d)"
    "y_synced s \<longrightarrow> durable L (e_pager (y_env s)) (e_committed (y_env s)) ot is es"
    by (rule simE [OF assms(1)])
  obtain ot1 where w: "writer_ok L (y_env s) (concat es) (outside (e_committed (y_env s)) ot es) w ot1" "d_work d = Some (contents ot1)"
      "e_writer (y_env s)"
    using st(6) assms(2) by auto
  let ?S = "spare (e_committed (y_env s)) (concat es) (w_watermark w)"
  obtain ot' where w': "writer_ok L env (concat es) (outside (e_committed (y_env s)) ot es) w' ot'" "contents ot' = xs"
      and wr: "wrote ?S (e_pager (y_env s)) (e_pager env)"
      and env: "env = (y_env s)\<lparr>e_pager := e_pager env\<rparr>" and wm: "w_watermark w' = w_watermark w"
    using step [OF w(1,2)] by blast
  have f: "e_committed env = e_committed (y_env s)" "e_readers env = e_readers (y_env s)"
      "e_writer env = e_writer (y_env s)"
    by (subst env, simp)+
  have co: "committed L (e_pager env) (e_committed env) ot is es"
    unfolding f by (rule committed_wrote [OF st(1) wr order.refl])
  have rd: "list_all2 (reader_ok L (e_pager env) (e_committed env) (concat es) ?S) (y_readers s) (d_snaps d)"
    unfolding f by (rule list_all2_mono [OF st(5)])
      (use assms(2) in \<open>auto intro: reader_ok_wrote [OF _ wr order.refl]\<close>)
  have du: "y_synced s \<longrightarrow> durable L (e_pager env) (e_committed env) ot is es"
    unfolding f using st(7) durable_wrote [OF _ wr order.refl] by blast
  show ?thesis
    by (rule simI [of L _ ot "is" es])
      (use st(2,4) co rd du w' w(3) f wm wrote_slot [OF wr st(3)] in auto)
qed

lemma sim_WritePut:
  assumes L: "lib_ok L" and "sim L s d" "sys_step L s (WritePut key value) = Some (s', out)"
  shows "\<exists>d'. db_step d (WritePut key value) out = Some d' \<and> sim L s' d'"
proof -
  obtain w w' env where w: "y_writer s = Some w" "write_put L (y_env s) w key value = Some (w', env)"
      and s': "s' = s\<lparr>y_env := env, y_writer := Some w'\<rparr>" "out = Done"
    using assms(3) by (auto simp: bind_Some_iff)
  obtain xs where xs: "d_work d = Some xs"
    using simE [OF assms(2)] w(1) by (metis work_ok_simps(2))
  have "sim L (s\<lparr>y_env := env, y_writer := Some w'\<rparr>) (d\<lparr>d_work := Some (ins key value xs)\<rparr>)"
    by (rule sim_work [OF assms(2) w(1)]) (use xs in \<open>auto elim!: write_put_ok [OF L _ w(2)]\<close>)
  then show ?thesis using xs s' by simp
qed

lemma sim_WriteDelete:
  assumes "sim L s d" "sys_step L s (WriteDelete key) = Some (s', out)"
  shows "\<exists>d'. db_step d (WriteDelete key) out = Some d' \<and> sim L s' d'"
proof -
  obtain w w' env b where w: "y_writer s = Some w" "write_delete L (y_env s) w key = Some (b, w', env)"
      and s': "s' = s\<lparr>y_env := env, y_writer := Some w'\<rparr>" "out = Existed b"
    using assms(2) by (auto simp: bind_Some_iff)
  obtain fl K ot where xs: "d_work d = Some (contents ot)" "writer_ok L (y_env s) fl K w ot"
    using simE [OF assms(1)] w(1) by (metis work_ok_simps(2))
  have b: "b = (map_of (contents ot) key \<noteq> None)"
    by (rule write_delete_ok [OF xs(2) w(2)]) simp
  have "sim L (s\<lparr>y_env := env, y_writer := Some w'\<rparr>) (d\<lparr>d_work := Some (del key (contents ot))\<rparr>)"
    by (rule sim_work [OF assms(1) w(1)]) (use xs(1) in \<open>auto elim!: write_delete_ok [OF _ w(2)]\<close>)
  then show ?thesis using xs(1) b s' by simp
qed

lemma sim_Rollback:
  assumes "sim L s d" "sys_step L s Rollback = Some (s', out)"
  shows "\<exists>d'. db_step d Rollback out = Some d' \<and> sim L s' d'"
proof -
  obtain ot "is" es where st: "committed L (e_pager (y_env s)) (e_committed (y_env s)) ot is es"
    "contents ot = d_data d"
    "slot_ok (e_pager (y_env s))" "mset (e_readers (y_env s)) = mset (map r_txn_id (y_readers s))"
    "list_all2 (reader_ok L (e_pager (y_env s)) (e_committed (y_env s)) (concat es)
       (reach (e_committed (y_env s)) (concat es) (y_writer s))) (y_readers s) (d_snaps d)"
    "work_ok L (y_env s) (concat es) (outside (e_committed (y_env s)) ot es) (y_writer s) (d_work d)"
    "y_synced s \<longrightarrow> durable L (e_pager (y_env s)) (e_committed (y_env s)) ot is es"
    by (rule simE [OF assms(1)])
  obtain w where w: "y_writer s = Some w" and s': "s' = s\<lparr>y_env := rollback (y_env s) w, y_writer := None\<rparr>"
      "out = Done"
    using assms(2) by (auto simp: bind_Some_iff)
  have r: "reader_ok L p m fl {} r xs" if "reader_ok L p m fl A r xs" for p m fl A r xs
    using that by (auto simp: reader_ok_def)
  have "list_all2 (reader_ok L (e_pager (y_env s)) (e_committed (y_env s)) (concat es) {})
      (y_readers s) (d_snaps d)"
    by (rule list_all2_mono [OF st(5)]) (rule r)
  moreover obtain xs where "d_work d = Some xs" using st(6) w by auto
  ultimately show ?thesis
    using st s' by (auto simp: rollback_def intro!: simI [of L _ ot "is" es])
qed

lemma sim_Commit:
  assumes L: "lib_ok L" and "sim L s d" "sys_step L s Commit = Some (s', out)"
  shows "\<exists>d'. db_step d Commit out = Some d' \<and> sim L s' d'"
proof -
  obtain ot0 is0 es0 where st: "committed L (e_pager (y_env s)) (e_committed (y_env s)) ot0 is0 es0"
    "contents ot0 = d_data d"
    "slot_ok (e_pager (y_env s))" "mset (e_readers (y_env s)) = mset (map r_txn_id (y_readers s))"
    "list_all2 (reader_ok L (e_pager (y_env s)) (e_committed (y_env s)) (concat es0)
       (reach (e_committed (y_env s)) (concat es0) (y_writer s))) (y_readers s) (d_snaps d)"
    "work_ok L (y_env s) (concat es0) (outside (e_committed (y_env s)) ot0 es0) (y_writer s) (d_work d)"
    "y_synced s \<longrightarrow> durable L (e_pager (y_env s)) (e_committed (y_env s)) ot0 is0 es0"
    by (rule simE [OF assms(2)])
  obtain w env r where w: "y_writer s = Some w" and c: "commit L (y_env s) w = Some (env, r)"
      and s': "s' = s\<lparr>y_env := env, y_writer := None, y_synced := y_synced s \<and> r \<noteq> Inl SyncFailed\<rparr>"
        "out = (case r of Inl e \<Rightarrow> Failed e | Inr _ \<Rightarrow> Done)"
    using assms(3) by (auto simp: bind_Some_iff)
  obtain ot where ot: "writer_ok L (y_env s) (concat es0) (outside (e_committed (y_env s)) ot0 es0) w ot" "d_work d = Some (contents ot)"
    using st(6) w by auto
  let ?S = "spare (e_committed (y_env s)) (concat es0) (w_watermark w)"
  have rd: "list_all2 (reader_ok L (e_pager (y_env s)) (e_committed (y_env s)) (concat es0) ?S)
      (y_readers s) (d_snaps d)"
    using st(5) w by simp
  note ck = commit_keeps [OF ot(1) st(3) c]
  show ?thesis
  proof (cases r)
    case (Inl e)
    have co: "committed L (e_pager env) (e_committed env) ot0 is0 es0"
      by (rule commit_fail_committed [OF st(1,3) ot(1) c [unfolded Inl]])
    have r: "reader_ok L (e_pager env) (e_committed env) (concat es0) {} r xs"
      if "reader_ok L (e_pager (y_env s)) (e_committed (y_env s)) (concat es0) ?S r xs" for r xs
      using reader_ok_keeps [OF that ck(5)] ck(4) [OF Inl] by (auto simp: reader_ok_def)
    have "list_all2 (reader_ok L (e_pager env) (e_committed env) (concat es0) {}) (y_readers s) (d_snaps d)"
      by (rule list_all2_mono [OF rd]) (rule r)
    moreover have "y_synced s \<and> e \<noteq> SyncFailed \<longrightarrow> durable L (e_pager env) (e_committed env) ot0 is0 es0"
      using durable_commit_fail [OF L _ ot(1) c [unfolded Inl]] st(7) by blast
    ultimately show ?thesis
      using co st(2,4) s' ot(2) Inl ck by (auto intro!: simI [of L _ ot0 is0 es0])
  next
    case (Inr u)
    note c = c [unfolded Inr]
    obtain "is" es where co: "committed L (e_pager env) (e_committed env) ot is es"
        "txn_id (e_committed env) = txn_id (e_committed (y_env s)) + 1" "txn_id (e_committed (y_env s)) \<noteq> u64_max"
        "next_page (e_committed (y_env s)) \<le> next_page (e_committed env)"
        "mset (concat es) = mset (freed_entries (txn_id (e_committed env)) w)"
      by (rule commit_ok [OF L st(1,3) ot(1) c])
    have "list_all2 (reader_ok L (e_pager env) (e_committed env) (concat es) {}) (y_readers s) (d_snaps d)"
      by (rule list_all2_mono [OF rd]) (rule reader_ok_commit [OF L st(3) ot(1) c _ co(2-5)])
    moreover have "y_synced s \<longrightarrow> durable L (e_pager env) (e_committed env) ot is es"
    proof
      assume "y_synced s"
      then have d: "durable L (e_pager (y_env s)) (e_committed (y_env s)) ot0 is0 es0" using st(7) by simp
      show "durable L (e_pager env) (e_committed env) ot is es"
        by (rule durable_commit_ok [OF L d ot(1) c co(1)]) (use co(2,3) in \<open>simp add: less_plus_one\<close>)
    qed
    ultimately show ?thesis
      using co(1) st(4) s' ot(2) Inr ck by (auto intro!: simI [of L _ ot "is" es])
  qed
qed

lemma sim_step:
  assumes "lib_ok L" "sim L s d" "sys_step L s a = Some (s', out)"
  shows "\<exists>d'. db_step d a out = Some d' \<and> sim L s' d'"
proof (cases a)
  case (ReadGet k key)
  then show ?thesis using sim_reads [OF assms(2,3)] by blast
next
  case (ReadRange k lo hi)
  then show ?thesis using sim_reads [OF assms(2,3)] by blast
next
  case (WriteGet key)
  then show ?thesis using sim_reads [OF assms(2,3)] by blast
next
  case (WriteRange lo hi)
  then show ?thesis using sim_reads [OF assms(2,3)] by blast
next
  case BeginRead
  then show ?thesis using sim_BeginRead [OF assms(2)] assms(3) by simp
next
  case (EndRead k)
  then show ?thesis using sim_EndRead [OF assms(2)] assms(3) by simp
next
  case BeginWrite
  then show ?thesis using sim_BeginWrite [OF assms(2)] assms(3) by simp
next
  case (WritePut key "value")
  then show ?thesis using sim_WritePut [OF assms(1,2)] assms(3) by simp
next
  case (WriteDelete key)
  then show ?thesis using sim_WriteDelete [OF assms(2)] assms(3) by simp
next
  case Commit
  then show ?thesis using sim_Commit [OF assms(1,2)] assms(3) by simp
next
  case Rollback
  then show ?thesis using sim_Rollback [OF assms(2)] assms(3) by simp
qed

text \<open>The library is fixed here, so the relation carries that it is a proper one.\<close>

interpretation mvcc: simulation "sys_step L" db_step "\<lambda>s d. lib_ok L \<and> sim L s d" for L
  by unfold_locales (use sim_step in blast)

end
