(* ===== verification/File_Control.thy ===== *)
theory File_Control
  imports MVCC
begin

text \<open>
  src/error.rs and src/runtime/file_control.rs: the file control table and the EXEC CICS
  file commands on a write transaction.

  The commands use of \<open>WriteTxn\<close> only its methods. They take them as a dictionary
  (\<open>store_ops\<close>) over an environment and a transaction, \<open>txn_store\<close> being the dictionary of
  src/storage/txn.rs; the locale \<open>task_store\<close> states what the runtime relies on, and its
  interpretation proves it of \<open>txn_store\<close>. A second dictionary, \<open>rows_store\<close>, is the
  reference: sorted lists, with the outcome of each commit given in advance.

  A command gives None for a panic, else an error or its value.
\<close>

section \<open>error.rs\<close>

datatype cics_error =
    Io io_error | FileNotFound string | RecordNotFound bytes string | DuplicateKey bytes string
  | ProgramNotFound string | LinkStackOverflow string | InvalidRequest string | TaskNotFound u64

section \<open>The store as the runtime uses it\<close>

record ('e, 'w) store_ops =
  s_begin :: "'e \<Rightarrow> ('w \<times> 'e) option"
  s_get :: "'e \<Rightarrow> 'w \<Rightarrow> bytes \<Rightarrow> bytes option option"
  s_range :: "'e \<Rightarrow> 'w \<Rightarrow> bytes option \<Rightarrow> bytes option \<Rightarrow> rows option"
  s_put :: "'e \<Rightarrow> 'w \<Rightarrow> bytes \<Rightarrow> bytes \<Rightarrow> ('w \<times> 'e) option"
  s_delete :: "'e \<Rightarrow> 'w \<Rightarrow> bytes \<Rightarrow> (bool \<times> 'w \<times> 'e) option"
  s_commit :: "'e \<Rightarrow> 'w \<Rightarrow> ('e \<times> (io_error + unit)) option"
  s_rollback :: "'e \<Rightarrow> 'w \<Rightarrow> 'e"

definition txn_store :: "lib \<Rightarrow> (environment, write_txn) store_ops" where
  "txn_store L = \<lparr>s_begin = begin_write L, s_get = write_get L, s_range = write_range L,
     s_put = write_put L, s_delete = write_delete L, s_commit = commit L, s_rollback = rollback\<rparr>"

locale task_store =
  fixes S :: "('e, 'w) store_ops"
    and idle :: "'e \<Rightarrow> rows \<Rightarrow> bool"
    and busy :: "'e \<Rightarrow> 'w \<Rightarrow> rows \<Rightarrow> rows \<Rightarrow> bool"
  assumes begin_ok: "idle e xs \<Longrightarrow> \<exists>w e'. s_begin S e = Some (w, e') \<and> busy e' w xs xs"
    and get_ok: "busy e w xs ys \<Longrightarrow> s_get S e w k = Some (map_of ys k)"
    and range_ok: "busy e w xs ys \<Longrightarrow> s_range S e w lo hi = Some (select lo hi ys)"
    and put_ok: "busy e w xs ys \<Longrightarrow> s_put S e w k v = Some (w', e') \<Longrightarrow> busy e' w' xs (ins k v ys)"
    and delete_ok: "busy e w xs ys \<Longrightarrow> s_delete S e w k = Some (b, w', e') \<Longrightarrow>
      b = (map_of ys k \<noteq> None) \<and> busy e' w' xs (del k ys)"
    and commit_ok: "busy e w xs ys \<Longrightarrow> s_commit S e w = Some (e', Inr u) \<Longrightarrow> idle e' ys"
    and commit_fail: "busy e w xs ys \<Longrightarrow> s_commit S e w = Some (e', Inl er) \<Longrightarrow> idle e' xs"
    and rollback_ok: "busy e w xs ys \<Longrightarrow> idle (s_rollback S e w) xs"
    and busy_sorted: "busy e w xs ys \<Longrightarrow> sorted_wrt (<) (map fst ys)"

text \<open>The B-tree store: idle and busy are the states of the simulation of MVCC.\<close>

definition store_idle :: "lib \<Rightarrow> environment \<Rightarrow> rows \<Rightarrow> bool" where
  "store_idle L env xs \<longleftrightarrow> lib_ok L \<and>
     (\<exists>rs snaps b. sim L \<lparr>y_env = env, y_readers = rs, y_writer = None, y_synced = b\<rparr>
        \<lparr>d_data = xs, d_snaps = snaps, d_work = None\<rparr>)"

definition store_busy :: "lib \<Rightarrow> environment \<Rightarrow> write_txn \<Rightarrow> rows \<Rightarrow> rows \<Rightarrow> bool" where
  "store_busy L env w xs ys \<longleftrightarrow> lib_ok L \<and>
     (\<exists>rs snaps b. sim L \<lparr>y_env = env, y_readers = rs, y_writer = Some w, y_synced = b\<rparr>
        \<lparr>d_data = xs, d_snaps = snaps, d_work = Some ys\<rparr>)"

lemma store_busy_writer:
  assumes "store_busy L env w xs ys"
  obtains fl K ot where "writer_ok L env fl K w ot" "contents ot = ys"
proof -
  obtain rs snaps b where s: "sim L \<lparr>y_env = env, y_readers = rs, y_writer = Some w, y_synced = b\<rparr>
        \<lparr>d_data = xs, d_snaps = snaps, d_work = Some ys\<rparr>"
    using assms by (auto simp: store_busy_def)
  show thesis by (rule simE [OF s]) (auto intro: that)
qed

interpretation txn_task: task_store "txn_store L" "store_idle L" "store_busy L" for L
proof
  fix e xs
  assume "store_idle L e xs"
  then obtain rs snaps b where L: "lib_ok L" and
      s: "sim L \<lparr>y_env = e, y_readers = rs, y_writer = None, y_synced = b\<rparr>
        \<lparr>d_data = xs, d_snaps = snaps, d_work = None\<rparr>" (is "sim L ?s ?d")
    by (auto simp: store_idle_def)
  obtain ot "is" es where "committed L (e_pager (y_env ?s)) (e_committed (y_env ?s)) ot is es"
      "work_ok L (y_env ?s) (concat es) (outside (e_committed (y_env ?s)) ot es) (y_writer ?s) (d_work ?d)"
    by (rule simE [OF s])
  then obtain w where w: "begin_write L e = Some (w, e\<lparr>e_writer := True\<rparr>)"
    using begin_write_ok [of L e ot "is" es] by auto
  have "store_busy L (e\<lparr>e_writer := True\<rparr>) w xs xs"
    using sim_step [OF L s, of BeginWrite] w L by (auto simp: store_busy_def)
  then show "\<exists>w e'. s_begin (txn_store L) e = Some (w, e') \<and> store_busy L e' w xs xs"
    using w by (simp add: txn_store_def)
next
  fix e w xs ys k
  assume "store_busy L e w xs ys"
  then obtain fl K ot where "writer_ok L e fl K w ot" "contents ot = ys" by (rule store_busy_writer)
  then show "s_get (txn_store L) e w k = Some (map_of ys k)"
    using write_get_ok by (simp add: txn_store_def)
next
  fix e w xs ys lo hi
  assume "store_busy L e w xs ys"
  then obtain fl K ot where "writer_ok L e fl K w ot" "contents ot = ys" by (rule store_busy_writer)
  then show "s_range (txn_store L) e w lo hi = Some (select lo hi ys)"
    using write_range_ok by (simp add: txn_store_def select_def)
next
  fix e w xs ys
  assume "store_busy L e w xs ys"
  then obtain rs snaps b where L: "lib_ok L" and
      s: "sim L \<lparr>y_env = e, y_readers = rs, y_writer = Some w, y_synced = b\<rparr>
        \<lparr>d_data = xs, d_snaps = snaps, d_work = Some ys\<rparr>"
    by (auto simp: store_busy_def)
  note step = sim_step [OF L s]
  show "store_busy L e' w' xs (ins k v ys)" if "s_put (txn_store L) e w k v = Some (w', e')" for k v w' e'
    using step [of "WritePut k v"] that L by (auto simp: txn_store_def store_busy_def)
  show "bb = (map_of ys k \<noteq> None) \<and> store_busy L e' w' xs (del k ys)"
    if "s_delete (txn_store L) e w k = Some (bb, w', e')" for k bb w' e'
    using step [of "WriteDelete k"] that L by (auto simp: txn_store_def store_busy_def)
  show "store_idle L e' ys" if "s_commit (txn_store L) e w = Some (e', Inr u)" for e' u
    using step [of Commit] that L by (auto simp: txn_store_def store_idle_def)
  show "store_idle L e' xs" if "s_commit (txn_store L) e w = Some (e', Inl er)" for e' er
    using step [of Commit] that L by (auto simp: txn_store_def store_idle_def)
  show "store_idle L (s_rollback (txn_store L) e w) xs"
    using step [of Rollback] L by (auto simp: txn_store_def store_idle_def)
  show "sorted_wrt (<) (map fst ys)"
  proof -
    obtain fl K ot where "writer_ok L e fl K w ot" "contents ot = ys"
      using \<open>store_busy L e w xs ys\<close> by (rule store_busy_writer)
    then show ?thesis using wf_tree_sorted by (auto simp: writer_ok_def fst_contents)
  qed
qed

text \<open>
  Operations that change the store also return when it has room: for two pages per level of
  the tree and the pages of the value; and a commit when the staged nodes fit in their pages.
\<close>

locale sized_store = task_store S idle busy
  for S :: "('e, 'w) store_ops" and idle busy +
  fixes enough :: "'e \<Rightarrow> 'w \<Rightarrow> bytes \<Rightarrow> bool"
    and ready :: "'e \<Rightarrow> 'w \<Rightarrow> bool"
  assumes put_returns: "busy e w xs ys \<Longrightarrow> enough e w v \<Longrightarrow> s_put S e w k v \<noteq> None"
    and delete_returns: "busy e w xs ys \<Longrightarrow> enough e w v \<Longrightarrow> s_delete S e w k \<noteq> None"
    and commit_returns: "busy e w xs ys \<Longrightarrow> ready e w \<Longrightarrow> \<exists>e'. s_commit S e w = Some (e', Inr ())"

definition store_room :: "lib \<Rightarrow> environment \<Rightarrow> write_txn \<Rightarrow> bytes \<Rightarrow> bool" where
  "store_room L env w v \<longleftrightarrow> lib_sizes L \<and>
     (\<exists>fl K ot. writer_ok L env fl K w ot \<and> room (txn_ctx env w) (put_pages ot v))"

definition store_ready :: "lib \<Rightarrow> environment \<Rightarrow> write_txn \<Rightarrow> bool" where
  "store_ready L env w \<longleftrightarrow> lib_sizes L \<and> fits (w_overlay w) \<and> room (txn_ctx env w) (freelist_pages w) \<and>
     txn_id (e_committed env) \<noteq> u64_max \<and> p_syncs (e_pager env) = []"

interpretation txn_sized: sized_store "txn_store L" "store_idle L" "store_busy L" "store_room L" "store_ready L" for L
proof
  fix e w xs ys v k
  assume b: "store_busy L e w xs ys" and r: "store_room L e w v"
  then obtain fl K ot where L: "lib_ok L" "lib_sizes L" and w: "writer_ok L e fl K w ot"
      and room: "room (txn_ctx e w) (put_pages ot v + 0)"
    by (auto simp: store_busy_def store_room_def)
  have wf: "wf_tree L (txn_ctx e w) ot" "cinv (txn_ctx e w) (tnodes ot) (tvals ot + K)" "w_root w = root_of ot"
    using w by (simp_all add: writer_ok_def)
  show "s_put (txn_store L) e w k v \<noteq> None"
    using btree_put_total [OF L wf(1,2) room, of k] wf(3) by (auto simp: txn_store_def write_put_def)
  have "room (txn_ctx e w) (delete_pages ot + 0)"
    using room by (auto simp: delete_pages_def put_pages_def elim: room_mono)
  then show "s_delete (txn_store L) e w k \<noteq> None"
    using btree_delete_total [OF wf(1,2), of 0 k] wf(3) by (auto simp: txn_store_def write_delete_def)
next
  fix e w xs ys
  assume b: "store_busy L e w xs ys" and r: "store_ready L e w"
  from b obtain rs snaps c where L: "lib_ok L" and
      s: "sim L \<lparr>y_env = e, y_readers = rs, y_writer = Some w, y_synced = c\<rparr>
        \<lparr>d_data = xs, d_snaps = snaps, d_work = Some ys\<rparr>" (is "sim L ?s ?d")
    by (auto simp: store_busy_def)
  obtain fl K ot where w: "writer_ok L (y_env ?s) fl K w ot" "slot_ok (e_pager (y_env ?s))"
    using simE [OF s] by (metis sys.select_convs(1,3) work_ok_simps(2) db.select_convs(3))
  then show "\<exists>e'. s_commit (txn_store L) e w = Some (e', Inr ())"
    using commit_total [OF L _ _ _, of e fl K w ot] r by (auto simp: store_ready_def txn_store_def)
qed

text \<open>The reference: committed rows with the outcomes of the commits to come (an error, or None for
  success; when none are left, all succeed), and working rows.\<close>

record ideal =
  i_rows :: rows
  i_outcomes :: "io_error option list"

definition rows_store :: "(ideal, rows) store_ops" where
  "rows_store = \<lparr>s_begin = (\<lambda>e. Some (i_rows e, e)), s_get = (\<lambda>e w k. Some (map_of w k)),
     s_range = (\<lambda>e w lo hi. Some (select lo hi w)), s_put = (\<lambda>e w k v. Some (ins k v w, e)),
     s_delete = (\<lambda>e w k. Some (map_of w k \<noteq> None, del k w, e)),
     s_commit = (\<lambda>e w. case i_outcomes e of [] \<Rightarrow> Some (e\<lparr>i_rows := w\<rparr>, Inr ())
       | None # rest \<Rightarrow> Some (\<lparr>i_rows = w, i_outcomes = rest\<rparr>, Inr ())
       | Some er # rest \<Rightarrow> Some (e\<lparr>i_outcomes := rest\<rparr>, Inl er)),
     s_rollback = (\<lambda>e w. e)\<rparr>"

interpretation rows_task: task_store rows_store
  "\<lambda>e xs. i_rows e = xs \<and> sorted_wrt (<) (map fst xs)"
  "\<lambda>e w xs ys. i_rows e = xs \<and> w = ys \<and> sorted_wrt (<) (map fst xs) \<and> sorted_wrt (<) (map fst ys)"
  by unfold_locales (auto simp: rows_store_def sorted_ins sorted_del split: list.splits option.splits)

section \<open>file_control.rs\<close>

type_synonym file_id = u32

record file_control_table =
  files :: "string \<rightharpoonup> file_id"
  next_id :: file_id

definition new_fct :: file_control_table where
  "new_fct = \<lparr>files = Map.empty, next_id = 0\<rparr>"

definition define_file :: "file_control_table \<Rightarrow> string \<Rightarrow> (file_id \<times> file_control_table) option" where
  "define_file fct name =
     (if next_id fct = - 1 then None
      else Some (next_id fct, \<lparr>files = (files fct)(name \<mapsto> next_id fct), next_id = next_id fct + 1\<rparr>))"

definition resolve_file :: "file_control_table \<Rightarrow> string \<Rightarrow> cics_error + file_id" where
  "resolve_file fct name =
     (case files fct name of None \<Rightarrow> Inl (FileNotFound name) | Some fid \<Rightarrow> Inr fid)"

definition storage_key :: "file_id \<Rightarrow> bytes \<Rightarrow> bytes" where
  "storage_key fid record_key = be_bytes 4 fid @ record_key"

definition exec_read :: "('e, 'w) store_ops \<Rightarrow> 'e \<Rightarrow> 'w \<Rightarrow> file_control_table \<Rightarrow> string \<Rightarrow> bytes \<Rightarrow>
    (cics_error + bytes) option" where
  "exec_read S e w fct file key =
     (case resolve_file fct file of Inl er \<Rightarrow> Some (Inl er)
      | Inr fid \<Rightarrow> do {
          v \<leftarrow> s_get S e w (storage_key fid key);
          Some (case v of None \<Rightarrow> Inl (RecordNotFound key file) | Some data \<Rightarrow> Inr data) })"

definition exec_write :: "('e, 'w) store_ops \<Rightarrow> 'e \<Rightarrow> 'w \<Rightarrow> file_control_table \<Rightarrow> string \<Rightarrow> bytes \<Rightarrow> bytes \<Rightarrow>
    ((cics_error + unit) \<times> 'w \<times> 'e) option" where
  "exec_write S e w fct file key data =
     (case resolve_file fct file of Inl er \<Rightarrow> Some (Inl er, w, e)
      | Inr fid \<Rightarrow> do {
          let skey = storage_key fid key;
          v \<leftarrow> s_get S e w skey;
          if v \<noteq> None then Some (Inl (DuplicateKey key file), w, e)
          else do { (w', e') \<leftarrow> s_put S e w skey data; Some (Inr (), w', e') } })"

definition exec_rewrite :: "('e, 'w) store_ops \<Rightarrow> 'e \<Rightarrow> 'w \<Rightarrow> file_control_table \<Rightarrow> string \<Rightarrow> bytes \<Rightarrow> bytes \<Rightarrow>
    ((cics_error + unit) \<times> 'w \<times> 'e) option" where
  "exec_rewrite S e w fct file key data =
     (case resolve_file fct file of Inl er \<Rightarrow> Some (Inl er, w, e)
      | Inr fid \<Rightarrow> do {
          let skey = storage_key fid key;
          v \<leftarrow> s_get S e w skey;
          if v = None then Some (Inl (RecordNotFound key file), w, e)
          else do { (w', e') \<leftarrow> s_put S e w skey data; Some (Inr (), w', e') } })"

definition exec_delete :: "('e, 'w) store_ops \<Rightarrow> 'e \<Rightarrow> 'w \<Rightarrow> file_control_table \<Rightarrow> string \<Rightarrow> bytes \<Rightarrow>
    ((cics_error + unit) \<times> 'w \<times> 'e) option" where
  "exec_delete S e w fct file key =
     (case resolve_file fct file of Inl er \<Rightarrow> Some (Inl er, w, e)
      | Inr fid \<Rightarrow> do {
          (existed, w', e') \<leftarrow> s_delete S e w (storage_key fid key);
          Some (if \<not> existed then Inl (RecordNotFound key file) else Inr (), w', e') })"

text \<open>\<open>id + 1\<close> overflows for the last file fid (a panic in a debug build), and the slice
  \<open>k[4..]\<close> panics on a key shorter than a file fid.\<close>

fun strip_rows :: "rows \<Rightarrow> rows option" where
  "strip_rows [] = Some []"
| "strip_rows ((k, v) # rest) =
     do { k' \<leftarrow> slice_from k 4; rest' \<leftarrow> strip_rows rest; Some ((k', v) # rest') }"

definition exec_browse :: "('e, 'w) store_ops \<Rightarrow> 'e \<Rightarrow> 'w \<Rightarrow> file_control_table \<Rightarrow> string \<Rightarrow> bytes option \<Rightarrow>
    nat \<Rightarrow> (cics_error + rows) option" where
  "exec_browse S e w fct file start_key limit =
     (case resolve_file fct file of Inl er \<Rightarrow> Some (Inl er)
      | Inr fid \<Rightarrow>
          if fid = - 1 then None
          else do {
            let lo = storage_key fid (case start_key of None \<Rightarrow> [] | Some k \<Rightarrow> k);
            let hi = storage_key (fid + 1) [];
            rows \<leftarrow> s_range S e w (Some lo) (Some hi);
            rows' \<leftarrow> strip_rows (take limit rows);
            Some (Inr rows') })"

section \<open>Keys of distinct files\<close>

lemma storage_key_inj [simp]: "storage_key i k = storage_key j l \<longleftrightarrow> i = j \<and> k = l"
  by (auto simp: storage_key_def dest: append_eq_append_conv [THEN iffD1, rotated])

text \<open>Big-endian numbers of the same length are ordered as their bytes are.\<close>

lemma less_same_length_append:
  "length xs = length ys \<Longrightarrow> (xs @ us < ys @ vs) = (xs < ys \<or> xs = ys \<and> us < (vs :: bytes))"
proof (induction xs ys rule: list_induct2)
  case (Cons x xs y ys)
  then show ?case by (auto simp: )
qed simp

lemma be_bytes_Suc: "be_bytes (Suc n) w = be_bytes n (drop_bit 8 w) @ [ucast w]"
  by (simp add: be_bytes_def le_bytes_Suc)

lemma less_drop_bit:
  fixes x y :: "'a::len word"
  shows "x < y \<longleftrightarrow> drop_bit 8 x < drop_bit 8 y \<or>
    drop_bit 8 x = drop_bit 8 y \<and> (ucast x :: byte) < ucast y"
proof -
  have dec: "unat w = unat (drop_bit 8 w) * 256 + unat (ucast w :: byte)" for w :: "'a word"
  proof -
    have "unat (drop_bit 8 w) = drop_bit 8 (unat w)" by (rule unat_drop_bit_eq)
    moreover have "unat (ucast w :: byte) = take_bit 8 (unat w)"
      by (simp add: unsigned_ucast_eq unsigned_take_bit_eq)
    ultimately show ?thesis by (simp add: take_bit_eq_mod drop_bit_eq_div)
  qed
  have low: "unat (ucast w :: byte) < 256" for w :: "'a word"
    using unsigned_less [of "ucast w :: byte", where 'a = nat] by simp
  show ?thesis
    unfolding word_less_nat_alt word_unat_eq_iff using dec [of x] dec [of y] low [of x] low [of y] by auto
qed

lemma be_bytes_less:
  fixes x y :: "'a::len word"
  assumes "drop_bit (8 * n) x = 0" "drop_bit (8 * n) y = 0"
  shows "be_bytes n x < be_bytes n y \<longleftrightarrow> x < y"
  using assms
proof (induction n arbitrary: x y)
  case 0
  then show ?case by (simp add: be_bytes_def le_bytes_def)
next
  case (Suc n)
  have z: "drop_bit (8 * n) (drop_bit 8 x) = 0" "drop_bit (8 * n) (drop_bit 8 y) = 0"
    using Suc.prems by (simp_all add: drop_bit_drop_bit algebra_simps)
  have eq: "be_bytes n (drop_bit 8 x) = be_bytes n (drop_bit 8 y) \<longleftrightarrow> drop_bit 8 x = drop_bit 8 y"
    using of_le_bytes_le_bytes z by (metis be_bytes_def rev_rev_ident)
  show ?case
    unfolding be_bytes_Suc less_drop_bit [of x y]
    by (simp add: less_same_length_append Suc.IH [OF z] eq)
qed

lemma be_bytes_u32_less [simp]: "be_bytes 4 x < be_bytes 4 y \<longleftrightarrow> (x :: u32) < y"
  by (rule be_bytes_less) (rule bit_word_eqI, simp add: bit_simps)+

text \<open>Every four bytes are a file identifier: there are as many of the one as of the other.\<close>

lemma of_be_bytes_surj:
  assumes "length t = 4"
  shows "\<exists>j :: u32. t = be_bytes 4 j"
proof -
  let ?L = "{t :: bytes. set t \<subseteq> UNIV \<and> length t = 4}"
  have "range (be_bytes 4 :: u32 \<Rightarrow> bytes) = ?L"
  proof (rule card_subset_eq)
    show "finite ?L" by (rule finite_lists_length_eq) simp
    have "inj (be_bytes 4 :: u32 \<Rightarrow> bytes)" by (simp add: inj_def)
    then have "card (range (be_bytes 4 :: u32 \<Rightarrow> bytes)) = 2 ^ 32" by (simp add: card_image card_word)
    moreover have "card ?L = CARD(byte) ^ 4" by (rule card_lists_length_eq) simp
    ultimately show "card (range (be_bytes 4 :: u32 \<Rightarrow> bytes)) = card ?L" by (simp add: card_word)
  qed auto
  then show ?thesis using assms by blast
qed

lemma keyed_cases:
  assumes "4 \<le> length k"
  obtains j where "k = storage_key j (drop 4 k)"
proof -
  obtain j :: u32 where "take 4 k = be_bytes 4 j" using of_be_bytes_surj [of "take 4 k"] assms by auto
  then have "k = storage_key j (drop 4 k)" unfolding storage_key_def by (metis append_take_drop_id)
  then show thesis by (rule that)
qed

lemma storage_key_parts [simp]:
  "drop 4 (storage_key j r) = r" "take 4 (storage_key j r) = be_bytes 4 j" "4 \<le> length (storage_key j r)"
  by (simp_all add: storage_key_def)

lemma storage_key_less: "storage_key i k < storage_key j l \<longleftrightarrow> i < j \<or> i = j \<and> k < l"
  by (simp add: storage_key_def less_same_length_append)

lemma storage_key_range:
  assumes "i \<noteq> - 1"
  shows "in_range (Some (storage_key i s)) (Some (storage_key (i + 1) [])) (storage_key j r) \<longleftrightarrow> j = i \<and> s \<le> r"
proof -
  have "j < i + 1 \<longleftrightarrow> j \<le> i" using assms
    by (metis add.commute add_eq_0_iff unatSuc less_Suc_eq_le word_less_nat_alt word_le_nat_alt)
  then show ?thesis by (auto simp: in_range_def storage_key_less linorder_not_less [symmetric])
qed

section \<open>A file as a table of its own\<close>

definition view :: "rows \<Rightarrow> file_id \<Rightarrow> bytes \<Rightarrow> bytes option" where
  "view ys fid key = map_of ys (storage_key fid key)"

definition file_rows :: "file_id \<Rightarrow> rows \<Rightarrow> rows" where
  "file_rows fid ys = map (\<lambda>(k, v). (drop 4 k, v)) (filter (\<lambda>(k, v). take 4 k = be_bytes 4 fid) ys)"

definition keyed :: "rows \<Rightarrow> bool" where
  "keyed ys \<longleftrightarrow> (\<forall>k \<in> fst ` set ys. 4 \<le> length k)"

lemma file_view_ins [simp]:
  "view (ins (storage_key fid key) v ys) = (view ys)(fid := (view ys fid)(key \<mapsto> v))"
  by (auto simp: view_def map_of_ins fun_eq_iff)

lemma file_view_del [simp]:
  "view (del (storage_key fid key) ys) = (view ys)(fid := (view ys fid)(key := None))"
  by (auto simp: view_def map_of_del fun_eq_iff)

lemma keyed_simps [simp]: "keyed []" "keyed ys \<Longrightarrow> keyed (ins (storage_key fid key) v ys)"
  "keyed ys \<Longrightarrow> keyed (del k ys)"
  by (force simp: keyed_def ins_def del_def)+

lemma strip_rows_keyed: "keyed ys \<Longrightarrow> strip_rows ys = Some (map (\<lambda>(k, v). (drop 4 k, v)) ys)"
  by (induction ys rule: strip_rows.induct) (auto simp: keyed_def slice_from_def)

lemma keyed_sub: "set xs \<subseteq> set ys \<Longrightarrow> keyed ys \<Longrightarrow> keyed xs"
  by (auto simp: keyed_def)

lemma map_of_file_rows: "keyed ys \<Longrightarrow> map_of (file_rows fid ys) key = view ys fid key"
proof (induction ys)
  case (Cons kv ys)
  obtain k v where kv: "kv = (k, v)" by fastforce
  obtain j r where j: "k = storage_key j r"
    using Cons.prems kv by (auto simp: keyed_def intro: keyed_cases)
  show ?case using Cons by (auto simp: kv j keyed_def file_rows_def view_def)
qed (simp add: file_rows_def view_def)

lemma select_file:
  assumes "keyed ys" "fid \<noteq> - 1"
  shows "map (\<lambda>(k, v). (drop 4 k, v)) (select (Some (storage_key fid s)) (Some (storage_key (fid + 1) [])) ys) =
    filter (\<lambda>(k, v). s \<le> k) (file_rows fid ys)"
  using assms(1)
proof (induction ys)
  case (Cons kv ys)
  obtain k v where kv: "kv = (k, v)" by fastforce
  obtain j r where j: "k = storage_key j r"
    using Cons.prems kv by (auto simp: keyed_def intro: keyed_cases)
  show ?case
    using Cons assms(2) by (auto simp: kv j keyed_def select_def file_rows_def storage_key_range)
qed (simp add: select_def file_rows_def)

lemma sorted_file_rows:
  assumes "sorted_wrt (<) (map fst ys)"
  shows "sorted_wrt (<) (map fst (file_rows fid ys))"
proof -
  let ?ys = "filter (\<lambda>(k, v). take 4 k = be_bytes 4 fid) ys"
  have s: "sorted_wrt (\<lambda>a b. fst a < fst b) ?ys"
    using assms by (simp add: sorted_wrt_map sorted_wrt_filter)
  have "drop 4 (fst a) < drop 4 (fst b)" if "a \<in> set ?ys" "b \<in> set ?ys" "fst a < fst b" for a b
  proof -
    have "take 4 (fst a) = take 4 (fst b)" using that by auto
    then have "take 4 (fst b) @ drop 4 (fst a) < take 4 (fst b) @ drop 4 (fst b)"
      using that(3) by (metis append_take_drop_id)
    then show ?thesis
      using less_same_length_append [of "take 4 (fst b)" "take 4 (fst b)" "drop 4 (fst a)" "drop 4 (fst b)"]
      by (simp del: append_take_drop_id)
  qed
  from sorted_wrt_mono_rel [OF this s] show ?thesis
    by (simp add: file_rows_def sorted_wrt_map split_beta)
qed

section \<open>The commands on a store\<close>

context task_store
begin

lemma exec_read_ok:
  assumes "busy e w xs ys"
  shows "exec_read S e w fct file key = Some (case resolve_file fct file of Inl er \<Rightarrow> Inl er
    | Inr fid \<Rightarrow> (case view ys fid key of None \<Rightarrow> Inl (RecordNotFound key file) | Some data \<Rightarrow> Inr data))"
  using get_ok [OF assms] by (simp add: exec_read_def view_def split: sum.split)

lemma exec_write_ok:
  assumes "busy e w xs ys" "resolve_file fct file = Inr fid"
  shows "view ys fid key \<noteq> None \<Longrightarrow> exec_write S e w fct file key data = Some (Inl (DuplicateKey key file), w, e)"
    "view ys fid key = None \<Longrightarrow> exec_write S e w fct file key data =
       map_option (Pair (Inr ())) (s_put S e w (storage_key fid key) data)"
  using get_ok [OF assms(1)] assms(2)
  by (cases "s_put S e w (storage_key fid key) data"; auto simp: exec_write_def view_def)+

lemma exec_rewrite_ok:
  assumes "busy e w xs ys" "resolve_file fct file = Inr fid"
  shows "view ys fid key = None \<Longrightarrow> exec_rewrite S e w fct file key data = Some (Inl (RecordNotFound key file), w, e)"
    "view ys fid key \<noteq> None \<Longrightarrow> exec_rewrite S e w fct file key data =
       map_option (Pair (Inr ())) (s_put S e w (storage_key fid key) data)"
  using get_ok [OF assms(1)] assms(2)
  by (cases "s_put S e w (storage_key fid key) data"; auto simp: exec_rewrite_def view_def)+

lemma exec_browse_ok:
  assumes "busy e w xs ys" "keyed ys" "resolve_file fct file = Inr fid" "fid \<noteq> - 1"
  shows "exec_browse S e w fct file start limit =
    Some (Inr (take limit (filter (\<lambda>(k, v). (case start of None \<Rightarrow> [] | Some k \<Rightarrow> k) \<le> k) (file_rows fid ys))))"
proof -
  let ?rows = "select (Some (storage_key fid (case start of None \<Rightarrow> [] | Some k \<Rightarrow> k)))
      (Some (storage_key (fid + 1) [])) ys"
  have "keyed (take limit ?rows)"
    by (rule keyed_sub [OF _ assms(2)]) (auto simp: select_def dest: in_set_takeD)
  then show ?thesis
    using range_ok [OF assms(1)] assms(3,4) select_file [OF assms(2,4), of "case start of None \<Rightarrow> [] | Some k \<Rightarrow> k"]
    by (simp add: exec_browse_def strip_rows_keyed Let_def flip: take_map)
qed

end

context sized_store
begin

lemma exec_write_result:
  assumes b: "busy e w xs ys" and f: "resolve_file fct file = Inr fid" and r: "enough e w data"
  shows "\<exists>w' e' ys'. exec_write S e w fct file key data =
      Some (case view ys fid key of None \<Rightarrow> Inr () | Some _ \<Rightarrow> Inl (DuplicateKey key file), w', e') \<and>
    busy e' w' xs ys' \<and> (keyed ys \<longrightarrow> keyed ys') \<and>
    view ys' = (if view ys fid key = None then (view ys)(fid := (view ys fid)(key \<mapsto> data)) else view ys)"
proof (cases "view ys fid key")
  case None
  obtain w' e' where p: "s_put S e w (storage_key fid key) data = Some (w', e')"
    using put_returns [OF b r] by fastforce
  show ?thesis using exec_write_ok(2) [OF b f None] put_ok [OF b p] p None by auto
next
  case (Some v)
  then show ?thesis using exec_write_ok(1) [OF b f] b by auto
qed

lemma exec_rewrite_result:
  assumes b: "busy e w xs ys" and f: "resolve_file fct file = Inr fid" and r: "enough e w data"
  shows "\<exists>w' e' ys'. exec_rewrite S e w fct file key data =
      Some (case view ys fid key of None \<Rightarrow> Inl (RecordNotFound key file) | Some _ \<Rightarrow> Inr (), w', e') \<and>
    busy e' w' xs ys' \<and> (keyed ys \<longrightarrow> keyed ys') \<and>
    view ys' = (if view ys fid key = None then view ys else (view ys)(fid := (view ys fid)(key \<mapsto> data)))"
proof (cases "view ys fid key")
  case None
  then show ?thesis using exec_rewrite_ok(1) [OF b f] b by auto
next
  case (Some v)
  obtain w' e' where p: "s_put S e w (storage_key fid key) data = Some (w', e')"
    using put_returns [OF b r] by fastforce
  show ?thesis using exec_rewrite_ok(2) [OF b f] put_ok [OF b p] p Some by auto
qed

lemma exec_delete_result:
  assumes b: "busy e w xs ys" and f: "resolve_file fct file = Inr fid" and r: "enough e w v"
  shows "\<exists>w' e' ys'. exec_delete S e w fct file key =
      Some (case view ys fid key of None \<Rightarrow> Inl (RecordNotFound key file) | Some _ \<Rightarrow> Inr (), w', e') \<and>
    busy e' w' xs ys' \<and> (keyed ys \<longrightarrow> keyed ys') \<and>
    view ys' = (view ys)(fid := (view ys fid)(key := None))"
proof -
  obtain x w' e' where p: "s_delete S e w (storage_key fid key) = Some (x, w', e')"
    using delete_returns [OF b r] by fastforce
  have "busy e' w' xs (del (storage_key fid key) ys)" "x \<longleftrightarrow> view ys fid key \<noteq> None"
    using delete_ok [OF b p] by (auto simp: view_def)
  then show ?thesis using p f by (auto simp: exec_delete_def split: option.split)
qed

end

section \<open>The file control table\<close>

text \<open>A table that only \<open>define_file\<close> has filled: distinct names have distinct identifiers,
  all of them handed out before.\<close>

definition fct_ok :: "file_control_table \<Rightarrow> bool" where
  "fct_ok fct \<longleftrightarrow> (\<forall>name fid. files fct name = Some fid \<longrightarrow> fid < next_id fct) \<and>
     inj_on (files fct) (dom (files fct))"

lemma resolve_file_simps [simp]:
  "resolve_file fct name = Inr fid \<longleftrightarrow> files fct name = Some fid"
  "resolve_file fct name = Inl er \<longleftrightarrow> files fct name = None \<and> er = FileNotFound name"
  by (auto simp: resolve_file_def split: option.split)

lemma fct_ok_new [simp]: "fct_ok new_fct"
  by (simp add: fct_ok_def new_fct_def)

lemma fct_ok_define:
  assumes "fct_ok fct" "define_file fct name = Some (fid, fct')"
  shows "fct_ok fct'"
proof -
  have d: "next_id fct \<noteq> - 1" "fct' = \<lparr>files = (files fct)(name \<mapsto> next_id fct), next_id = next_id fct + 1\<rparr>"
    using assms(2) by (auto simp: define_file_def split: if_splits)
  have lt: "fid < next_id fct + 1" if "fid \<le> next_id fct" for fid
    using that d(1) by (metis add.commute add_eq_0_iff unatSuc less_Suc_eq_le word_less_nat_alt word_le_nat_alt)
  have old: "fid < next_id fct" if "files fct n = Some fid" for n fid
    using assms(1) that by (simp add: fct_ok_def)
  have "inj_on (files fct') (dom (files fct'))"
    using assms(1) old d(2) by (force simp: fct_ok_def inj_on_def dom_def)
  moreover have "fid < next_id fct'" if "files fct' n = Some fid" for n fid
    using that d(2) lt old by (auto split: if_splits intro: lt less_imp_le)
  ultimately show ?thesis by (simp add: fct_ok_def)
qed

lemma fct_ok_last: "fct_ok fct \<Longrightarrow> files fct name = Some fid \<Longrightarrow> fid \<noteq> - 1"
  unfolding fct_ok_def by (metis word_n1_ge not_less)

fun define_files :: "file_control_table \<Rightarrow> string list \<Rightarrow> file_control_table option" where
  "define_files fct [] = Some fct"
| "define_files fct (name # names) =
     (case define_file fct name of None \<Rightarrow> None | Some (_, fct') \<Rightarrow> define_files fct' names)"

lemma define_files_ok:
  "define_files fct names = Some fct' \<Longrightarrow> fct_ok fct \<Longrightarrow>
     fct_ok fct' \<and> dom (files fct') = dom (files fct) \<union> set names"
proof (induction fct names rule: define_files.induct)
  case (2 fct name names)
  then obtain fid fct1 where d: "define_file fct name = Some (fid, fct1)" "define_files fct1 names = Some fct'"
    by (auto split: option.splits)
  have "dom (files fct1) = insert name (dom (files fct))"
    using d(1) by (auto simp: define_file_def split: if_splits)
  then show ?case using 2 d fct_ok_define [OF \<open>fct_ok fct\<close> d(1)] by auto
qed simp

end
