(* ===== verification/Programs.thy ===== *)
theory Programs
  imports File_Control
begin

text \<open>
  src/runtime/task.rs and src/runtime/program.rs: the facts a program sees of its task, the
  task numbers, the table of programs, and what a program is.

  A program is the application's code, a parameter of the runtime. It is given here as the
  tree of the EXEC CICS calls it makes: each node is a call with its arguments and, for each
  answer, the rest of the program; a leaf is what \<open>execute\<close> returns. What a program does
  between two calls is its own; two runs with the same block, commarea and answers do the same.
\<close>

section \<open>task.rs\<close>

type_synonym task_id = u64

record eib =
  task_id :: task_id
  tranid :: string
  link_level :: u32

text \<open>\<open>fetch_add\<close> wraps around.\<close>

type_synonym task_id_generator = u64

definition new_task_ids :: task_id_generator where
  "new_task_ids = 1"

definition next_task_id :: "task_id_generator \<Rightarrow> task_id \<times> task_id_generator" where
  "next_task_id g = (g, g + 1)"

section \<open>program.rs\<close>

type_synonym commarea = "bytes option"

datatype program_outcome = Return commarea | Xctl string commarea

datatype prog =
    Finish "cics_error + program_outcome"
  | Panic
  | Read string bytes "cics_error + bytes \<Rightarrow> prog"
  | Write string bytes bytes "cics_error + unit \<Rightarrow> prog"
  | Rewrite string bytes bytes "cics_error + unit \<Rightarrow> prog"
  | Delete string bytes "cics_error + unit \<Rightarrow> prog"
  | Browse string "bytes option" nat "cics_error + rows \<Rightarrow> prog"
  | Link string commarea "cics_error + commarea \<Rightarrow> prog"
  | Start string string commarea prog
  | Syncpoint "cics_error + unit \<Rightarrow> prog"
  | SyncpointRollback prog

text \<open>\<open>CicsProgram::execute\<close> with the block and the commarea that its context shows it.\<close>

type_synonym cics_program = "eib \<Rightarrow> commarea \<Rightarrow> prog"

type_synonym program_manager = "string \<rightharpoonup> cics_program"

definition new_programs :: program_manager where
  "new_programs = Map.empty"

definition define_program :: "program_manager \<Rightarrow> string \<Rightarrow> cics_program \<Rightarrow> program_manager" where
  "define_program programs name program = programs(name \<mapsto> program)"

definition resolve_program :: "program_manager \<Rightarrow> string \<Rightarrow> cics_error + cics_program" where
  "resolve_program programs name =
     (case programs name of None \<Rightarrow> Inl (ProgramNotFound name) | Some program \<Rightarrow> Inr program)"

lemma resolve_program_simps [simp]:
  "resolve_program programs name = Inr program \<longleftrightarrow> programs name = Some program"
  "resolve_program programs name = Inl er \<longleftrightarrow> programs name = None \<and> er = ProgramNotFound name"
  by (auto simp: resolve_program_def split: option.split)

text \<open>The \<open>?\<close> operator of a program's body: an error ends the program.\<close>

definition try_else :: "('a \<Rightarrow> prog) \<Rightarrow> cics_error + 'a \<Rightarrow> prog" where
  "try_else k r = (case r of Inl er \<Rightarrow> Finish (Inl er) | Inr x \<Rightarrow> k x)"

lemma try_else_simps [simp]: "try_else k (Inl er) = Finish (Inl er)" "try_else k (Inr x) = k x"
  by (simp_all add: try_else_def)

end
