(* ===== verification/Region.thy ===== *)
theory Region
  imports Programs
begin

text \<open>
  src/runtime/region.rs: the EXEC CICS calls of a running program (\<open>ExecCtx\<close>), the loop that
  runs a program and those it XCTLs to, LINK as a nested run of that loop, the dispatcher of
  a task and of the tasks it STARTs with the implicit syncpoint at the end of each, and
  \<open>link_external\<close>.

  A task is the environment, the transaction (None after a failed commit) and the queue of
  started tasks; the source passes them as mutable references. All is over a dictionary of
  store operations; \<open>txn_store\<close> gives the code's. None is a panic or a run without end.
\<close>

section \<open>Tasks and the calls of a program\<close>

record pending_start =
  ps_tranid :: string
  ps_program :: string
  ps_commarea :: commarea

record ('e, 'w) task =
  k_env :: 'e
  k_txn :: "'w option"
  k_starts :: "pending_start list"

definition MAX_LINK_DEPTH :: u32 where
  "MAX_LINK_DEPTH = 64"

definition task_read :: "('e, 'w) store_ops \<Rightarrow> file_control_table \<Rightarrow> ('e, 'w) task \<Rightarrow> string \<Rightarrow> bytes \<Rightarrow>
    (cics_error + bytes) option" where
  "task_read S fct t file key = do { wtx \<leftarrow> k_txn t; exec_read S (k_env t) wtx fct file key }"

definition task_write :: "('e, 'w) store_ops \<Rightarrow> file_control_table \<Rightarrow> ('e, 'w) task \<Rightarrow> string \<Rightarrow> bytes \<Rightarrow>
    bytes \<Rightarrow> ((cics_error + unit) \<times> ('e, 'w) task) option" where
  "task_write S fct t file key data =
     do { wtx \<leftarrow> k_txn t; (r, w, e) \<leftarrow> exec_write S (k_env t) wtx fct file key data;
          Some (r, t\<lparr>k_env := e, k_txn := Some w\<rparr>) }"

definition task_rewrite :: "('e, 'w) store_ops \<Rightarrow> file_control_table \<Rightarrow> ('e, 'w) task \<Rightarrow> string \<Rightarrow> bytes \<Rightarrow>
    bytes \<Rightarrow> ((cics_error + unit) \<times> ('e, 'w) task) option" where
  "task_rewrite S fct t file key data =
     do { wtx \<leftarrow> k_txn t; (r, w, e) \<leftarrow> exec_rewrite S (k_env t) wtx fct file key data;
          Some (r, t\<lparr>k_env := e, k_txn := Some w\<rparr>) }"

definition task_delete :: "('e, 'w) store_ops \<Rightarrow> file_control_table \<Rightarrow> ('e, 'w) task \<Rightarrow> string \<Rightarrow> bytes \<Rightarrow>
    ((cics_error + unit) \<times> ('e, 'w) task) option" where
  "task_delete S fct t file key =
     do { wtx \<leftarrow> k_txn t; (r, w, e) \<leftarrow> exec_delete S (k_env t) wtx fct file key;
          Some (r, t\<lparr>k_env := e, k_txn := Some w\<rparr>) }"

definition task_browse :: "('e, 'w) store_ops \<Rightarrow> file_control_table \<Rightarrow> ('e, 'w) task \<Rightarrow> string \<Rightarrow>
    bytes option \<Rightarrow> nat \<Rightarrow> (cics_error + rows) option" where
  "task_browse S fct t file start_key limit =
     do { wtx \<leftarrow> k_txn t; exec_browse S (k_env t) wtx fct file start_key limit }"

definition task_start :: "('e, 'w) task \<Rightarrow> string \<Rightarrow> string \<Rightarrow> commarea \<Rightarrow> ('e, 'w) task" where
  "task_start t tran program c =
     t\<lparr>k_starts := k_starts t @ [\<lparr>ps_tranid = tran, ps_program = program, ps_commarea = c\<rparr>]\<rparr>"

definition task_syncpoint :: "('e, 'w) store_ops \<Rightarrow> ('e, 'w) task \<Rightarrow>
    ((cics_error + unit) \<times> ('e, 'w) task) option" where
  "task_syncpoint S t =
     do { wtx \<leftarrow> k_txn t; (e, r) \<leftarrow> s_commit S (k_env t) wtx;
          case r of
            Inl er \<Rightarrow> Some (Inl (Io er), t\<lparr>k_env := e, k_txn := None\<rparr>)
          | Inr _ \<Rightarrow> do { (w, e') \<leftarrow> s_begin S e; Some (Inr (), t\<lparr>k_env := e', k_txn := Some w\<rparr>) } }"

definition task_rollback :: "('e, 'w) store_ops \<Rightarrow> ('e, 'w) task \<Rightarrow> ('e, 'w) task option" where
  "task_rollback S t =
     do { wtx \<leftarrow> k_txn t; (w, e) \<leftarrow> s_begin S (s_rollback S (k_env t) wtx);
          Some (t\<lparr>k_env := e, k_txn := Some w\<rparr>) }"

text \<open>LINK, over the loop that runs the linked program.\<close>

definition task_link :: "(eib \<Rightarrow> string \<Rightarrow> commarea \<Rightarrow> 't \<Rightarrow> ((cics_error + commarea) \<times> 't) option) \<Rightarrow>
    eib \<Rightarrow> string \<Rightarrow> commarea \<Rightarrow> 't \<Rightarrow> ((cics_error + commarea) \<times> 't) option" where
  "task_link loop b program c t =
     (if link_level b = - 1 then None
      else
        let new_eib = b\<lparr>link_level := link_level b + 1\<rparr> in
        if MAX_LINK_DEPTH < link_level new_eib then Some (Inl (LinkStackOverflow program), t)
        else loop new_eib program c t)"

section \<open>Running programs\<close>

text \<open>The calls of one program, up to what its \<open>execute\<close> returns.\<close>

primrec execute :: "('e, 'w) store_ops \<Rightarrow> file_control_table \<Rightarrow>
    (eib \<Rightarrow> string \<Rightarrow> commarea \<Rightarrow> ('e, 'w) task \<Rightarrow> ((cics_error + commarea) \<times> ('e, 'w) task) option) \<Rightarrow>
    eib \<Rightarrow> prog \<Rightarrow> ('e, 'w) task \<Rightarrow> ((cics_error + program_outcome) \<times> ('e, 'w) task) option" where
  "execute S fct loop b (Finish r) = (\<lambda>t. Some (r, t))"
| "execute S fct loop b Panic = (\<lambda>t. None)"
| "execute S fct loop b (Read file key k) =
     (\<lambda>t. do { r \<leftarrow> task_read S fct t file key; execute S fct loop b (k r) t })"
| "execute S fct loop b (Write file key data k) =
     (\<lambda>t. do { (r, t') \<leftarrow> task_write S fct t file key data; execute S fct loop b (k r) t' })"
| "execute S fct loop b (Rewrite file key data k) =
     (\<lambda>t. do { (r, t') \<leftarrow> task_rewrite S fct t file key data; execute S fct loop b (k r) t' })"
| "execute S fct loop b (Delete file key k) =
     (\<lambda>t. do { (r, t') \<leftarrow> task_delete S fct t file key; execute S fct loop b (k r) t' })"
| "execute S fct loop b (Browse file start_key limit k) =
     (\<lambda>t. do { r \<leftarrow> task_browse S fct t file start_key limit; execute S fct loop b (k r) t })"
| "execute S fct loop b (Link program c k) =
     (\<lambda>t. do { (r, t') \<leftarrow> task_link loop b program c t; execute S fct loop b (k r) t' })"
| "execute S fct loop b (Start tran program c p) =
     (\<lambda>t. execute S fct loop b p (task_start t tran program c))"
| "execute S fct loop b (Syncpoint k) =
     (\<lambda>t. do { (r, t') \<leftarrow> task_syncpoint S t; execute S fct loop b (k r) t' })"
| "execute S fct loop b (SyncpointRollback p) =
     (\<lambda>t. do { t' \<leftarrow> task_rollback S t; execute S fct loop b p t' })"

lemma execute_mono [partial_function_mono]:
  assumes "\<And>b n c t. mono_option (\<lambda>f. g f b n c t)"
  shows "mono_option (\<lambda>f. execute S fct (g f) b p t)"
proof (induction p arbitrary: t)
  case (Link program c k)
  have "mono_option (\<lambda>f. task_link (g f) b program c t)"
    unfolding task_link_def Let_def
    by (rule if_mono option.const_mono assms)+
  then show ?case unfolding execute.simps
    by (rule bind_mono) (auto simp: split_beta intro: Link)
qed (auto simp: split_beta intro!: bind_mono option.const_mono)

partial_function (option) run_program_loop :: "('e, 'w) store_ops \<Rightarrow> program_manager \<Rightarrow> file_control_table \<Rightarrow>
    eib \<Rightarrow> string \<Rightarrow> commarea \<Rightarrow> ('e, 'w) task \<Rightarrow> ((cics_error + commarea) \<times> ('e, 'w) task) option" where
  "run_program_loop S programs fct b program_name c t =
     (case resolve_program programs program_name of
        Inl er \<Rightarrow> Some (Inl er, t)
      | Inr program \<Rightarrow> do {
          (r, t') \<leftarrow> execute S fct (run_program_loop S programs fct) b (program b c) t;
          case r of
            Inl er \<Rightarrow> Some (Inl er, t')
          | Inr (Return c') \<Rightarrow> Some (Inr c', t')
          | Inr (Xctl program' c') \<Rightarrow> run_program_loop S programs fct b program' c' t' })"

text \<open>The end of a task: the implicit syncpoint, or the backout of an ABEND.\<close>

definition end_task :: "('e, 'w) store_ops \<Rightarrow> cics_error + commarea \<Rightarrow> ('e, 'w) task \<Rightarrow>
    ('e \<times> (io_error + unit)) option" where
  "end_task S out t =
     (case (out, k_txn t) of
        (_, None) \<Rightarrow> Some (k_env t, Inr ())
      | (Inr _, Some wtx) \<Rightarrow> s_commit S (k_env t) wtx
      | (Inl _, Some wtx) \<Rightarrow> Some (s_rollback S (k_env t) wtx, Inr ()))"

text \<open>One task of the queue: its number, its transaction, its programs, its end.\<close>

definition run_task :: "('e, 'w) store_ops \<Rightarrow> program_manager \<Rightarrow> file_control_table \<Rightarrow> task_id \<Rightarrow>
    pending_start \<Rightarrow> pending_start list \<Rightarrow> 'e \<Rightarrow>
    ((cics_error + commarea) \<times> pending_start list \<times> 'e \<times> (io_error + unit)) option" where
  "run_task S programs fct num req queue e =
     do { (w, e1) \<leftarrow> s_begin S e;
          (out, t) \<leftarrow> run_program_loop S programs fct
            \<lparr>task_id = num, tranid = ps_tranid req, link_level = 1\<rparr> (ps_program req) (ps_commarea req)
            \<lparr>k_env = e1, k_txn = Some w, k_starts = queue\<rparr>;
          (e2, r) \<leftarrow> end_task S out t;
          Some (out, k_starts t, e2, r) }"

text \<open>\<open>originating\<close> is None before the first task has ended, which is the source's \<open>is_first\<close>.\<close>

partial_function (option) dispatch :: "('e, 'w) store_ops \<Rightarrow> program_manager \<Rightarrow> file_control_table \<Rightarrow>
    pending_start list \<Rightarrow> (cics_error + commarea) option \<Rightarrow> task_id_generator \<Rightarrow> 'e \<Rightarrow>
    (task_id_generator \<times> 'e \<times> (cics_error + commarea)) option" where
  "dispatch S programs fct queue originating ids e =
     (case queue of
        [] \<Rightarrow> do { out \<leftarrow> originating; Some (ids, e, out) }
      | req # rest \<Rightarrow> do {
          let (num, ids') = next_task_id ids;
          (out, queue', e', r) \<leftarrow> run_task S programs fct num req rest e;
          case r of
            Inl er \<Rightarrow> Some (ids', e', Inl (Io er))
          | Inr _ \<Rightarrow> dispatch S programs fct queue'
              (case originating of None \<Rightarrow> Some out | Some first \<Rightarrow> Some first) ids' e' })"

section \<open>The region\<close>

record 'e region =
  g_env :: 'e
  g_programs :: program_manager
  g_fct :: file_control_table
  g_task_ids :: task_id_generator

definition open_region :: "lib \<Rightarrow> nat \<Rightarrow> bool list \<Rightarrow> bytes list option \<Rightarrow>
    (cics_error + environment region) option" where
  "open_region L lim syncs f =
     (case open_env L lim syncs f of None \<Rightarrow> None
      | Some (Inl er) \<Rightarrow> Some (Inl (Io er))
      | Some (Inr env) \<Rightarrow> Some (Inr \<lparr>g_env = env, g_programs = new_programs, g_fct = new_fct,
          g_task_ids = new_task_ids\<rparr>))"

definition region_define_program :: "'e region \<Rightarrow> string \<Rightarrow> cics_program \<Rightarrow> 'e region" where
  "region_define_program g name program = g\<lparr>g_programs := define_program (g_programs g) name program\<rparr>"

definition region_define_file :: "'e region \<Rightarrow> string \<Rightarrow> (file_id \<times> 'e region) option" where
  "region_define_file g name =
     (case define_file (g_fct g) name of None \<Rightarrow> None
      | Some (fid, fct) \<Rightarrow> Some (fid, g\<lparr>g_fct := fct\<rparr>))"

definition start_task :: "('e, 'w) store_ops \<Rightarrow> 'e region \<Rightarrow> string \<Rightarrow> string \<Rightarrow> commarea \<Rightarrow>
    ('e region \<times> (cics_error + commarea)) option" where
  "start_task S g tran program c =
     do { (ids, e, out) \<leftarrow> dispatch S (g_programs g) (g_fct g)
            [\<lparr>ps_tranid = tran, ps_program = program, ps_commarea = c\<rparr>] None (g_task_ids g) (g_env g);
          Some (g\<lparr>g_env := e, g_task_ids := ids\<rparr>, out) }"

definition task_count_hint :: "'e region \<Rightarrow> task_id \<times> 'e region" where
  "task_count_hint g = (let (n, ids) = next_task_id (g_task_ids g) in (n, g\<lparr>g_task_ids := ids\<rparr>))"

text \<open>
  LINK from outside a region. The environment, the transaction and the block are the
  caller's; the private queue of started tasks is dropped.
\<close>

definition link_external :: "('e, 'w) store_ops \<Rightarrow> program_manager \<Rightarrow> file_control_table \<Rightarrow> 'e \<Rightarrow>
    'w option \<Rightarrow> eib \<Rightarrow> string \<Rightarrow> commarea \<Rightarrow> ((cics_error + commarea) \<times> 'e \<times> 'w option) option" where
  "link_external S programs fct e txn b program c =
     (if link_level b = - 1 then None
      else
        let new_eib = b\<lparr>link_level := link_level b + 1\<rparr> in
        if MAX_LINK_DEPTH < link_level new_eib then Some (Inl (LinkStackOverflow program), e, txn)
        else do {
          (r, t) \<leftarrow> run_program_loop S programs fct new_eib program c
            \<lparr>k_env = e, k_txn = txn, k_starts = []\<rparr>;
          Some (r, k_env t, k_txn t) })"

end
