(* ===== verification/Region_Refine.thy ===== *)
theory Region_Refine
  imports Region
begin

text \<open>
  Running programs over a store refines running them over plain sorted lists: whatever a
  region does over a store that keeps the laws of \<open>task_store\<close>, it does over \<open>rows_store\<close>
  with the outcomes of the commits it made, with the same answers to every call, the same
  results and the same started tasks.
\<close>

section \<open>The relation\<close>

text \<open>A task over the store holds the committed rows \<open>xs\<close> and, with a transaction, its rows.\<close>

definition task_ok :: "('e \<Rightarrow> rows \<Rightarrow> bool) \<Rightarrow> ('e \<Rightarrow> 'w \<Rightarrow> rows \<Rightarrow> rows \<Rightarrow> bool) \<Rightarrow> ('e, 'w) task \<Rightarrow> rows \<Rightarrow>
    rows option \<Rightarrow> bool" where
  "task_ok idle busy t xs work \<longleftrightarrow>
     (case (k_txn t, work) of (Some w, Some ys) \<Rightarrow> busy (k_env t) w xs ys
      | (None, None) \<Rightarrow> idle (k_env t) xs | _ \<Rightarrow> False)"

lemma task_ok_Some [simp]:
  "k_txn t = Some w \<Longrightarrow> task_ok idle busy t xs work \<longleftrightarrow> (\<exists>ys. work = Some ys \<and> busy (k_env t) w xs ys)"
  by (auto simp: task_ok_def split: option.split)

lemma task_ok_None [simp]:
  "k_txn t = None \<Longrightarrow> task_ok idle busy t xs work \<longleftrightarrow> work = None \<and> idle (k_env t) xs"
  by (auto simp: task_ok_def split: option.split)

definition ideal_task :: "rows \<Rightarrow> io_error option list \<Rightarrow> rows option \<Rightarrow> pending_start list \<Rightarrow>
    (ideal, rows) task" where
  "ideal_task xs outs work q =
     \<lparr>k_env = \<lparr>i_rows = xs, i_outcomes = outs\<rparr>, k_txn = work, k_starts = q\<rparr>"

lemma ideal_task_simps [simp]:
  "k_env (ideal_task xs outs work q) = \<lparr>i_rows = xs, i_outcomes = outs\<rparr>"
  "k_txn (ideal_task xs outs work q) = work" "k_starts (ideal_task xs outs work q) = q"
  by (simp_all add: ideal_task_def)

text \<open>A computation over the store, and one over rows that answers as it does.\<close>

definition tracks :: "('e \<Rightarrow> rows \<Rightarrow> bool) \<Rightarrow> ('e \<Rightarrow> 'w \<Rightarrow> rows \<Rightarrow> rows \<Rightarrow> bool) \<Rightarrow>
    (('e, 'w) task \<Rightarrow> ('r \<times> ('e, 'w) task) option) \<Rightarrow>
    ((ideal, rows) task \<Rightarrow> ('r \<times> (ideal, rows) task) option) \<Rightarrow> bool" where
  "tracks idle busy f g \<longleftrightarrow>
     (\<forall>t xs work r t'. task_ok idle busy t xs work \<longrightarrow> f t = Some (r, t') \<longrightarrow>
        (\<exists>pre xs' work'. task_ok idle busy t' xs' work' \<and>
           (\<forall>outs. g (ideal_task xs (pre @ outs) work (k_starts t)) =
              Some (r, ideal_task xs' outs work' (k_starts t')))))"

named_theorems tracks_intro "computations over the store that track one over rows"

lemma tracksD:
  assumes "tracks idle busy f g" "task_ok idle busy t xs work" "f t = Some (r, t')"
  shows "\<exists>pre xs' work'. task_ok idle busy t' xs' work' \<and>
    (\<forall>outs. g (ideal_task xs (pre @ outs) work (k_starts t)) = Some (r, ideal_task xs' outs work' (k_starts t')))"
  using assms unfolding tracks_def by blast

lemma tracks_bind [tracks_intro]:
  assumes f: "tracks idle busy f f'" and g: "\<And>r. tracks idle busy (g r) (g' r)"
  shows "tracks idle busy (\<lambda>t. do { (r, t') \<leftarrow> f t; g r t' }) (\<lambda>t. do { (r, t') \<leftarrow> f' t; g' r t' })"
  unfolding tracks_def
proof (intro allI impI)
  fix t xs work r t'
  assume ok: "task_ok idle busy t xs work" and "do { (r, t') \<leftarrow> f t; g r t' } = Some (r, t')"
  then obtain r1 t1 where s: "f t = Some (r1, t1)" "g r1 t1 = Some (r, t')" by (auto simp: bind_eq_Some_conv)
  obtain pre1 xs1 work1 where 1: "task_ok idle busy t1 xs1 work1" "\<forall>outs.
      f' (ideal_task xs (pre1 @ outs) work (k_starts t)) = Some (r1, ideal_task xs1 outs work1 (k_starts t1))"
    using tracksD [OF f ok s(1)] by blast
  obtain pre2 xs2 work2 where 2: "task_ok idle busy t' xs2 work2" "\<forall>outs.
      g' r1 (ideal_task xs1 (pre2 @ outs) work1 (k_starts t1)) = Some (r, ideal_task xs2 outs work2 (k_starts t'))"
    using tracksD [OF g 1(1) s(2)] by blast
  show "\<exists>pre xs' work'. task_ok idle busy t' xs' work' \<and> (\<forall>outs.
      do { (r, t') \<leftarrow> f' (ideal_task xs (pre @ outs) work (k_starts t)); g' r t' } =
        Some (r, ideal_task xs' outs work' (k_starts t')))"
    using 1(2) 2 by (intro exI [of _ "pre1 @ pre2"] exI [of _ xs2] exI [of _ work2]) simp
qed

lemma tracks_return [tracks_intro]: "tracks idle busy (\<lambda>t. Some (r, t)) (\<lambda>t. Some (r, t))"
  unfolding tracks_def by (metis append_Nil old.prod.inject option.inject)

lemma tracks_panic [tracks_intro]: "tracks idle busy (\<lambda>t. None) g"
  by (simp add: tracks_def)

lemma tracks_if [tracks_intro]:
  "tracks idle busy f f' \<Longrightarrow> tracks idle busy g g' \<Longrightarrow>
    tracks idle busy (\<lambda>t. if b then f t else g t) (\<lambda>t. if b then f' t else g' t)"
  by (cases b) simp_all

lemma tracks_sum [tracks_intro]:
  assumes "\<And>er. tracks idle busy (f er) (f' er)" "\<And>x. tracks idle busy (g x) (g' x)"
  shows "tracks idle busy (\<lambda>t. case r of Inl er \<Rightarrow> f er t | Inr x \<Rightarrow> g x t)
    (\<lambda>t. case r of Inl er \<Rightarrow> f' er t | Inr x \<Rightarrow> g' x t)"
  using assms by (cases r) simp_all

lemma tracks_outcome [tracks_intro]:
  assumes "\<And>c. tracks idle busy (f c) (f' c)" "\<And>n c. tracks idle busy (g n c) (g' n c)"
  shows "tracks idle busy (\<lambda>t. case r of Return c \<Rightarrow> f c t | Xctl n c \<Rightarrow> g n c t)
    (\<lambda>t. case r of Return c \<Rightarrow> f' c t | Xctl n c \<Rightarrow> g' n c t)"
  using assms by (cases r) simp_all

text \<open>A step that leaves the commits alone.\<close>

lemma tracks_stepI:
  assumes "\<And>t xs work r t'. task_ok idle busy t xs work \<Longrightarrow> f t = Some (r, t') \<Longrightarrow>
    \<exists>work'. task_ok idle busy t' xs work' \<and>
      (\<forall>outs. g (ideal_task xs outs work (k_starts t)) = Some (r, ideal_task xs outs work' (k_starts t')))"
  shows "tracks idle busy f g"
  unfolding tracks_def
proof (intro allI impI)
  fix t xs work r t'
  assume "task_ok idle busy t xs work" "f t = Some (r, t')"
  from assms [OF this] obtain work' where "task_ok idle busy t' xs work'"
      "\<forall>outs. g (ideal_task xs outs work (k_starts t)) = Some (r, ideal_task xs outs work' (k_starts t'))"
    by blast
  then show "\<exists>pre xs' work'. task_ok idle busy t' xs' work' \<and> (\<forall>outs.
      g (ideal_task xs (pre @ outs) work (k_starts t)) = Some (r, ideal_task xs' outs work' (k_starts t')))"
    by (metis append_Nil)
qed

text \<open>A question that both answer in the same way.\<close>

lemma tracks_ask:
  assumes "\<And>t xs work outs q. task_ok idle busy t xs work \<Longrightarrow> h t = h' (ideal_task xs outs work q)"
    and f: "\<And>r. tracks idle busy (f r) (f' r)"
  shows "tracks idle busy (\<lambda>t. do { r \<leftarrow> h t; f r t }) (\<lambda>t. do { r \<leftarrow> h' t; f' r t })"
  unfolding tracks_def
proof (intro allI impI)
  fix t xs work r t'
  assume ok: "task_ok idle busy t xs work" and "do { r \<leftarrow> h t; f r t } = Some (r, t')"
  then obtain a where a: "h t = Some a" "f a t = Some (r, t')" by (auto simp: bind_eq_Some_conv)
  then have "h' (ideal_task xs outs work q) = Some a" for outs q using assms(1) [OF ok] by simp
  then show "\<exists>pre xs' work'. task_ok idle busy t' xs' work' \<and> (\<forall>outs.
      do { r \<leftarrow> h' (ideal_task xs (pre @ outs) work (k_starts t)); f' r (ideal_task xs (pre @ outs) work (k_starts t)) } =
        Some (r, ideal_task xs' outs work' (k_starts t')))"
    using tracksD [OF f ok a(2)] by simp
qed

section \<open>The calls\<close>

lemma rows_store_simps [simp]:
  "s_begin rows_store e = Some (i_rows e, e)" "s_get rows_store e w k = Some (map_of w k)"
  "s_range rows_store e w lo hi = Some (select lo hi w)" "s_put rows_store e w k v = Some (ins k v w, e)"
  "s_delete rows_store e w k = Some (map_of w k \<noteq> None, del k w, e)" "s_rollback rows_store e w = e"
  "s_commit rows_store \<lparr>i_rows = xs, i_outcomes = []\<rparr> w = Some (\<lparr>i_rows = w, i_outcomes = []\<rparr>, Inr ())"
  "s_commit rows_store \<lparr>i_rows = xs, i_outcomes = None # outs\<rparr> w = Some (\<lparr>i_rows = w, i_outcomes = outs\<rparr>, Inr ())"
  "s_commit rows_store \<lparr>i_rows = xs, i_outcomes = Some er # outs\<rparr> w = Some (\<lparr>i_rows = xs, i_outcomes = outs\<rparr>, Inl er)"
  by (simp_all add: rows_store_def)

context task_store
begin

lemma task_read_tracks [tracks_intro]:
  assumes "\<And>r. tracks idle busy (f r) (f' r)"
  shows "tracks idle busy (\<lambda>t. do { r \<leftarrow> task_read S fct t file key; f r t })
    (\<lambda>t. do { r \<leftarrow> task_read rows_store fct t file key; f' r t })"
proof (rule tracks_ask [OF _ assms])
  fix t xs work outs q
  assume "task_ok idle busy t xs work"
  then show "task_read S fct t file key = task_read rows_store fct (ideal_task xs outs work q) file key"
    by (cases "k_txn t") (auto simp: task_read_def exec_read_def get_ok split: sum.split)
qed

lemma task_browse_tracks [tracks_intro]:
  assumes "\<And>r. tracks idle busy (f r) (f' r)"
  shows "tracks idle busy (\<lambda>t. do { r \<leftarrow> task_browse S fct t file start limit; f r t })
    (\<lambda>t. do { r \<leftarrow> task_browse rows_store fct t file start limit; f' r t })"
proof (rule tracks_ask [OF _ assms])
  fix t xs work outs q
  assume "task_ok idle busy t xs work"
  then show "task_browse S fct t file start limit = task_browse rows_store fct (ideal_task xs outs work q) file start limit"
    by (cases "k_txn t") (auto simp: task_browse_def exec_browse_def range_ok Let_def split: sum.split)
qed

lemma task_write_tracks [tracks_intro]:
  "tracks idle busy (\<lambda>t. task_write S fct t file key data) (\<lambda>t. task_write rows_store fct t file key data)"
proof (rule tracks_stepI)
  fix t xs work r t'
  assume ok: "task_ok idle busy t xs work" and s: "task_write S fct t file key data = Some (r, t')"
  then obtain w ys where w: "k_txn t = Some w" "work = Some ys" and b: "busy (k_env t) w xs ys"
    by (cases "k_txn t") (auto simp: task_write_def)
  show "\<exists>work'. task_ok idle busy t' xs work' \<and> (\<forall>outs.
      task_write rows_store fct (ideal_task xs outs work (k_starts t)) file key data =
        Some (r, ideal_task xs outs work' (k_starts t')))"
  proof (cases "files fct file")
    case None
    then show ?thesis using s w b by (auto simp: task_write_def exec_write_def resolve_file_def ideal_task_def)
  next
    case (Some fid)
    show ?thesis
    proof (cases "map_of ys (storage_key fid key)")
      case None
      then show ?thesis
        using s w b Some get_ok [OF b] put_ok [OF b]
        by (auto simp: task_write_def exec_write_def resolve_file_def ideal_task_def bind_eq_Some_conv)
    next
      case (Some v)
      then show ?thesis
        using s w b \<open>files fct file = Some fid\<close> get_ok [OF b] put_ok [OF b]
        by (auto simp: task_write_def exec_write_def resolve_file_def ideal_task_def bind_eq_Some_conv)
    qed
  qed
qed

lemma task_rewrite_tracks [tracks_intro]:
  "tracks idle busy (\<lambda>t. task_rewrite S fct t file key data) (\<lambda>t. task_rewrite rows_store fct t file key data)"
proof (rule tracks_stepI)
  fix t xs work r t'
  assume ok: "task_ok idle busy t xs work" and s: "task_rewrite S fct t file key data = Some (r, t')"
  then obtain w ys where w: "k_txn t = Some w" "work = Some ys" and b: "busy (k_env t) w xs ys"
    by (cases "k_txn t") (auto simp: task_rewrite_def)
  show "\<exists>work'. task_ok idle busy t' xs work' \<and> (\<forall>outs.
      task_rewrite rows_store fct (ideal_task xs outs work (k_starts t)) file key data =
        Some (r, ideal_task xs outs work' (k_starts t')))"
  proof (cases "files fct file")
    case None
    then show ?thesis using s w b by (auto simp: task_rewrite_def exec_rewrite_def resolve_file_def ideal_task_def)
  next
    case (Some fid)
    show ?thesis
    proof (cases "map_of ys (storage_key fid key)")
      case None
      then show ?thesis
        using s w b Some get_ok [OF b] put_ok [OF b]
        by (auto simp: task_rewrite_def exec_rewrite_def resolve_file_def ideal_task_def bind_eq_Some_conv)
    next
      case (Some v)
      then show ?thesis
        using s w b \<open>files fct file = Some fid\<close> get_ok [OF b] put_ok [OF b]
        by (auto simp: task_rewrite_def exec_rewrite_def resolve_file_def ideal_task_def bind_eq_Some_conv)
    qed
  qed
qed

lemma task_delete_tracks [tracks_intro]:
  "tracks idle busy (\<lambda>t. task_delete S fct t file key) (\<lambda>t. task_delete rows_store fct t file key)"
proof (rule tracks_stepI)
  fix t xs work r t'
  assume ok: "task_ok idle busy t xs work" and s: "task_delete S fct t file key = Some (r, t')"
  then obtain w ys where w: "k_txn t = Some w" "work = Some ys" and b: "busy (k_env t) w xs ys"
    by (cases "k_txn t") (auto simp: task_delete_def)
  show "\<exists>work'. task_ok idle busy t' xs work' \<and> (\<forall>outs.
      task_delete rows_store fct (ideal_task xs outs work (k_starts t)) file key =
        Some (r, ideal_task xs outs work' (k_starts t')))"
  proof (cases "files fct file")
    case None
    then show ?thesis using s w b by (auto simp: task_delete_def exec_delete_def resolve_file_def ideal_task_def)
  next
    case (Some fid)
    then obtain x w' e' where d: "s_delete S (k_env t) w (storage_key fid key) = Some (x, w', e')"
      using s w by (auto simp: task_delete_def exec_delete_def resolve_file_def bind_eq_Some_conv)
    then show ?thesis
      using s w Some delete_ok [OF b d]
      by (auto simp: task_delete_def exec_delete_def resolve_file_def ideal_task_def)
  qed
qed

lemma task_start_tracks [tracks_intro]:
  "tracks idle busy f f' \<Longrightarrow>
    tracks idle busy (\<lambda>t. f (task_start t tran program c)) (\<lambda>t. f' (task_start t tran program c))"
  unfolding tracks_def
proof (intro allI impI)
  fix t xs work r t'
  assume f: "\<forall>t xs work r t'. task_ok idle busy t xs work \<longrightarrow> f t = Some (r, t') \<longrightarrow>
      (\<exists>pre xs' work'. task_ok idle busy t' xs' work' \<and> (\<forall>outs.
        f' (ideal_task xs (pre @ outs) work (k_starts t)) = Some (r, ideal_task xs' outs work' (k_starts t'))))"
    and ok: "task_ok idle busy t xs work" and s: "f (task_start t tran program c) = Some (r, t')"
  have "task_ok idle busy (task_start t tran program c) xs work" using ok
    by (cases "k_txn t") (simp_all add: task_start_def)
  moreover have "task_start (ideal_task xs outs work (k_starts t)) tran program c =
      ideal_task xs outs work (k_starts (task_start t tran program c))" for outs
    by (simp add: ideal_task_def task_start_def)
  ultimately show "\<exists>pre xs' work'. task_ok idle busy t' xs' work' \<and> (\<forall>outs.
      f' (task_start (ideal_task xs (pre @ outs) work (k_starts t)) tran program c) =
        Some (r, ideal_task xs' outs work' (k_starts t')))"
    using f s by metis
qed

lemma task_syncpoint_tracks [tracks_intro]:
  "tracks idle busy (task_syncpoint S) (task_syncpoint rows_store)"
  unfolding tracks_def
proof (intro allI impI)
  fix t xs work r t'
  assume ok: "task_ok idle busy t xs work" and s: "task_syncpoint S t = Some (r, t')"
  then obtain w e out where w: "k_txn t = Some w" "s_commit S (k_env t) w = Some (e, out)"
    by (auto simp: task_syncpoint_def bind_eq_Some_conv)
  then obtain ys where ys: "work = Some ys" "busy (k_env t) w xs ys" using ok by auto
  show "\<exists>pre xs' work'. task_ok idle busy t' xs' work' \<and> (\<forall>outs.
      task_syncpoint rows_store (ideal_task xs (pre @ outs) work (k_starts t)) =
        Some (r, ideal_task xs' outs work' (k_starts t')))"
  proof (cases out)
    case (Inl er)
    then show ?thesis
      using s w ys commit_fail [OF ys(2)]
      by (intro exI [of _ "[Some er]"] exI [of _ xs] exI [of _ None])
        (auto simp: task_syncpoint_def ideal_task_def)
  next
    case (Inr u)
    then have "idle e ys" using commit_ok [OF ys(2)] w(2) by blast
    then obtain w' e' where "s_begin S e = Some (w', e')" "busy e' w' ys ys" using begin_ok by blast
    then show ?thesis
      using s w ys Inr
      by (intro exI [of _ "[None]"] exI [of _ ys] exI [of _ "Some ys"])
        (auto simp: task_syncpoint_def ideal_task_def)
  qed
qed

lemma task_rollback_tracks [tracks_intro]:
  assumes "tracks idle busy f f'"
  shows "tracks idle busy (\<lambda>t. do { t' \<leftarrow> task_rollback S t; f t' }) (\<lambda>t. do { t' \<leftarrow> task_rollback rows_store t; f' t' })"
proof -
  have "tracks idle busy (\<lambda>t. map_option (Pair ()) (task_rollback S t)) (\<lambda>t. map_option (Pair ()) (task_rollback rows_store t))"
  proof (rule tracks_stepI)
    fix t xs work r t'
    assume ok: "task_ok idle busy t xs work" and s: "map_option (Pair ()) (task_rollback S t) = Some (r, t')"
    then obtain w ys where w: "k_txn t = Some w" "work = Some ys" "busy (k_env t) w xs ys"
      by (cases "k_txn t") (auto simp: task_rollback_def)
    obtain w' e' where "s_begin S (s_rollback S (k_env t) w) = Some (w', e')" "busy e' w' xs xs"
      using begin_ok [OF rollback_ok [OF w(3)]] by blast
    then show "\<exists>work'. task_ok idle busy t' xs work' \<and> (\<forall>outs.
        map_option (Pair ()) (task_rollback rows_store (ideal_task xs outs work (k_starts t))) =
          Some (r, ideal_task xs outs work' (k_starts t')))"
      using s w by (auto simp: task_rollback_def ideal_task_def)
  qed
  from tracks_bind [OF this assms] show ?thesis by (simp add: bind_map_option comp_def)
qed

section \<open>Programs\<close>

lemma task_link_tracks:
  "(\<And>b n c. tracks idle busy (loop b n c) (loop' b n c)) \<Longrightarrow>
    tracks idle busy (task_link loop b program c) (task_link loop' b program c)"
  by (simp add: task_link_def [abs_def] Let_def tracks_intro)

lemma execute_tracks:
  assumes "\<And>b n c. tracks idle busy (loop b n c) (loop' b n c)"
  shows "tracks idle busy (execute S fct loop b p) (execute rows_store fct loop' b p)"
proof (induction p)
  case (Link program c k)
  show ?case unfolding execute.simps
    by (intro tracks_bind task_link_tracks assms) (auto intro: Link)
qed (simp_all, (intro tracks_intro; blast)+)

lemma run_program_loop_tracks:
  "tracks idle busy (run_program_loop S programs fct b n c) (run_program_loop rows_store programs fct b n c)"
proof -
  let ?loop = "run_program_loop rows_store programs fct"
  let ?Q = "\<lambda>b n c t r t'. \<forall>xs work. task_ok idle busy t xs work \<longrightarrow>
    (\<exists>pre xs' work'. task_ok idle busy t' xs' work' \<and>
      (\<forall>outs. ?loop b n c (ideal_task xs (pre @ outs) work (k_starts t)) =
         Some (r, ideal_task xs' outs work' (k_starts t'))))"
  let ?P = "\<lambda>S' programs' fct' b n c t y. S' = S \<longrightarrow> programs' = programs \<longrightarrow> fct' = fct \<longrightarrow>
    ?Q b n c t (fst y) (snd y)"
  have "?Q b n c t (fst y) (snd y)" if s: "run_program_loop S programs fct b n c t = Some y" for t y
  proof -
    have "?P S programs fct b n c t y"
    proof (rule run_program_loop.raw_induct [where P = ?P, OF _ s], intro impI)
      fix f S' programs' fct' b n c t y
      assume IH: "\<And>S programs fct b n c t y. f S programs fct b n c t = Some y \<Longrightarrow> ?P S programs fct b n c t y"
        and eqs: "S' = S" "programs' = programs" "fct' = fct"
        and s: "(case resolve_program programs' n of Inl er \<Rightarrow> Some (Inl er, t)
          | Inr program \<Rightarrow> do { (r, t') \<leftarrow> execute S' fct' (f S' programs' fct') b (program b c) t;
              case r of Inl er \<Rightarrow> Some (Inl er, t') | Inr (Return c') \<Rightarrow> Some (Inr c', t')
              | Inr (Xctl program' c') \<Rightarrow> f S' programs' fct' b program' c' t' }) = Some y"
      have loop: "tracks idle busy (f S programs fct b n c) (?loop b n c)" for b n c
        using IH unfolding tracks_def by fastforce
      have "tracks idle busy (\<lambda>t. case resolve_program programs n of Inl er \<Rightarrow> Some (Inl er, t)
          | Inr program \<Rightarrow> do { (r, t') \<leftarrow> execute S fct (f S programs fct) b (program b c) t;
              case r of Inl er \<Rightarrow> Some (Inl er, t') | Inr (Return c') \<Rightarrow> Some (Inr c', t')
              | Inr (Xctl program' c') \<Rightarrow> f S programs fct b program' c' t' }) (?loop b n c)"
        by (subst run_program_loop.simps [abs_def]) (intro tracks_intro loop execute_tracks)
      from tracksD [OF this, of t _ _ "fst y" "snd y"] s show "?Q b n c t (fst y) (snd y)"
        unfolding eqs by simp
    qed
    then show ?thesis by simp
  qed
  then show ?thesis unfolding tracks_def by fastforce
qed

section \<open>Tasks\<close>

lemma end_task_refines:
  assumes ok: "task_ok idle busy t xs work" and s: "end_task S out t = Some (e', r)"
  shows "\<exists>pre xs'. idle e' xs' \<and>
    (\<forall>outs. end_task rows_store out (ideal_task xs (pre @ outs) work q) =
       Some (\<lparr>i_rows = xs', i_outcomes = outs\<rparr>, r))"
proof (cases "k_txn t")
  case None
  then show ?thesis using ok s
    by (intro exI [of _ "[]"] exI [of _ xs]) (auto simp: end_task_def split: sum.splits)
next
  case (Some w)
  then obtain ys where ys: "work = Some ys" "busy (k_env t) w xs ys" using ok by auto
  show ?thesis
  proof (cases out)
    case (Inl er)
    then show ?thesis using s Some ys rollback_ok [OF ys(2)]
      by (intro exI [of _ "[]"] exI [of _ xs]) (auto simp: end_task_def)
  next
    case (Inr c)
    then have c: "s_commit S (k_env t) w = Some (e', r)" using s Some by (simp add: end_task_def)
    show ?thesis
    proof (cases r)
      case (Inl er)
      then show ?thesis using c Inr ys commit_fail [OF ys(2)]
        by (intro exI [of _ "[Some er]"]) (auto simp: end_task_def)
    next
      case (Inr u)
      then show ?thesis using c \<open>out = Inr c\<close> ys commit_ok [OF ys(2)]
        by (intro exI [of _ "[None]"]) (auto simp: end_task_def)
    qed
  qed
qed

lemma run_task_refines:
  assumes "idle e xs" "run_task S programs fct num req q e = Some (out, q', e', r)"
  shows "\<exists>pre xs'. idle e' xs' \<and>
    (\<forall>outs. run_task rows_store programs fct num req q \<lparr>i_rows = xs, i_outcomes = pre @ outs\<rparr> =
       Some (out, q', \<lparr>i_rows = xs', i_outcomes = outs\<rparr>, r))"
proof -
  let ?b = "\<lparr>task_id = num, tranid = ps_tranid req, link_level = 1\<rparr>"
  obtain w e1 where w: "s_begin S e = Some (w, e1)" "busy e1 w xs xs" using begin_ok [OF assms(1)] by blast
  let ?t = "\<lparr>k_env = e1, k_txn = Some w, k_starts = q\<rparr>"
  obtain t where t: "run_program_loop S programs fct ?b (ps_program req) (ps_commarea req) ?t = Some (out, t)"
      "end_task S out t = Some (e', r)" "q' = k_starts t"
    using assms(2) w(1) by (auto simp: run_task_def bind_eq_Some_conv)
  obtain pre1 xs1 work1 where 1: "task_ok idle busy t xs1 work1" "\<forall>outs.
      run_program_loop rows_store programs fct ?b (ps_program req) (ps_commarea req)
        (ideal_task xs (pre1 @ outs) (Some xs) q) = Some (out, ideal_task xs1 outs work1 q')"
    using tracksD [OF run_program_loop_tracks _ t(1), of xs "Some xs"] w(2) t(3) by auto
  obtain pre2 xs2 where 2: "idle e' xs2" "\<forall>outs.
      end_task rows_store out (ideal_task xs1 (pre2 @ outs) work1 q') = Some (\<lparr>i_rows = xs2, i_outcomes = outs\<rparr>, r)"
    using end_task_refines [OF 1(1) t(2)] by blast
  show ?thesis using 1(2) 2
    by (intro exI [of _ "pre1 @ pre2"] exI [of _ xs2]) (simp add: run_task_def flip: ideal_task_def)
qed

lemma dispatch_refines:
  assumes "idle e xs" "dispatch S programs fct q originating ids e = Some (ids', e', out)"
  shows "\<exists>pre xs'. idle e' xs' \<and>
    (\<forall>outs. dispatch rows_store programs fct q originating ids \<lparr>i_rows = xs, i_outcomes = pre @ outs\<rparr> =
       Some (ids', \<lparr>i_rows = xs', i_outcomes = outs\<rparr>, out))"
proof -
  let ?Q = "\<lambda>q originating ids e y. \<forall>xs. idle e xs \<longrightarrow> (\<exists>pre xs'. idle (fst (snd y)) xs' \<and>
    (\<forall>outs. dispatch rows_store programs fct q originating ids \<lparr>i_rows = xs, i_outcomes = pre @ outs\<rparr> =
       Some (fst y, \<lparr>i_rows = xs', i_outcomes = outs\<rparr>, snd (snd y))))"
  let ?P = "\<lambda>S' programs' fct' q originating ids e y. S' = S \<longrightarrow> programs' = programs \<longrightarrow> fct' = fct \<longrightarrow>
    ?Q q originating ids e y"
  have "?P S programs fct q originating ids e (ids', e', out)"
  proof (rule dispatch.raw_induct [where P = ?P, OF _ assms(2)], intro impI allI)
    fix f S' programs' fct' q originating ids e y xs
    assume IH: "\<And>S programs fct q originating ids e y.
          f S programs fct q originating ids e = Some y \<Longrightarrow> ?P S programs fct q originating ids e y"
      and eqs: "S' = S" "programs' = programs" "fct' = fct" and idle: "idle e xs"
      and s: "(case q of [] \<Rightarrow> do { out \<leftarrow> originating; Some (ids, e, out) }
        | req # rest \<Rightarrow> do {
            let (num, ids') = next_task_id ids;
            (out, queue', e', r) \<leftarrow> run_task S' programs' fct' num req rest e;
            case r of Inl er \<Rightarrow> Some (ids', e', Inl (Io er))
            | Inr _ \<Rightarrow> f S' programs' fct' queue'
                (case originating of None \<Rightarrow> Some out | Some first \<Rightarrow> Some first) ids' e' }) = Some y"
    show "\<exists>pre xs'. idle (fst (snd y)) xs' \<and>
      (\<forall>outs. dispatch rows_store programs fct q originating ids \<lparr>i_rows = xs, i_outcomes = pre @ outs\<rparr> =
         Some (fst y, \<lparr>i_rows = xs', i_outcomes = outs\<rparr>, snd (snd y)))"
    proof (cases q)
      case Nil
      then show ?thesis using s idle
        by (intro exI [of _ "[]"] exI [of _ xs]) (auto simp: bind_eq_Some_conv dispatch.simps)
    next
      case (Cons req rest)
      then obtain out q' e' r where rt: "run_task S programs fct ids req rest e = Some (out, q', e', r)"
        using s eqs by (auto simp: next_task_id_def bind_eq_Some_conv)
      obtain pre1 xs1 where 1: "idle e' xs1" "\<forall>outs.
          run_task rows_store programs fct ids req rest \<lparr>i_rows = xs, i_outcomes = pre1 @ outs\<rparr> =
            Some (out, q', \<lparr>i_rows = xs1, i_outcomes = outs\<rparr>, r)"
        using run_task_refines [OF idle rt] by blast
      show ?thesis
      proof (cases r)
        case (Inl er)
        then show ?thesis using s eqs Cons rt 1
          by (intro exI [of _ pre1] exI [of _ xs1]) (auto simp: next_task_id_def dispatch.simps [of rows_store])
      next
        case (Inr u)
        let ?o = "case originating of None \<Rightarrow> Some out | Some first \<Rightarrow> Some first"
        have "f S programs fct q' ?o (ids + 1) e' = Some y"
          using s eqs Cons rt Inr by (auto simp: next_task_id_def)
        with IH 1(1) obtain pre2 xs2 where 2: "idle (fst (snd y)) xs2" "\<forall>outs.
            dispatch rows_store programs fct q' ?o (ids + 1) \<lparr>i_rows = xs1, i_outcomes = pre2 @ outs\<rparr> =
              Some (fst y, \<lparr>i_rows = xs2, i_outcomes = outs\<rparr>, snd (snd y))"
          by blast
        show ?thesis using Cons Inr 1(2) 2
          by (intro exI [of _ "pre1 @ pre2"] exI [of _ xs2])
            (simp add: next_task_id_def dispatch.simps [of rows_store _ _ "_ # _"])
      qed
    qed
  qed
  then show ?thesis using assms(1) by simp
qed

end

section \<open>Regions\<close>

definition ideal_region :: "'e region \<Rightarrow> rows \<Rightarrow> io_error option list \<Rightarrow> ideal region" where
  "ideal_region g xs outs = \<lparr>g_env = \<lparr>i_rows = xs, i_outcomes = outs\<rparr>, g_programs = g_programs g,
     g_fct = g_fct g, g_task_ids = g_task_ids g\<rparr>"

context task_store
begin

lemma start_task_refines:
  assumes "idle (g_env g) xs" "start_task S g tran program c = Some (g', out)"
  shows "\<exists>pre xs'. idle (g_env g') xs' \<and>
    (\<forall>outs. start_task rows_store (ideal_region g xs (pre @ outs)) tran program c =
       Some (ideal_region g' xs' outs, out))"
proof -
  obtain ids e where d: "dispatch S (g_programs g) (g_fct g)
        [\<lparr>ps_tranid = tran, ps_program = program, ps_commarea = c\<rparr>] None (g_task_ids g) (g_env g) = Some (ids, e, out)"
      "g' = g\<lparr>g_env := e, g_task_ids := ids\<rparr>"
    using assms(2) by (auto simp: start_task_def bind_eq_Some_conv)
  obtain pre xs' where "idle e xs'" "\<forall>outs. dispatch rows_store (g_programs g) (g_fct g)
        [\<lparr>ps_tranid = tran, ps_program = program, ps_commarea = c\<rparr>] None (g_task_ids g)
        \<lparr>i_rows = xs, i_outcomes = pre @ outs\<rparr> = Some (ids, \<lparr>i_rows = xs', i_outcomes = outs\<rparr>, out)"
    using dispatch_refines [OF assms(1) d(1)] by blast
  then show ?thesis using d(2)
    by (intro exI [of _ pre] exI [of _ xs']) (simp add: start_task_def ideal_region_def)
qed

lemma link_external_refines:
  assumes "task_ok idle busy \<lparr>k_env = e, k_txn = txn, k_starts = []\<rparr> xs work"
    "link_external S programs fct e txn b program c = Some (out, e', txn')"
  shows "\<exists>pre xs' work'. task_ok idle busy \<lparr>k_env = e', k_txn = txn', k_starts = []\<rparr> xs' work' \<and>
    (\<forall>outs. link_external rows_store programs fct \<lparr>i_rows = xs, i_outcomes = pre @ outs\<rparr> work b program c =
       Some (out, \<lparr>i_rows = xs', i_outcomes = outs\<rparr>, work'))"
proof (cases "MAX_LINK_DEPTH < link_level b + 1")
  case True
  then show ?thesis using assms
    by (intro exI [of _ "[]"] exI [of _ xs] exI [of _ work]) (auto simp: link_external_def split: if_splits)
next
  case False
  let ?b = "b\<lparr>link_level := link_level b + 1\<rparr>" and ?t = "\<lparr>k_env = e, k_txn = txn, k_starts = []\<rparr>"
  obtain t where t: "run_program_loop S programs fct ?b program c ?t = Some (out, t)"
      "e' = k_env t" "txn' = k_txn t" "link_level b \<noteq> - 1"
    using assms(2) False by (auto simp: link_external_def bind_eq_Some_conv split: if_splits)
  obtain pre xs' work' where 1: "task_ok idle busy t xs' work'" "\<forall>outs.
      run_program_loop rows_store programs fct ?b program c (ideal_task xs (pre @ outs) work []) =
        Some (out, ideal_task xs' outs work' (k_starts t))"
    using tracksD [OF run_program_loop_tracks assms(1) t(1)] by auto
  have "task_ok idle busy \<lparr>k_env = e', k_txn = txn', k_starts = []\<rparr> xs' work'"
    using 1(1) t(2,3) by (cases "k_txn t") simp_all
  then show ?thesis using 1(2) t(4) False
    by (intro exI [of _ pre] exI [of _ xs'] exI [of _ work'])
      (simp add: link_external_def flip: ideal_task_def)
qed

end

end
