(* ===== verification/Region_Inv.thy ===== *)
theory Region_Inv
  imports Region_Refine
begin

text \<open>
  Invariants of running programs: what every call of a program keeps, the run of all its
  programs keeps. The instances are that programs without SYNCPOINT leave the committed
  rows alone, that programs leave the files they do not name alone, and that every key is one
  of a file that is defined.
\<close>

section \<open>What a program may do\<close>

text \<open>Every file a program changes is in \<open>F\<close>, and it takes no syncpoint unless \<open>sync\<close>.\<close>

primrec within :: "string set \<Rightarrow> bool \<Rightarrow> prog \<Rightarrow> bool" where
  "within F sync (Finish r) = True"
| "within F sync Panic = True"
| "within F sync (Read file key k) = (\<forall>r. within F sync (k r))"
| "within F sync (Write file key data k) = (file \<in> F \<and> (\<forall>r. within F sync (k r)))"
| "within F sync (Rewrite file key data k) = (file \<in> F \<and> (\<forall>r. within F sync (k r)))"
| "within F sync (Delete file key k) = (file \<in> F \<and> (\<forall>r. within F sync (k r)))"
| "within F sync (Browse file start limit k) = (\<forall>r. within F sync (k r))"
| "within F sync (Link program c k) = (\<forall>r. within F sync (k r))"
| "within F sync (Start tran program c p) = within F sync p"
| "within F sync (Syncpoint k) = (sync \<and> (\<forall>r. within F sync (k r)))"
| "within F sync (SyncpointRollback p) = within F sync p"

definition programs_within :: "string set \<Rightarrow> bool \<Rightarrow> program_manager \<Rightarrow> bool" where
  "programs_within F sync programs \<longleftrightarrow>
     (\<forall>name program b c. programs name = Some program \<longrightarrow> within F sync (program b c))"

lemma within_UNIV [simp]: "within UNIV True p"
  by (induction p) auto

lemma within_try_else [simp]:
  "(\<forall>r. within F sync (try_else k r)) \<longleftrightarrow> (\<forall>x. within F sync (k x))"
  by (auto simp: try_else_def split: sum.split)

section \<open>Invariants\<close>

definition preserves :: "('t \<Rightarrow> bool) \<Rightarrow> ('t \<Rightarrow> ('r \<times> 't) option) \<Rightarrow> bool" where
  "preserves I f \<longleftrightarrow> (\<forall>t r t'. I t \<longrightarrow> f t = Some (r, t') \<longrightarrow> I t')"

named_theorems preserves_intro "computations that keep an invariant"

lemma preservesD: "preserves I f \<Longrightarrow> I t \<Longrightarrow> f t = Some (r, t') \<Longrightarrow> I t'"
  by (auto simp: preserves_def)

lemma preserves_bind [preserves_intro]:
  assumes "preserves I f" "\<And>r. preserves I (g r)"
  shows "preserves I (\<lambda>t. do { (r, t') \<leftarrow> f t; g r t' })"
  unfolding preserves_def
proof (intro allI impI)
  fix t r t'
  assume "I t" "do { (r, t') \<leftarrow> f t; g r t' } = Some (r, t')"
  then obtain r1 t1 where "f t = Some (r1, t1)" "g r1 t1 = Some (r, t')" by (auto simp: bind_eq_Some_conv)
  then show "I t'" using preservesD [OF assms(1) \<open>I t\<close>] preservesD [OF assms(2)] by blast
qed

lemma preserves_ask [preserves_intro]:
  assumes "\<And>r. preserves I (g r)"
  shows "preserves I (\<lambda>t. do { r \<leftarrow> h t; g r t })"
  unfolding preserves_def
proof (intro allI impI)
  fix t r t'
  assume "I t" "do { r \<leftarrow> h t; g r t } = Some (r, t')"
  then obtain a where "g a t = Some (r, t')" by (auto simp: bind_eq_Some_conv)
  then show "I t'" using preservesD [OF assms \<open>I t\<close>] by blast
qed

lemma preserves_return [preserves_intro]: "preserves I (\<lambda>t. Some (r, t))" "preserves I (\<lambda>t. None)"
  by (auto simp: preserves_def)

lemma preserves_sum [preserves_intro]:
  "(\<And>er. preserves I (f er)) \<Longrightarrow> (\<And>x. preserves I (g x)) \<Longrightarrow>
    preserves I (\<lambda>t. case r of Inl er \<Rightarrow> f er t | Inr x \<Rightarrow> g x t)"
  by (cases r) simp_all

lemma preserves_outcome [preserves_intro]:
  "(\<And>c. preserves I (f c)) \<Longrightarrow> (\<And>n c. preserves I (g n c)) \<Longrightarrow>
    preserves I (\<lambda>t. case r of Return c \<Rightarrow> f c t | Xctl n c \<Rightarrow> g n c t)"
  by (cases r) simp_all

locale task_invariant =
  fixes S :: "('e, 'w) store_ops" and fct :: file_control_table and F :: "string set" and sync :: bool
    and I :: "('e, 'w) task \<Rightarrow> bool"
  assumes write_keeps: "file \<in> F \<Longrightarrow> preserves I (\<lambda>t. task_write S fct t file key data)"
    and rewrite_keeps: "file \<in> F \<Longrightarrow> preserves I (\<lambda>t. task_rewrite S fct t file key data)"
    and delete_keeps: "file \<in> F \<Longrightarrow> preserves I (\<lambda>t. task_delete S fct t file key)"
    and start_keeps: "I t \<Longrightarrow> I (task_start t tran program c)"
    and syncpoint_keeps: "sync \<Longrightarrow> preserves I (task_syncpoint S)"
    and rollback_keeps: "I t \<Longrightarrow> task_rollback S t = Some t' \<Longrightarrow> I t'"
begin

lemma execute_keeps:
  assumes loop: "\<And>b n c. preserves I (loop b n c)"
  shows "within F sync p \<Longrightarrow> preserves I (execute S fct loop b p)"
proof (induction p)
  case (Link program c k)
  have "preserves I (task_link loop b program c)"
    using loop by (auto simp: preserves_def task_link_def Let_def split: if_splits)
  then show ?case unfolding execute.simps by (rule preserves_bind) (use Link in auto)
next
  case (Start tran program c p)
  then have "preserves I (execute S fct loop b p)" by simp
  from preservesD [OF this start_keeps] show ?case unfolding execute.simps preserves_def by blast
next
  case (SyncpointRollback p)
  then have "preserves I (execute S fct loop b p)" by simp
  from preservesD [OF this rollback_keeps] show ?case
    unfolding execute.simps preserves_def by (auto simp: bind_eq_Some_conv)
qed (unfold execute.simps within.simps; (elim conjE)?;
  (intro preserves_intro write_keeps rewrite_keeps delete_keeps syncpoint_keeps; blast))+

lemma run_program_loop_keeps:
  assumes "programs_within F sync programs"
  shows "preserves I (run_program_loop S programs fct b n c)"
proof -
  let ?P = "\<lambda>S' programs' fct' b n c t y. S' = S \<longrightarrow> programs' = programs \<longrightarrow> fct' = fct \<longrightarrow>
    I t \<longrightarrow> I (snd y)"
  have "I (snd y)" if s: "run_program_loop S programs fct b n c t = Some y" and "I t" for t y
  proof -
    have "?P S programs fct b n c t y"
    proof (rule run_program_loop.raw_induct [where P = ?P, OF _ s], intro impI)
      fix f S' programs' fct' b n c t y
      assume IH: "\<And>S programs fct b n c t y. f S programs fct b n c t = Some y \<Longrightarrow> ?P S programs fct b n c t y"
        and eqs: "S' = S" "programs' = programs" "fct' = fct" and I: "I t"
        and s: "(case resolve_program programs' n of Inl er \<Rightarrow> Some (Inl er, t)
          | Inr program \<Rightarrow> do { (r, t') \<leftarrow> execute S' fct' (f S' programs' fct') b (program b c) t;
              case r of Inl er \<Rightarrow> Some (Inl er, t') | Inr (Return c') \<Rightarrow> Some (Inr c', t')
              | Inr (Xctl program' c') \<Rightarrow> f S' programs' fct' b program' c' t' }) = Some y"
      have loop: "preserves I (f S programs fct b n c)" for b n c
        using IH unfolding preserves_def by fastforce
      show "I (snd y)"
      proof (cases "programs n")
        case None
        then show ?thesis using s eqs I by (auto simp: resolve_program_def)
      next
        case (Some program)
        then have w: "within F sync (program b c)" using assms by (auto simp: programs_within_def)
        have "preserves I (\<lambda>t. do { (r, t') \<leftarrow> execute S fct (f S programs fct) b (program b c) t;
              case r of Inl er \<Rightarrow> Some (Inl er, t') | Inr (Return c') \<Rightarrow> Some (Inr c', t')
              | Inr (Xctl program' c') \<Rightarrow> f S programs fct b program' c' t' })"
          by (intro preserves_intro loop execute_keeps w)
        from preservesD [OF this I, of "fst y" "snd y"] show ?thesis
          using s Some unfolding eqs by (simp add: resolve_program_def)
      qed
    qed
    then show ?thesis using \<open>I t\<close> by simp
  qed
  then show ?thesis unfolding preserves_def by fastforce
qed

end

section \<open>Calls over rows\<close>

lemma rows_write_cases:
  assumes "task_write rows_store fct t file key data = Some (r, t')"
  obtains "t' = t" | fid ys where "files fct file = Some fid" "k_txn t = Some ys"
    "t' = t\<lparr>k_txn := Some (ins (storage_key fid key) data ys)\<rparr>"
  using assms that
  by (auto simp: task_write_def exec_write_def bind_eq_Some_conv Let_def split: sum.splits if_splits)

lemma rows_rewrite_cases:
  assumes "task_rewrite rows_store fct t file key data = Some (r, t')"
  obtains "t' = t" | fid ys where "files fct file = Some fid" "k_txn t = Some ys"
    "t' = t\<lparr>k_txn := Some (ins (storage_key fid key) data ys)\<rparr>"
  using assms that
  by (auto simp: task_rewrite_def exec_rewrite_def bind_eq_Some_conv Let_def split: sum.splits if_splits)

lemma rows_delete_cases:
  assumes "task_delete rows_store fct t file key = Some (r, t')"
  obtains "t' = t" | fid ys where "files fct file = Some fid" "k_txn t = Some ys"
    "t' = t\<lparr>k_txn := Some (del (storage_key fid key) ys)\<rparr>"
  using assms that
  by (auto simp: task_delete_def exec_delete_def bind_eq_Some_conv split: sum.splits if_splits)

lemma rows_commit_cases:
  assumes "s_commit rows_store e w = Some (e', r)"
  obtains "i_rows e' = w" "r = Inr ()" | er where "i_rows e' = i_rows e" "r = Inl er"
  using assms that by (auto simp: rows_store_def split: list.splits option.splits)

lemma rows_syncpoint_cases:
  assumes "task_syncpoint rows_store t = Some (r, t')"
  obtains ys where "k_txn t = Some ys" "i_rows (k_env t') = ys" "k_txn t' = Some ys" "r = Inr ()" "k_starts t' = k_starts t"
  | ys er where "k_txn t = Some ys" "i_rows (k_env t') = i_rows (k_env t)" "k_txn t' = None" "r = Inl (Io er)"
      "k_starts t' = k_starts t"
proof -
  obtain ys e out where c: "k_txn t = Some ys" "s_commit rows_store (k_env t) ys = Some (e, out)"
    using assms by (auto simp: task_syncpoint_def bind_eq_Some_conv)
  then show thesis using assms that
    by (cases rule: rows_commit_cases [OF c(2)]) (auto simp: task_syncpoint_def split: sum.splits)
qed

lemma rows_rollback_Some:
  "task_rollback rows_store t = Some t' \<longleftrightarrow> k_txn t \<noteq> None \<and> t' = t\<lparr>k_txn := Some (i_rows (k_env t))\<rparr>"
  by (cases "k_txn t") (auto simp: task_rollback_def)

section \<open>Without syncpoints\<close>

text \<open>The committed rows and the outcomes to come stay as they are, the transaction open.\<close>

interpretation unsynced: task_invariant rows_store fct UNIV False "\<lambda>t. k_env t = e \<and> k_txn t \<noteq> None" for fct e
  by unfold_locales
    (auto simp: preserves_def task_start_def rows_rollback_Some
      elim!: rows_write_cases rows_rewrite_cases rows_delete_cases)

section \<open>Invariants of rows\<close>

text \<open>A property of rows that the writes and deletes of a set of files keep.\<close>

locale rows_invariant =
  fixes fct :: file_control_table and F :: "string set" and Q :: "rows \<Rightarrow> bool"
  assumes ins_keeps: "file \<in> F \<Longrightarrow> files fct file = Some fid \<Longrightarrow> Q ys \<Longrightarrow> Q (ins (storage_key fid key) v ys)"
    and del_keeps: "file \<in> F \<Longrightarrow> files fct file = Some fid \<Longrightarrow> Q ys \<Longrightarrow> Q (del (storage_key fid key) ys)"

sublocale rows_invariant \<subseteq> task_invariant rows_store fct F True
  "\<lambda>t. Q (i_rows (k_env t)) \<and> (\<forall>ys. k_txn t = Some ys \<longrightarrow> Q ys)"
  by unfold_locales
    (auto simp: preserves_def task_start_def rows_rollback_Some ins_keeps del_keeps
      elim!: rows_write_cases rows_rewrite_cases rows_delete_cases rows_syncpoint_cases)

context rows_invariant
begin

lemma run_task_keeps:
  assumes "programs_within F True programs" "Q (i_rows e)"
    "run_task rows_store programs fct num req q e = Some (out, q', e', r)"
  shows "Q (i_rows e')"
proof -
  obtain t where t: "run_program_loop rows_store programs fct
        \<lparr>task_id = num, tranid = ps_tranid req, link_level = 1\<rparr> (ps_program req) (ps_commarea req)
        \<lparr>k_env = e, k_txn = Some (i_rows e), k_starts = q\<rparr> = Some (out, t)"
      "end_task rows_store out t = Some (e', r)"
    using assms(3) by (auto simp: run_task_def bind_eq_Some_conv)
  have I: "Q (i_rows (k_env t))" "\<And>ys. k_txn t = Some ys \<Longrightarrow> Q ys"
    using preservesD [OF run_program_loop_keeps [OF assms(1)] _ t(1)] assms(2) by auto
  show ?thesis using t(2) I
    by (auto simp: end_task_def split: sum.splits option.splits elim!: rows_commit_cases)
qed

lemma dispatch_keeps:
  assumes "programs_within F True programs" "Q (i_rows e)"
    "dispatch rows_store programs fct q originating ids e = Some (ids', e', out)"
  shows "Q (i_rows e')"
proof -
  let ?P = "\<lambda>S' programs' fct' q originating ids e y.
    S' = rows_store \<longrightarrow> programs' = programs \<longrightarrow> fct' = fct \<longrightarrow> Q (i_rows e) \<longrightarrow> Q (i_rows (fst (snd y)))"
  have "?P rows_store programs fct q originating ids e (ids', e', out)"
  proof (rule dispatch.raw_induct [where P = ?P, OF _ assms(3)], intro impI)
    fix f S' programs' fct' q originating ids e y
    assume IH: "\<And>S programs fct q originating ids e y.
          f S programs fct q originating ids e = Some y \<Longrightarrow> ?P S programs fct q originating ids e y"
      and eqs: "S' = rows_store" "programs' = programs" "fct' = fct" and Q: "Q (i_rows e)"
      and s: "(case q of [] \<Rightarrow> do { out \<leftarrow> originating; Some (ids, e, out) }
        | req # rest \<Rightarrow> do {
            let (num, ids') = next_task_id ids;
            (out, queue', e', r) \<leftarrow> run_task S' programs' fct' num req rest e;
            case r of Inl er \<Rightarrow> Some (ids', e', Inl (Io er))
            | Inr _ \<Rightarrow> f S' programs' fct' queue'
                (case originating of None \<Rightarrow> Some out | Some first \<Rightarrow> Some first) ids' e' }) = Some y"
    show "Q (i_rows (fst (snd y)))"
    proof (cases q)
      case Nil
      then show ?thesis using s Q by (auto simp: bind_eq_Some_conv)
    next
      case (Cons req rest)
      then obtain out q' e' r where rt: "run_task rows_store programs fct ids req rest e = Some (out, q', e', r)"
        using s eqs by (auto simp: next_task_id_def bind_eq_Some_conv)
      have "Q (i_rows e')" by (rule run_task_keeps [OF assms(1) Q rt])
      then show ?thesis using s eqs Cons rt IH by (cases r) (auto simp: next_task_id_def)
    qed
  qed
  then show ?thesis using assms(2) by simp
qed

lemma start_task_keeps:
  assumes "g_fct g = fct" "programs_within F True (g_programs g)" "Q (i_rows (g_env g))"
    "start_task rows_store g tran program c = Some (g', out)"
  shows "Q (i_rows (g_env g'))"
  using assms dispatch_keeps by (auto simp: start_task_def bind_eq_Some_conv)

end

text \<open>A key is one of a file when it begins with the four bytes of the file's identifier. Every key
that was not there at first is one of a file of \<open>F\<close>.\<close>

definition of_file :: "file_control_table \<Rightarrow> string \<Rightarrow> bytes \<Rightarrow> bool" where
  "of_file fct name k \<longleftrightarrow> (\<exists>fid key. files fct name = Some fid \<and> k = be_bytes 4 fid @ key)"

definition filed :: "file_control_table \<Rightarrow> string set \<Rightarrow> bytes set \<Rightarrow> rows \<Rightarrow> bool" where
  "filed fct F first ys \<longleftrightarrow> (\<forall>k\<in>fst ` set ys. k \<in> first \<or> (\<exists>name\<in>F. of_file fct name k))"

interpretation filed_rows: rows_invariant fct F "filed fct F first" for fct F first
  by unfold_locales (force simp: filed_def of_file_def ins_def del_def storage_key_def)+

text \<open>The files that no program names stay as they are.\<close>

definition others :: "file_control_table \<Rightarrow> string set \<Rightarrow> file_id set" where
  "others fct F = {fid. \<forall>file\<in>F. files fct file \<noteq> Some fid}"

interpretation confined: rows_invariant fct F "\<lambda>ys. \<forall>fid \<in> others fct F. view ys fid = V fid" for fct F V
  by unfold_locales (auto simp: others_def)

end
