(* ===== verification/Region_Runs.thy ===== *)
theory Region_Runs
  imports Region_Inv
begin

text \<open>
  Runs compared with runs: a run does not depend on what is in the queue before it, nor on
  what programs would do below LINK level 64; and runs that end: the only loop a program can
  get into is one of XCTLs.
\<close>

section \<open>Related runs\<close>

definition related :: "('t \<Rightarrow> 'u \<Rightarrow> bool) \<Rightarrow> ('t \<Rightarrow> ('r \<times> 't) option) \<Rightarrow> ('u \<Rightarrow> ('r \<times> 'u) option) \<Rightarrow> bool" where
  "related R f g \<longleftrightarrow>
     (\<forall>t u r t'. R t u \<longrightarrow> f t = Some (r, t') \<longrightarrow> (\<exists>u'. g u = Some (r, u') \<and> R t' u'))"

named_theorems related_intro "related computations"

lemma relatedD: "related R f g \<Longrightarrow> R t u \<Longrightarrow> f t = Some (r, t') \<Longrightarrow> \<exists>u'. g u = Some (r, u') \<and> R t' u'"
  by (simp add: related_def)

lemma related_bind [related_intro]:
  assumes "related R f f'" "\<And>r. related R (g r) (g' r)"
  shows "related R (\<lambda>t. do { (r, t') \<leftarrow> f t; g r t' }) (\<lambda>t. do { (r, t') \<leftarrow> f' t; g' r t' })"
  unfolding related_def
proof (intro allI impI)
  fix t u r t'
  assume R: "R t u" and "do { (r, t') \<leftarrow> f t; g r t' } = Some (r, t')"
  then obtain r1 t1 where s: "f t = Some (r1, t1)" "g r1 t1 = Some (r, t')" by (auto simp: bind_eq_Some_conv)
  obtain u1 where u1: "f' u = Some (r1, u1)" "R t1 u1" using relatedD [OF assms(1) R s(1)] by blast
  obtain u' where "g' r1 u1 = Some (r, u')" "R t' u'" using relatedD [OF assms(2) u1(2) s(2)] by blast
  with u1(1) show "\<exists>u'. do { (r, t') \<leftarrow> f' u; g' r t' } = Some (r, u') \<and> R t' u'" by auto
qed

lemma related_ask:
  assumes "\<And>t u. R t u \<Longrightarrow> h t = h' u" "\<And>r. related R (g r) (g' r)"
  shows "related R (\<lambda>t. do { r \<leftarrow> h t; g r t }) (\<lambda>t. do { r \<leftarrow> h' t; g' r t })"
  unfolding related_def
proof (intro allI impI)
  fix t u r t'
  assume R: "R t u" and "do { r \<leftarrow> h t; g r t } = Some (r, t')"
  then obtain a where a: "h t = Some a" "g a t = Some (r, t')" by (auto simp: bind_eq_Some_conv)
  obtain u' where "g' a u = Some (r, u')" "R t' u'" using relatedD [OF assms(2) R a(2)] by blast
  with a(1) assms(1) [OF R] show "\<exists>u'. do { r \<leftarrow> h' u; g' r u } = Some (r, u') \<and> R t' u'" by auto
qed

lemma related_return [related_intro]: "related R (\<lambda>t. Some (r, t)) (\<lambda>t. Some (r, t))" "related R (\<lambda>t. None) g"
  by (simp_all add: related_def)

lemma related_sum [related_intro]:
  "(\<And>er. related R (f er) (f' er)) \<Longrightarrow> (\<And>x. related R (g x) (g' x)) \<Longrightarrow>
    related R (\<lambda>t. case r of Inl er \<Rightarrow> f er t | Inr x \<Rightarrow> g x t) (\<lambda>t. case r of Inl er \<Rightarrow> f' er t | Inr x \<Rightarrow> g' x t)"
  by (cases r) simp_all

lemma related_outcome [related_intro]:
  "(\<And>c. related R (f c) (f' c)) \<Longrightarrow> (\<And>n c. related R (g n c) (g' n c)) \<Longrightarrow>
    related R (\<lambda>t. case r of Return c \<Rightarrow> f c t | Xctl n c \<Rightarrow> g n c t)
      (\<lambda>t. case r of Return c \<Rightarrow> f' c t | Xctl n c \<Rightarrow> g' n c t)"
  by (cases r) simp_all

text \<open>Programs that do the same at every level LINK lets them run at.\<close>

definition agree :: "program_manager \<Rightarrow> program_manager \<Rightarrow> bool" where
  "agree P P' \<longleftrightarrow> dom P = dom P' \<and>
     (\<forall>name p p' b c. P name = Some p \<longrightarrow> P' name = Some p' \<longrightarrow> link_level b \<le> MAX_LINK_DEPTH \<longrightarrow> p b c = p' b c)"

lemma agree_refl [simp]: "agree P P"
  by (simp add: agree_def)

lemma agree_sym: "agree P P' \<Longrightarrow> agree P' P"
  unfolding agree_def by metis

lemma agree_None: "agree P P' \<Longrightarrow> P n = None \<longleftrightarrow> P' n = None"
  unfolding agree_def by (metis domIff)

lemma agree_Some:
  assumes "agree P P'" "P n = Some p" "link_level b \<le> MAX_LINK_DEPTH"
  obtains p' where "P' n = Some p'" "p b c = p' b c"
  using assms agree_None [OF assms(1), of n] unfolding agree_def by (metis not_None_eq)

locale task_relation =
  fixes S :: "('e, 'w) store_ops" and S' :: "('f, 'v) store_ops" and fct :: file_control_table
    and R :: "('e, 'w) task \<Rightarrow> ('f, 'v) task \<Rightarrow> bool"
  assumes read_rel: "R t u \<Longrightarrow> task_read S fct t file key = task_read S' fct u file key"
    and browse_rel: "R t u \<Longrightarrow> task_browse S fct t file start limit = task_browse S' fct u file start limit"
    and write_rel: "related R (\<lambda>t. task_write S fct t file key data) (\<lambda>t. task_write S' fct t file key data)"
    and rewrite_rel: "related R (\<lambda>t. task_rewrite S fct t file key data) (\<lambda>t. task_rewrite S' fct t file key data)"
    and delete_rel: "related R (\<lambda>t. task_delete S fct t file key) (\<lambda>t. task_delete S' fct t file key)"
    and start_rel: "R t u \<Longrightarrow> R (task_start t tran program c) (task_start u tran program c)"
    and syncpoint_rel: "related R (task_syncpoint S) (task_syncpoint S')"
    and rollback_rel: "R t u \<Longrightarrow> task_rollback S t = Some t' \<Longrightarrow> \<exists>u'. task_rollback S' u = Some u' \<and> R t' u'"
begin

lemma execute_rel:
  assumes loop: "\<And>b n c. link_level b \<le> MAX_LINK_DEPTH \<Longrightarrow> related R (loop b n c) (loop' b n c)"
  shows "related R (execute S fct loop b p) (execute S' fct loop' b p)"
proof (induction p)
  case (Read f key k)
  then show ?case unfolding execute.simps by (intro related_ask read_rel) auto
next
  case (Browse f start limit k)
  then show ?case unfolding execute.simps by (intro related_ask browse_rel) auto
next
  case (Link program c k)
  have "related R (task_link loop b program c) (task_link loop' b program c)"
    using loop by (auto simp: related_def task_link_def Let_def not_less split: if_splits)
  then show ?case unfolding execute.simps by (rule related_bind) (use Link in auto)
next
  case (Start tran program c p)
  show ?case unfolding execute.simps related_def
    using relatedD [OF Start start_rel] by blast
next
  case (SyncpointRollback p)
  show ?case unfolding execute.simps related_def
    using rollback_rel relatedD [OF SyncpointRollback] by (fastforce simp: bind_eq_Some_conv)
qed (unfold execute.simps; intro related_intro write_rel rewrite_rel delete_rel syncpoint_rel; blast)+

lemma run_program_loop_rel:
  assumes agree: "agree P P'" and level: "link_level b \<le> MAX_LINK_DEPTH"
  shows "related R (run_program_loop S P fct b n c) (run_program_loop S' P' fct b n c)"
proof -
  let ?loop = "run_program_loop S' P' fct"
  let ?Q = "\<lambda>b n c t y. link_level b \<le> MAX_LINK_DEPTH \<longrightarrow>
    (\<forall>u. R t u \<longrightarrow> (\<exists>u'. ?loop b n c u = Some (fst y, u') \<and> R (snd y) u'))"
  let ?P = "\<lambda>S0 P0 fct0 b n c t y. S0 = S \<longrightarrow> P0 = P \<longrightarrow> fct0 = fct \<longrightarrow> ?Q b n c t y"
  have "?Q b n c t y" if s: "run_program_loop S P fct b n c t = Some y" for t y
  proof -
    have "?P S P fct b n c t y"
    proof (rule run_program_loop.raw_induct [where P = ?P, OF _ s], intro impI)
      fix f S0 P0 fct0 b n c t y
      assume IH: "\<And>S P fct b n c t y. f S P fct b n c t = Some y \<Longrightarrow> ?P S P fct b n c t y"
        and eqs: "S0 = S" "P0 = P" "fct0 = fct" and level: "link_level b \<le> MAX_LINK_DEPTH"
        and s: "(case resolve_program P0 n of Inl er \<Rightarrow> Some (Inl er, t)
          | Inr program \<Rightarrow> do { (r, t') \<leftarrow> execute S0 fct0 (f S0 P0 fct0) b (program b c) t;
              case r of Inl er \<Rightarrow> Some (Inl er, t') | Inr (Return c') \<Rightarrow> Some (Inr c', t')
              | Inr (Xctl program' c') \<Rightarrow> f S0 P0 fct0 b program' c' t' }) = Some y"
      have loop: "related R (f S P fct b n c) (?loop b n c)" if "link_level b \<le> MAX_LINK_DEPTH" for b n c
        using IH that unfolding related_def by fastforce
      show "\<forall>u. R t u \<longrightarrow> (\<exists>u'. ?loop b n c u = Some (fst y, u') \<and> R (snd y) u')"
      proof (cases "P n")
        case None
        then have "P' n = None" using agree_None [OF agree] by simp
        then show ?thesis using s eqs None by (auto simp: run_program_loop.simps [of S'] resolve_program_def)
      next
        case (Some program)
        obtain program' where p': "P' n = Some program'" "program b c = program' b c"
          by (rule agree_Some [OF agree Some level])
        have "related R (\<lambda>t. do { (r, t') \<leftarrow> execute S fct (f S P fct) b (program b c) t;
              case r of Inl er \<Rightarrow> Some (Inl er, t') | Inr (Return c') \<Rightarrow> Some (Inr c', t')
              | Inr (Xctl program' c') \<Rightarrow> f S P fct b program' c' t' }) (?loop b n c)"
          unfolding p'(2)
          by (subst run_program_loop.simps [abs_def], simp only: resolve_program_def p'(1) option.case sum.case)
            (intro related_intro loop execute_rel level; assumption)
        from relatedD [OF this, of t _ "fst y" "snd y"] show ?thesis
          using s Some unfolding eqs by (simp add: resolve_program_def)
      qed
    qed
    then show ?thesis by simp
  qed
  with level show ?thesis unfolding related_def by fastforce
qed

end

interpretation same_task: task_relation S S fct "(=)" for S :: "('e, 'w) store_ops" and fct
  by unfold_locales (auto simp: related_def)

text \<open>LINK keeps the level at 64 or below: what programs would do deeper does not matter.\<close>

lemma run_program_loop_agree:
  assumes "agree P P'" "link_level b \<le> MAX_LINK_DEPTH"
  shows "run_program_loop S P fct b n c t = run_program_loop S P' fct b n c t"
proof (cases "run_program_loop S P fct b n c t")
  case (Some y)
  then show ?thesis
    using relatedD [OF same_task.run_program_loop_rel [OF assms] refl, of S fct n c t "fst y" "snd y"] by auto
next
  case None
  have "run_program_loop S P' fct b n c t \<noteq> Some (r, t')" for r t'
    using relatedD [OF same_task.run_program_loop_rel [OF agree_sym [OF assms(1)] assms(2)] refl, of S fct n c t r t']
      None by auto
  then show ?thesis using None by (cases "run_program_loop S P' fct b n c t") auto
qed

section \<open>The queue\<close>

text \<open>A run only appends to the queue of started tasks, and does not look at it.\<close>

definition queued :: "pending_start list \<Rightarrow> ('e, 'w) task \<Rightarrow> ('e, 'w) task" where
  "queued q t = t\<lparr>k_starts := q @ k_starts t\<rparr>"

lemma queued_simps [simp]:
  "k_env (queued q t) = k_env t" "k_txn (queued q t) = k_txn t" "k_starts (queued q t) = q @ k_starts t"
  "queued q t\<lparr>k_env := e, k_txn := w\<rparr> = queued q (t\<lparr>k_env := e, k_txn := w\<rparr>)"
  "queued q \<lparr>k_env = e, k_txn = w, k_starts = q'\<rparr> = \<lparr>k_env = e, k_txn = w, k_starts = q @ q'\<rparr>"
  by (simp_all add: queued_def)

lemma queued_calls [simp]:
  "task_read S fct (queued q t) file key = task_read S fct t file key"
  "task_browse S fct (queued q t) file start limit = task_browse S fct t file start limit"
  "task_write S fct (queued q t) file key data = map_option (\<lambda>(r, t'). (r, queued q t')) (task_write S fct t file key data)"
  "task_rewrite S fct (queued q t) file key data = map_option (\<lambda>(r, t'). (r, queued q t')) (task_rewrite S fct t file key data)"
  "task_delete S fct (queued q t) file key = map_option (\<lambda>(r, t'). (r, queued q t')) (task_delete S fct t file key)"
  "task_syncpoint S (queued q t) = map_option (\<lambda>(r, t'). (r, queued q t')) (task_syncpoint S t)"
  "task_rollback S (queued q t) = map_option (queued q) (task_rollback S t)"
  "task_start (queued q t) tran program c = queued q (task_start t tran program c)"
proof -
  show "task_syncpoint S (queued q t) = map_option (\<lambda>(r, t'). (r, queued q t')) (task_syncpoint S t)"
    unfolding task_syncpoint_def
    by (cases "k_txn t"; simp) (auto simp: map_option_bind intro!: Option.bind_cong split: sum.split option.split prod.split)
qed (auto simp: task_read_def task_browse_def task_write_def task_rewrite_def task_delete_def task_rollback_def
    task_start_def map_option_bind queued_def intro!: Option.bind_cong split: prod.split)

interpretation queued_fwd: task_relation S S fct "\<lambda>t u. u = queued q t" for S :: "('e, 'w) store_ops" and fct q
  by unfold_locales (auto simp: related_def)

interpretation queued_bwd: task_relation S S fct "\<lambda>u t. u = queued q t" for S :: "('e, 'w) store_ops" and fct q
  by unfold_locales (auto simp: related_def)

lemma run_program_loop_queued:
  assumes "link_level b \<le> MAX_LINK_DEPTH"
  shows "run_program_loop S P fct b n c (queued q t) =
    map_option (\<lambda>(r, t'). (r, queued q t')) (run_program_loop S P fct b n c t)"
proof (cases "run_program_loop S P fct b n c t")
  case (Some y)
  then show ?thesis
    using relatedD [OF queued_fwd.run_program_loop_rel [OF agree_refl assms] refl, of S P fct n c t "fst y" "snd y" q]
    by (auto simp: split_beta)
next
  case None
  have "run_program_loop S P fct b n c (queued q t) \<noteq> Some (r, t')" for r t'
    using relatedD [OF queued_bwd.run_program_loop_rel [OF agree_refl assms] refl, of S P fct n c q t r t'] None
    by auto
  then show ?thesis using None by (cases "run_program_loop S P fct b n c (queued q t)") auto
qed

lemma run_task_queued:
  "run_task S P fct num req (q @ q') e =
     map_option (\<lambda>(out, starts, e', r). (out, q @ starts, e', r)) (run_task S P fct num req q' e)"
proof -
  have l: "link_level \<lparr>task_id = num, tranid = ps_tranid req, link_level = 1\<rparr> \<le> MAX_LINK_DEPTH"
    by (simp add: MAX_LINK_DEPTH_def)
  have e: "end_task S out (queued q t) = end_task S out t" for out t
    by (cases out; cases "k_txn t"; simp add: end_task_def)
  show ?thesis
    by (auto simp: run_task_def run_program_loop_queued [OF l, of _ _ _ _ _ _ "\<lparr>k_env = _, k_txn = _, k_starts = q'\<rparr>", simplified]
        map_option_bind bind_map_option e comp_def intro!: Option.bind_cong split: prod.split)
qed

text \<open>
  The tasks of a queue in order, each over the store that the one before it left, with what
  they start gathered; a commit that fails ends the dispatch.
\<close>

fun run_all :: "('e, 'w) store_ops \<Rightarrow> program_manager \<Rightarrow> file_control_table \<Rightarrow> task_id_generator \<Rightarrow>
    pending_start list \<Rightarrow> 'e \<Rightarrow>
    (task_id_generator \<times> (cics_error + commarea) list \<times> pending_start list \<times> 'e \<times> (io_error + unit)) option" where
  "run_all S P fct ids [] e = Some (ids, [], [], e, Inr ())"
| "run_all S P fct ids (req # rest) e =
     do { (out, starts, e', r) \<leftarrow> run_task S P fct ids req [] e;
          case r of
            Inl er \<Rightarrow> Some (ids + 1, [out], starts, e', Inl er)
          | Inr _ \<Rightarrow> do {
              (ids', outs, starts', e'', r') \<leftarrow> run_all S P fct (ids + 1) rest e';
              Some (ids', out # outs, starts @ starts', e'', r') } }"

definition first_of :: "'a option \<Rightarrow> 'a list \<Rightarrow> 'a option" where
  "first_of x xs = (case x of None \<Rightarrow> (case xs of [] \<Rightarrow> None | y # _ \<Rightarrow> Some y) | Some y \<Rightarrow> Some y)"

lemma first_of_simps [simp]: "first_of x [] = x" "first_of (first_of x [y]) ys = first_of x (y # ys)"
  by (simp_all add: first_of_def split: option.split)

lemma dispatch_run_all:
  "dispatch S P fct (q @ later) o1 ids e =
     do { (ids', outs, starts, e', r) \<leftarrow> run_all S P fct ids q e;
          case r of
            Inl er \<Rightarrow> Some (ids', e', Inl (Io er))
          | Inr _ \<Rightarrow> dispatch S P fct (later @ starts) (first_of o1 outs) ids' e' }"
proof (induction q arbitrary: later o1 ids e)
  case Nil
  then show ?case by simp
next
  case (Cons req rest)
  have "dispatch S P fct ((req # rest) @ later) o1 ids e =
      do { (out, starts, e', r) \<leftarrow> run_task S P fct ids req [] e;
           case r of Inl er \<Rightarrow> Some (ids + 1, e', Inl (Io er))
           | Inr _ \<Rightarrow> dispatch S P fct (rest @ later @ starts) (first_of o1 [out]) (ids + 1) e' }"
    using run_task_queued [of S P fct ids req "rest @ later" "[]" e]
    by (auto simp: dispatch.simps [of S P fct "_ # _"] next_task_id_def bind_map_option first_of_def comp_def
        intro!: Option.bind_cong split: sum.split prod.split option.split)
  also have "\<dots> = do { (ids', outs, starts, e', r) \<leftarrow> run_all S P fct ids (req # rest) e;
          case r of
            Inl er \<Rightarrow> Some (ids', e', Inl (Io er))
          | Inr _ \<Rightarrow> dispatch S P fct (later @ starts) (first_of o1 outs) ids' e' }"
    by (auto simp: Cons.IH intro!: Option.bind_cong split: sum.split prod.split)
  finally show ?case .
qed

section \<open>Runs that end\<close>

text \<open>A program does not panic, and XCTLs only to names of \<open>X\<close>.\<close>

primrec ends :: "(string \<Rightarrow> bool) \<Rightarrow> prog \<Rightarrow> bool" where
  "ends X (Finish r) = (case r of Inr (Xctl name c) \<Rightarrow> X name | _ \<Rightarrow> True)"
| "ends X Panic = False"
| "ends X (Read file key k) = (\<forall>r. ends X (k r))"
| "ends X (Write file key data k) = (\<forall>r. ends X (k r))"
| "ends X (Rewrite file key data k) = (\<forall>r. ends X (k r))"
| "ends X (Delete file key k) = (\<forall>r. ends X (k r))"
| "ends X (Browse file start limit k) = (\<forall>r. ends X (k r))"
| "ends X (Link program c k) = (\<forall>r. ends X (k r))"
| "ends X (Start tran program c p) = ends X p"
| "ends X (Syncpoint k) = (\<forall>r. ends X (k r))"
| "ends X (SyncpointRollback p) = ends X p"

definition ranked :: "(string \<Rightarrow> nat) \<Rightarrow> program_manager \<Rightarrow> bool" where
  "ranked rank programs \<longleftrightarrow>
     (\<forall>name program b c. programs name = Some program \<longrightarrow> ends (\<lambda>n. rank n < rank name) (program b c))"

text \<open>A computation that returns from every good state, with an allowed answer and a good state.\<close>

definition returns :: "('t \<Rightarrow> bool) \<Rightarrow> ('r \<Rightarrow> bool) \<Rightarrow> ('t \<Rightarrow> ('r \<times> 't) option) \<Rightarrow> bool" where
  "returns I A f \<longleftrightarrow> (\<forall>t. I t \<longrightarrow> (\<exists>r t'. f t = Some (r, t') \<and> A r \<and> I t'))"

lemma returns_bind:
  assumes "returns I A f" "\<And>r. A r \<Longrightarrow> returns I B (g r)"
  shows "returns I B (\<lambda>t. do { (r, t') \<leftarrow> f t; g r t' })"
  unfolding returns_def
proof (intro allI impI)
  fix t assume "I t"
  then obtain r t' where "f t = Some (r, t')" "A r" "I t'" using assms(1) unfolding returns_def by blast
  moreover obtain r2 t2 where "g r t' = Some (r2, t2)" "B r2" "I t2"
    using assms(2) [OF \<open>A r\<close>] \<open>I t'\<close> unfolding returns_def by blast
  ultimately show "\<exists>r t'. do { (r, t') \<leftarrow> f t; g r t' } = Some (r, t') \<and> B r \<and> I t'" by simp
qed

lemma returns_ask:
  assumes "\<And>t. I t \<Longrightarrow> h t \<noteq> None" "\<And>r. returns I B (g r)"
  shows "returns I B (\<lambda>t. do { r \<leftarrow> h t; g r t })"
  unfolding returns_def
proof (intro allI impI)
  fix t assume "I t"
  then obtain r where "h t = Some r" using assms(1) by blast
  then show "\<exists>r t'. do { r \<leftarrow> h t; g r t } = Some (r, t') \<and> B r \<and> I t'"
    using assms(2) [of r] \<open>I t\<close> unfolding returns_def by auto
qed

text \<open>Over rows, with an open transaction and commits that succeed, every call returns.\<close>

definition running :: "(ideal, rows) task \<Rightarrow> bool" where
  "running t \<longleftrightarrow> i_outcomes (k_env t) = [] \<and> keyed (i_rows (k_env t)) \<and> (\<exists>ys. k_txn t = Some ys \<and> keyed ys)"

lemma running_read: "running t \<Longrightarrow> task_read rows_store fct t file key \<noteq> None"
  by (auto simp: running_def task_read_def exec_read_def split: sum.split)

lemma keyed_select: "keyed ys \<Longrightarrow> keyed (take limit (select lo hi ys))"
  by (rule keyed_sub) (auto simp: select_def dest: in_set_takeD)

lemma running_browse: "fct_ok fct \<Longrightarrow> running t \<Longrightarrow> task_browse rows_store fct t file start limit \<noteq> None"
  by (auto simp: running_def task_browse_def exec_browse_def Let_def strip_rows_keyed keyed_select
      dest: fct_ok_last split: sum.split)

lemma running_writes:
  "returns running (\<lambda>_. True) (\<lambda>t. task_write rows_store fct t file key data)"
  "returns running (\<lambda>_. True) (\<lambda>t. task_rewrite rows_store fct t file key data)"
  "returns running (\<lambda>_. True) (\<lambda>t. task_delete rows_store fct t file key)"
  by (auto simp: returns_def running_def task_write_def task_rewrite_def task_delete_def exec_write_def
      exec_rewrite_def exec_delete_def Let_def split: sum.split)

lemma running_syncpoint: "returns running (\<lambda>_. True) (task_syncpoint rows_store)"
proof -
  have "s_commit rows_store e w = Some (e\<lparr>i_rows := w\<rparr>, Inr ())" if "i_outcomes e = []" for e w
    using that by (simp add: rows_store_def)
  then show ?thesis by (auto simp: returns_def running_def task_syncpoint_def)
qed

lemma running_rollback: "running t \<Longrightarrow> \<exists>t'. task_rollback rows_store t = Some t' \<and> running t'"
  by (auto simp: running_def rows_rollback_Some)

lemma execute_returns:
  assumes fct: "fct_ok fct"
    and link: "\<And>program c. returns running (\<lambda>_. True) (task_link loop b program c)"
  shows "ends X p \<Longrightarrow>
    returns running (\<lambda>r. \<forall>n c. r = Inr (Xctl n c) \<longrightarrow> X n) (execute rows_store fct loop b p)"
proof (induction p)
  case (Finish r)
  then show ?case by (auto simp: returns_def)
next
  case (Read f key k)
  then show ?case unfolding execute.simps by (intro returns_ask running_read) auto
next
  case (Browse f start limit k)
  then show ?case unfolding execute.simps by (intro returns_ask running_browse fct) auto
next
  case (Start tran program c p)
  have "running (task_start t tran program c)" if "running t" for t
    using that by (simp add: running_def task_start_def)
  then show ?case using Start by (auto simp: returns_def)
next
  case (SyncpointRollback p)
  then have "returns running (\<lambda>r. \<forall>n c. r = Inr (Xctl n c) \<longrightarrow> X n) (execute rows_store fct loop b p)" by simp
  then show ?case using running_rollback by (fastforce simp: returns_def)
qed (simp, (unfold execute.simps; rule returns_bind [OF running_writes(1)] returns_bind [OF running_writes(2)]
    returns_bind [OF running_writes(3)] returns_bind [OF running_syncpoint] returns_bind [OF link]; simp)+)

lemma link_level_not_last: "l \<le> MAX_LINK_DEPTH \<Longrightarrow> l \<noteq> - 1"
proof
  assume "l \<le> MAX_LINK_DEPTH" "l = - 1"
  then have "unat (- 1 :: u32) \<le> 64" by (simp add: MAX_LINK_DEPTH_def word_le_nat_alt)
  then show False by (simp add: unsigned_minus_1_eq_mask mask_eq_exp_minus_1)
qed

lemma run_program_loop_returns:
  assumes fct: "fct_ok fct" and ranked: "ranked rank programs"
  shows "link_level b \<le> MAX_LINK_DEPTH \<Longrightarrow>
    returns running (\<lambda>_. True) (run_program_loop rows_store programs fct b n c)"
proof (induction "unat MAX_LINK_DEPTH - unat (link_level b)" arbitrary: b n c rule: less_induct)
  case less
  let ?loop = "run_program_loop rows_store programs fct"
  note deeper = less.hyps
  have link: "returns running (\<lambda>_. True) (task_link ?loop b program c)" for program c
  proof (cases "MAX_LINK_DEPTH < link_level b + 1")
    case True
    have "link_level b \<noteq> - 1" by (rule link_level_not_last [OF less.prems])
    then show ?thesis using True by (auto simp: returns_def task_link_def)
  next
    case False
    let ?b = "b\<lparr>link_level := link_level b + 1\<rparr>"
    note m = link_level_not_last [OF less.prems]
    from m have "unat (link_level b + 1) = unat (link_level b) + 1"
      by (metis Suc_eq_plus1 add.commute add_eq_0_iff unatSuc)
    then have "unat MAX_LINK_DEPTH - unat (link_level ?b) < unat MAX_LINK_DEPTH - unat (link_level b)"
      using False by (simp add: word_less_nat_alt)
    then have "returns running (\<lambda>_. True) (?loop ?b program c)"
      by (rule deeper) (use False in simp)
    then show ?thesis using False m by (auto simp: returns_def task_link_def Let_def)
  qed
  show ?case
  proof (induction "rank n" arbitrary: n c rule: less_induct)
    case (less n c)
    show ?case
    proof (cases "programs n")
      case None
      then show ?thesis by (auto simp: returns_def run_program_loop.simps [of rows_store] resolve_program_def)
    next
      case (Some program)
      have ends: "ends (\<lambda>m. rank m < rank n) (program b c)" using ranked Some by (simp add: ranked_def)
      have rest: "returns running (\<lambda>_. True) (\<lambda>t'. case r of Inl er \<Rightarrow> Some (Inl er, t')
          | Inr (Return c') \<Rightarrow> Some (Inr c', t') | Inr (Xctl program' c') \<Rightarrow> ?loop b program' c' t')"
        if "\<forall>m c. r = Inr (Xctl m c) \<longrightarrow> rank m < rank n" for r
        using that less by (cases r; cases "projr r") (auto simp: returns_def)
      show ?thesis
        by (subst run_program_loop.simps [abs_def], simp only: resolve_program_def Some option.case sum.case)
          (rule returns_bind [OF execute_returns [OF fct link ends] rest])
    qed
  qed
qed

end
