(* ===== verification/Recovery.thy ===== *)
theory Recovery
  imports MVCC
begin

text \<open>
  Opening a store: a new file gives the empty store; whatever a crash leaves of a running
  one opens with the last committed data, and with either the old or the new data when it
  stopped inside a commit.
\<close>

section \<open>A new store\<close>

definition fresh_sys :: "environment \<Rightarrow> sys" where
  "fresh_sys env = \<lparr>y_env = env, y_readers = [], y_writer = None, y_synced = True\<rparr>"

definition fresh_db :: "rows \<Rightarrow> db" where
  "fresh_db xs = \<lparr>d_data = xs, d_snaps = [], d_work = None\<rparr>"

lemma sim_fresh:
  assumes "durable L (e_pager env) (e_committed env) ot is es" "contents ot = xs"
    "e_readers env = []" "\<not> e_writer env"
  shows "sim L (fresh_sys env) (fresh_db xs)"
proof (rule simI [of L _ ot "is" es])
  show "committed L (e_pager (y_env (fresh_sys env))) (e_committed (y_env (fresh_sys env))) ot is es"
    using durable_committed [OF assms(1)] by (simp add: fresh_sys_def)
  show "slot_ok (e_pager (y_env (fresh_sys env)))"
    using assms(1) by (simp add: fresh_sys_def durable_def slots_ok_def slot_ok_def)
qed (use assms in \<open>simp_all add: fresh_sys_def fresh_db_def\<close>)

lemma write_meta_slot_steps:
  assumes "write_meta_slot L p s m = Some (q, Inr u)"
  obtains buf where "encode_meta L m = Some buf" "p_file q = file_write (p_file p) s buf"
    "p_durable q = p_file q" "p_pending q = []" "active_meta_slot q = active_meta_slot p"
  using assms
  by (auto simp: write_meta_slot_def write_page_def dest!: sync_data_ok split: option.splits if_splits)

lemma open_new_durable:
  assumes L: "lib_ok L" and o: "open_env L lim syncs None = Some (Inr env)"
  shows "durable L (e_pager env) (e_committed env) None [] []" "e_readers env = []" "\<not> e_writer env"
proof -
  let ?p = "open_file lim syncs [zero_page, zero_page]"
  from o obtain p0 p1 where w: "write_meta_slot L ?p 0 initial_meta = Some (p0, Inr ())"
      "write_meta_slot L p0 1 initial_meta = Some (p1, Inr ())"
      and env: "env = \<lparr>e_pager = p1, e_committed = initial_meta, e_writer = False, e_readers = []\<rparr>"
    by (auto simp: open_env_def open_pager_def Let_def split: option.splits sum.splits prod.splits)
  obtain buf where b: "encode_meta L initial_meta = Some buf"
      "p_file p0 = file_write [zero_page, zero_page] 0 buf" "active_meta_slot p0 = 0"
    using write_meta_slot_steps [OF w(1)] by (auto simp: open_file_def)
  have f: "p_file p1 = file_write (p_file p0) 1 buf" "p_durable p1 = p_file p1" "p_pending p1 = []"
      "active_meta_slot p1 = 0"
    using write_meta_slot_steps [OF w(2)] b by (metis option.inject)+
  have fl: "p_file p1 = [buf, buf]" by (simp add: f(1) b(2) file_write_def)
  have mm: "magic initial_meta = MAGIC" by (simp add: initial_meta_def)
  have "read_meta_slot L [buf, buf] s = Some initial_meta" if "s = 0 \<or> s = 1" for s
  proof -
    have "decode_meta L buf = Some initial_meta"
      using read_meta_slot_write [OF L b(1) mm, of "[]" 0] by (simp add: read_meta_slot_def)
    moreover have "file_read [buf, buf] s = Some buf" using that by (auto simp: file_read_def get_at_def)
    ultimately show ?thesis by (simp add: read_meta_slot_def)
  qed
  then have "slots_ok L [buf, buf] 0 initial_meta" by (simp add: slots_ok_def)
  then show "durable L (e_pager env) (e_committed env) None [] []"
    by (simp add: durable_def env f(2-4) fl committed_def initial_meta_def tree_pages_def free_pages_def
        tvals_def META_PAGE_COUNT_def)
  show "e_readers env = []" "\<not> e_writer env" by (simp_all add: env)
qed

lemma open_new_sim:
  assumes "lib_ok L" "open_env L lim syncs None = Some (Inr env)"
  shows "sim L (fresh_sys env) (fresh_db [])"
  using sim_fresh [OF open_new_durable(1) [OF assms] _ open_new_durable(2,3) [OF assms]]
  by (simp add: contents_def)

lemma open_new_total:
  assumes "lib_ok L" "lib_sizes L" "2 \<le> lim"
  obtains env where "open_env L lim [] None = Some (Inr env)" "p_limit (e_pager env) = lim"
    "p_syncs (e_pager env) = []" "e_committed env = initial_meta"
proof -
  obtain buf where "encode_meta L initial_meta = Some buf"
    using encode_meta_page [OF assms(1,2)] by (auto simp: encode_meta_def)
  then show thesis
    using that assms(3)
    by (simp add: open_env_def open_pager_def write_meta_slot_def write_page_def sync_data_def
        open_file_def Let_def)
qed

section \<open>Reopening\<close>

lemma durable_reopen:
  assumes "durable L (on_disk f\<lparr>active_meta_slot := slot\<rparr>) m ot is es"
  obtains env where "open_env L lim syncs (Some f) = Some (Inr env)"
    "sim L (fresh_sys env) (fresh_db (contents ot))"
proof -
  let ?p = "on_disk f\<lparr>active_meta_slot := slot\<rparr>"
  let ?q = "(open_file lim syncs f)\<lparr>active_meta_slot := active_meta_slot ?p\<rparr>"
  let ?env = "\<lparr>e_pager = ?q, e_committed = m, e_writer = False, e_readers = []\<rparr>"
  have c: "crash L ?p f" unfolding crash_def
    by (rule exI [of _ "[]"]) (simp add: on_disk_def open_file_def torn_Nil)
  note dc = durable_crash [OF assms c, of lim syncs]
  have "open_env L lim syncs (Some f) = Some (Inr ?env)" by (simp add: open_env_def dc(1))
  moreover have "sim L (fresh_sys ?env) (fresh_db (contents ot))"
    by (rule sim_fresh) (use dc(2) in simp_all)
  ultimately show thesis by (rule that)
qed

lemma crash_reopen:
  assumes "sim L s d" "y_synced s" "crash L (e_pager (y_env s)) f"
  obtains env where "open_env L lim syncs (Some f) = Some (Inr env)"
    "sim L (fresh_sys env) (fresh_db (d_data d))"
proof -
  obtain ot "is" es where st: "contents ot = d_data d"
      "durable L (e_pager (y_env s)) (e_committed (y_env s)) ot is es"
    using simE [OF assms(1)] assms(2) by metis
  show thesis
    using durable_reopen [OF durable_crash(2) [OF st(2) assms(3), of 0 "[]", folded on_disk_def]] that st(1)
    by metis
qed

lemma crash_commit_reopen:
  assumes L: "lib_ok L" and s: "sim L s d" "y_synced s" "y_writer s = Some w"
    and q: "q \<in> set (commit_points L (y_env s) w)" "crash L q f"
  obtains env xs where "open_env L lim syncs (Some f) = Some (Inr env)"
    "sim L (fresh_sys env) (fresh_db xs)" "xs = d_data d \<or> Some xs = d_work d"
proof -
  obtain ot0 is0 es0 where st: "contents ot0 = d_data d"
      "work_ok L (y_env s) (concat es0) (outside (e_committed (y_env s)) ot0 es0) (y_writer s) (d_work d)"
      "durable L (e_pager (y_env s)) (e_committed (y_env s)) ot0 is0 es0"
    using simE [OF s(1)] s(2) by metis
  obtain ot where ot: "writer_ok L (y_env s) (concat es0) (outside (e_committed (y_env s)) ot0 es0) w ot" "d_work d = Some (contents ot)"
    using st(2) s(3) by auto
  obtain slot m' ot' is' es' where d': "durable L (on_disk f\<lparr>active_meta_slot := slot\<rparr>) m' ot' is' es'"
      "ot' = ot0 \<or> ot' = ot"
    using commit_crash [OF L st(3) ot(1) q] by metis
  show thesis
    using durable_reopen [OF d'(1), of lim syncs] that d'(2) st(1) ot(2) by metis
qed

text \<open>What a first reader of an opened store sees.\<close>

definition first_rows :: "lib \<Rightarrow> environment \<Rightarrow> rows option" where
  "first_rows L env = (case begin_read env of (r, env') \<Rightarrow> read_range L env' r None None)"

lemma sim_rows:
  assumes "sim L s d" "y_env s = env"
  shows "first_rows L env = Some (d_data d)"
proof -
  obtain ot "is" es where co: "committed L (e_pager env) (e_committed env) ot is es" "contents ot = d_data d"
    using simE [OF assms(1)] assms(2) by metis
  obtain r env' where b: "begin_read env = (r, env')" by fastforce
  have "reader_ok L (e_pager env') (e_committed env) (concat es) {} r (d_data d)"
    using begin_read_ok(1,4) [OF co(1) b] co(2) by simp
  from reader_ok_range [OF this, of None None] show ?thesis
    by (simp add: first_rows_def b in_range_def)
qed

lemma sim_first_rows: "sim L (fresh_sys env) (fresh_db xs) \<Longrightarrow> first_rows L env = Some xs"
  using sim_rows [of L "fresh_sys env" "fresh_db xs" env] by (simp add: fresh_sys_def fresh_db_def)

end
