(* ===== verification/Bincode.thy ===== *)
theory Bincode
  imports Pages
begin

text \<open>
  A concrete instance of the libraries: bincode's default configuration (little endian,
  fixed width integers, u64 lengths, one byte option tags, u32 enum tags) for the four types
  the store writes, and the reflected CRC-32 of crc32fast. The laws of \<open>serde_laws\<close> and the
  sizes of \<open>lib_sizes\<close> are proved for it, so the development is about at least this library.

  A decoder takes a prefix of its input and gives the rest back; None is bincode's error.
\<close>

section \<open>Encoders and decoders\<close>

definition put_u32 :: "u32 \<Rightarrow> bytes" where
  "put_u32 w = le_bytes 4 w"

definition put_u64 :: "u64 \<Rightarrow> bytes" where
  "put_u64 w = le_bytes 8 w"

definition put_vec :: "('a \<Rightarrow> bytes) \<Rightarrow> 'a list \<Rightarrow> bytes" where
  "put_vec e xs = put_u64 (of_nat (length xs)) @ concat (map e xs)"

fun put_opt :: "('a \<Rightarrow> bytes) \<Rightarrow> 'a option \<Rightarrow> bytes" where
  "put_opt e None = [0]"
| "put_opt e (Some x) = 1 # e x"

definition put_pair :: "('a \<Rightarrow> bytes) \<Rightarrow> ('b \<Rightarrow> bytes) \<Rightarrow> 'a \<times> 'b \<Rightarrow> bytes" where
  "put_pair e f x = e (fst x) @ f (snd x)"

definition put_bytes :: "bytes \<Rightarrow> bytes" where
  "put_bytes = put_vec (\<lambda>b. [b])"

definition get_u32 :: "bytes \<Rightarrow> (u32 \<times> bytes) option" where
  "get_u32 bs = (if length bs < 4 then None else Some (of_le_bytes (take 4 bs), drop 4 bs))"

definition get_u64 :: "bytes \<Rightarrow> (u64 \<times> bytes) option" where
  "get_u64 bs = (if length bs < 8 then None else Some (of_le_bytes (take 8 bs), drop 8 bs))"

fun get_u8 :: "bytes \<Rightarrow> (byte \<times> bytes) option" where
  "get_u8 [] = None"
| "get_u8 (b # bs) = Some (b, bs)"

fun get_many :: "(bytes \<Rightarrow> ('a \<times> bytes) option) \<Rightarrow> nat \<Rightarrow> bytes \<Rightarrow> ('a list \<times> bytes) option" where
  "get_many d 0 bs = Some ([], bs)"
| "get_many d (Suc n) bs =
     do { (x, bs1) \<leftarrow> d bs; (xs, bs2) \<leftarrow> get_many d n bs1; Some (x # xs, bs2) }"

definition get_vec :: "(bytes \<Rightarrow> ('a \<times> bytes) option) \<Rightarrow> bytes \<Rightarrow> ('a list \<times> bytes) option" where
  "get_vec d bs = do { (n, bs1) \<leftarrow> get_u64 bs; get_many d (unat n) bs1 }"

definition get_opt :: "(bytes \<Rightarrow> ('a \<times> bytes) option) \<Rightarrow> bytes \<Rightarrow> ('a option \<times> bytes) option" where
  "get_opt d bs =
     do { (t, bs1) \<leftarrow> get_u8 bs;
          if t = 0 then Some (None, bs1)
          else if t = 1 then do { (x, bs2) \<leftarrow> d bs1; Some (Some x, bs2) }
          else None }"

definition get_pair :: "(bytes \<Rightarrow> ('a \<times> bytes) option) \<Rightarrow> (bytes \<Rightarrow> ('b \<times> bytes) option) \<Rightarrow>
    bytes \<Rightarrow> (('a \<times> 'b) \<times> bytes) option" where
  "get_pair d f bs = do { (x, bs1) \<leftarrow> d bs; (y, bs2) \<leftarrow> f bs1; Some ((x, y), bs2) }"

definition get_bytes :: "bytes \<Rightarrow> (bytes \<times> bytes) option" where
  "get_bytes = get_vec get_u8"

section \<open>The round trip of a value\<close>

definition codec :: "('a \<Rightarrow> bytes) \<Rightarrow> (bytes \<Rightarrow> ('a \<times> bytes) option) \<Rightarrow> 'a \<Rightarrow> bool" where
  "codec e d v \<longleftrightarrow> (\<forall>rest. d (e v @ rest) = Some (v, rest))"

named_theorems codec_intro "round trips of the codecs"

lemma codecD: "codec e d v \<Longrightarrow> d (e v @ rest) = Some (v, rest)"
  by (simp add: codec_def)

lemma codec_u32 [codec_intro]: "codec put_u32 get_u32 w"
  by (simp add: codec_def put_u32_def get_u32_def)

lemma codec_u64 [codec_intro]: "codec put_u64 get_u64 w"
  by (simp add: codec_def put_u64_def get_u64_def)

lemma codec_u8 [codec_intro]: "codec (\<lambda>b. [b]) get_u8 b"
  by (simp add: codec_def)

lemma get_many_ok:
  "(\<And>x. x \<in> set xs \<Longrightarrow> codec e d x) \<Longrightarrow>
   get_many d (length xs) (concat (map e xs) @ rest) = Some (xs, rest)"
proof (induction xs)
  case Nil
  then show ?case by simp
next
  case (Cons x xs)
  then show ?case using codecD [of e d x "concat (map e xs) @ rest"] by simp
qed

lemma codec_vec [codec_intro]:
  assumes "length xs < 2 ^ 64" "\<And>x. x \<in> set xs \<Longrightarrow> codec e d x"
  shows "codec (put_vec e) (get_vec d) xs"
proof -
  have "unat (of_nat (length xs) :: u64) = length xs"
    using assms(1) by (simp add: unat_of_nat take_bit_nat_eq_self)
  then show ?thesis
    using get_many_ok [OF assms(2)] codecD [OF codec_u64]
    by (simp add: codec_def put_vec_def get_vec_def)
qed

lemma codec_opt [codec_intro]: "(\<And>x. v = Some x \<Longrightarrow> codec e d x) \<Longrightarrow> codec (put_opt e) (get_opt d) v"
  by (cases v) (auto simp: codec_def get_opt_def)

lemma codec_pair [codec_intro]:
  "codec e d x \<Longrightarrow> codec f g y \<Longrightarrow> codec (put_pair e f) (get_pair d g) (x, y)"
  by (simp add: codec_def put_pair_def get_pair_def)

lemma codec_bytes [codec_intro]: "length b < 2 ^ 64 \<Longrightarrow> codec put_bytes get_bytes b"
  unfolding put_bytes_def get_bytes_def by (intro codec_intro)

lemma length_puts [simp]: "length (put_u32 a) = 4" "length (put_u64 b) = 8"
  "length (put_bytes bs) = 8 + length bs"
  "length (put_pair e f x) = length (e (fst x)) + length (f (snd x))"
  "length (put_vec e xs) = 8 + sum_list (map (length \<circ> e) xs)"
proof -
  show "length (put_bytes bs) = 8 + length bs"
    by (induction bs) (simp_all add: put_bytes_def put_vec_def put_u64_def)
qed (simp_all add: put_u32_def put_u64_def put_pair_def put_vec_def length_concat)

section \<open>The four types\<close>

lemma length_put_opt [simp]: "(\<And>x. length (e x) = n) \<Longrightarrow> length (put_opt e v) = opt_size n v"
  by (cases v) (simp_all add: opt_size_def)

definition put_meta :: "meta \<Rightarrow> bytes" where
  "put_meta m = put_u32 (magic m) @ put_u64 (txn_id m) @ put_opt put_u64 (root m) @
     put_u64 (next_page m) @ put_opt put_u64 (free_list_head m)"

definition get_meta :: "bytes \<Rightarrow> (meta \<times> bytes) option" where
  "get_meta bs =
     do { (a, bs) \<leftarrow> get_u32 bs; (b, bs) \<leftarrow> get_u64 bs; (c, bs) \<leftarrow> get_opt get_u64 bs;
          (d, bs) \<leftarrow> get_u64 bs; (e, bs) \<leftarrow> get_opt get_u64 bs;
          Some (\<lparr>magic = a, txn_id = b, root = c, next_page = d, free_list_head = e\<rparr>, bs) }"

fun put_value :: "stored_value \<Rightarrow> bytes" where
  "put_value (Inline b) = put_u32 0 @ put_bytes b"
| "put_value (Overflow head len) = put_u32 1 @ put_u64 head @ put_u64 len"

definition get_value :: "bytes \<Rightarrow> (stored_value \<times> bytes) option" where
  "get_value bs =
     do { (t, bs) \<leftarrow> get_u32 bs;
          if t = 0 then do { (b, bs) \<leftarrow> get_bytes bs; Some (Inline b, bs) }
          else if t = 1 then do { (h, bs) \<leftarrow> get_u64 bs; (l, bs) \<leftarrow> get_u64 bs;
                                  Some (Overflow h l, bs) }
          else None }"

fun put_node_bytes :: "node \<Rightarrow> bytes" where
  "put_node_bytes (Leaf keys values) = put_u32 0 @ put_vec put_bytes keys @ put_vec put_value values"
| "put_node_bytes (Internal keys children) =
     put_u32 1 @ put_vec put_bytes keys @ put_vec put_u64 children"

definition get_node_bytes :: "bytes \<Rightarrow> (node \<times> bytes) option" where
  "get_node_bytes bs =
     do { (t, bs) \<leftarrow> get_u32 bs;
          (keys, bs) \<leftarrow> get_vec get_bytes bs;
          if t = 0 then do { (vs, bs) \<leftarrow> get_vec get_value bs; Some (Leaf keys vs, bs) }
          else if t = 1 then do { (cs, bs) \<leftarrow> get_vec get_u64 bs; Some (Internal keys cs, bs) }
          else None }"

definition put_free :: "free_list_page \<Rightarrow> bytes" where
  "put_free f = put_opt put_u64 (fp_next f) @ put_vec (put_pair put_u64 put_u64) (fp_entries f)"

definition get_free :: "bytes \<Rightarrow> (free_list_page \<times> bytes) option" where
  "get_free bs =
     do { (n, bs) \<leftarrow> get_opt get_u64 bs; (es, bs) \<leftarrow> get_vec (get_pair get_u64 get_u64) bs;
          Some (\<lparr>fp_next = n, fp_entries = es\<rparr>, bs) }"

definition put_over :: "overflow_page \<Rightarrow> bytes" where
  "put_over v = put_opt put_u64 (op_next v) @ put_bytes (op_data v)"

definition get_over :: "bytes \<Rightarrow> (overflow_page \<times> bytes) option" where
  "get_over bs =
     do { (n, bs) \<leftarrow> get_opt get_u64 bs; (d, bs) \<leftarrow> get_bytes bs;
          Some (\<lparr>op_next = n, op_data = d\<rparr>, bs) }"

lemma length_put_value [simp]: "length (put_value v) = value_size v"
  by (cases v) simp_all

lemma put_sizes [simp]:
  "length (put_meta m) = meta_size m" "length (put_node_bytes n) = node_size n"
  "length (put_free f) = free_size f" "length (put_over v) = over_size v"
proof -
  show "length (put_node_bytes n) = node_size n"
    by (cases n) (simp_all add: o_def sum_list_triv)
qed (simp_all add: put_meta_def meta_size_def put_free_def free_size_def put_over_def over_size_def
    o_def sum_list_triv)

section \<open>Round trips\<close>

lemma codec_meta: "codec put_meta get_meta m"
  using codecD [OF codec_opt [OF codec_u64]]
  by (simp add: codec_def put_meta_def get_meta_def codecD [OF codec_u32] codecD [OF codec_u64])

lemma codec_value [codec_intro]:
  assumes "value_size v \<le> 4092"
  shows "codec put_value get_value v"
proof (cases v)
  case (Inline b)
  then have "codec put_bytes get_bytes b" using assms by (intro codec_intro) simp
  then show ?thesis
    using Inline by (simp add: codec_def get_value_def codecD [OF codec_u32])
next
  case (Overflow h l)
  then show ?thesis
    by (simp add: codec_def get_value_def codecD [OF codec_u32] codecD [OF codec_u64])
qed

lemma length_le_sum_list: "(\<And>x. x \<in> set xs \<Longrightarrow> 1 \<le> f x) \<Longrightarrow> length xs \<le> (sum_list (map f xs) :: nat)"
proof (induction xs)
  case (Cons x xs)
  then have "1 \<le> f x" "length xs \<le> sum_list (map f xs)" by auto
  then show ?case by simp
qed simp

lemma value_size_pos: "1 \<le> value_size v"
  by (cases v) auto

lemma codec_keys:
  assumes "sum_list (map (\<lambda>k. 8 + length k) keys) \<le> 4092"
  shows "codec (put_vec put_bytes) (get_vec get_bytes) keys"
proof (rule codec_vec)
  show "length keys < 2 ^ 64"
    using length_le_sum_list [of keys "\<lambda>k. 8 + length k"] assms by simp
  fix k assume "k \<in> set keys"
  then have "8 + length k \<le> 4092"
    using member_le_sum_list [of "8 + length k" "map (\<lambda>k. 8 + length k) keys"] assms by fastforce
  then show "codec put_bytes get_bytes k" by (intro codec_bytes) simp
qed

lemma codec_values:
  assumes "sum_list (map value_size values) \<le> 4092"
  shows "codec (put_vec put_value) (get_vec get_value) values"
proof (rule codec_vec)
  show "length values < 2 ^ 64"
    using length_le_sum_list [of "values" value_size] assms value_size_pos by simp
  fix v assume "v \<in> set values"
  then have "value_size v \<le> 4092"
    using member_le_sum_list [of "value_size v" "map value_size values"] assms by fastforce
  then show "codec put_value get_value v" by (rule codec_value)
qed

lemma codec_node:
  assumes "node_size n \<le> 4092"
  shows "codec put_node_bytes get_node_bytes n"
proof (cases n)
  case (Leaf keys "values")
  then have "codec (put_vec put_bytes) (get_vec get_bytes) keys"
      "codec (put_vec put_value) (get_vec get_value) values"
    using assms by (auto intro: codec_keys codec_values)
  then show ?thesis
    using Leaf by (simp add: codec_def get_node_bytes_def codecD [OF codec_u32])
next
  case (Internal keys children)
  then have "codec (put_vec put_bytes) (get_vec get_bytes) keys"
      "codec (put_vec put_u64) (get_vec get_u64) children"
    using assms by (auto intro!: codec_keys codec_vec codec_u64)
  then show ?thesis
    using Internal by (simp add: codec_def get_node_bytes_def codecD [OF codec_u32])
qed

lemma codec_free:
  assumes "free_size f \<le> 4092"
  shows "codec put_free get_free f"
proof -
  have "codec (put_vec (put_pair put_u64 put_u64)) (get_vec (get_pair get_u64 get_u64)) (fp_entries f)"
    using assms by (intro codec_vec) (auto simp: free_size_def intro: codec_pair codec_u64)
  moreover have "codec (put_opt put_u64) (get_opt get_u64) (fp_next f)"
    by (intro codec_opt codec_u64)
  ultimately show ?thesis by (simp add: codec_def put_free_def get_free_def)
qed

lemma codec_over:
  assumes "over_size v \<le> 4092"
  shows "codec put_over get_over v"
proof -
  have "codec put_bytes get_bytes (op_data v)"
    using assms by (intro codec_bytes) (simp add: over_size_def)
  moreover have "codec (put_opt put_u64) (get_opt get_u64) (op_next v)"
    by (intro codec_opt codec_u64)
  ultimately show ?thesis by (simp add: codec_def put_over_def get_over_def)
qed

section \<open>The library\<close>

text \<open>\<open>crc32fast::hash\<close>: the reflected polynomial 0xEDB88320, one bit at a time.\<close>

definition crc_bit :: "u32 \<Rightarrow> u32" where
  "crc_bit c = (if odd c then xor (drop_bit 1 c) 0xEDB88320 else drop_bit 1 c)"

definition crc_byte :: "u32 \<Rightarrow> byte \<Rightarrow> u32" where
  "crc_byte c b = (crc_bit ^^ 8) (xor c (ucast b))"

definition crc :: "bytes \<Rightarrow> u32" where
  "crc bs = not (foldl crc_byte (- 1) bs)"

definition serde_of :: "('a \<Rightarrow> bytes) \<Rightarrow> (bytes \<Rightarrow> ('a \<times> bytes) option) \<Rightarrow> ('a \<Rightarrow> nat) \<Rightarrow> 'a serde" where
  "serde_of e d n = \<lparr>serialize = e, deserialize = (\<lambda>bs. map_option fst (d bs)), serialized_size = n\<rparr>"

definition bincode :: lib where
  "bincode = \<lparr>crc32 = crc, sd_meta = serde_of put_meta get_meta meta_size,
     sd_node = serde_of put_node_bytes get_node_bytes node_size,
     sd_free = serde_of put_free get_free free_size,
     sd_over = serde_of put_over get_over over_size\<rparr>"

lemma serde_ofI:
  assumes "\<And>v. n v \<le> 4092 \<Longrightarrow> codec e d v" "\<And>v. length (e v) = n v"
  shows "serde_laws (serde_of e d n)"
proof
  fix v rest
  assume "length (serialize (serde_of e d n) v) + 4 \<le> PAGE_SIZE"
  then have "codec e d v" using assms by (simp add: serde_of_def PAGE_SIZE_def)
  then show "deserialize (serde_of e d n) (serialize (serde_of e d n) v @ rest) = Some v"
    by (simp add: serde_of_def codecD)
qed (simp add: serde_of_def assms(2))

interpretation bincode_meta: serde_laws "sd_meta bincode"
  by (simp add: bincode_def serde_ofI codec_meta)

interpretation bincode_node: serde_laws "sd_node bincode"
  by (simp add: bincode_def serde_ofI codec_node)

interpretation bincode_free: serde_laws "sd_free bincode"
  by (simp add: bincode_def serde_ofI codec_free)

interpretation bincode_over: serde_laws "sd_over bincode"
  by (simp add: bincode_def serde_ofI codec_over)

lemma lib_ok_bincode: "lib_ok bincode"
  unfolding lib_ok_def
  by (intro conjI bincode_meta.serde_laws_axioms bincode_node.serde_laws_axioms
      bincode_free.serde_laws_axioms bincode_over.serde_laws_axioms)

lemma lib_sizes_bincode: "lib_sizes bincode"
  by (simp add: lib_sizes_def bincode_def serde_of_def)

end
