(* ===== verification/BTree_Props.thy ===== *)
theory BTree_Props
  imports BTree_Total Bincode
begin

text \<open>
  The B-tree's contract as properties: on a well-formed tree with room for its pages, put
  and delete return, leave a well-formed tree, account for every page, and change the
  sorted list of key/value pairs by exactly the key; get and range read that list.
\<close>

section \<open>A store to start from\<close>

text \<open>An empty store of 50 pages with bincode, for the witnesses.\<close>

definition empty_ctx :: ctx where
  "empty_ctx = \<lparr>c_pager = open_file 50 [] [zero_page, zero_page], c_overlay = [], c_next_page = 2,
     c_free_list = [], c_obsolete = [], c_scratch_pool = [], c_watermark = u64_max\<rparr>"

lemma empty_ctx_ok: "wf_tree bincode empty_ctx None" "cinv empty_ctx (tnodes None) (tvals None + {#})"
  "room empty_ctx (put_pages None [1]) " "room empty_ctx (delete_pages None)"
  by (auto simp: cinv_def empty_ctx_def all_pages_def pool_def staged_def tvals_def room_def
      open_file_def put_pages_def delete_pages_def value_pages_def INLINE_VALUE_LIMIT_def)

lemma tentries_sorted: "wf_tree L c ot \<Longrightarrow> sorted_wrt (<) (map fst (contents ot))"
  by (simp add: fst_contents wf_tree_sorted)

text \<open>A tree of two leaves on pages 2 and 3 under the root on page 4, all staged.\<close>

definition small_tree :: gtree where
  "small_tree = GNode 4 [[5]] [GLeaf 2 [([1], GIn [10]), ([3], GIn [30])], GLeaf 3 [([5], GIn [50]), ([7, 1], GIn [])]]"

definition small_ctx :: ctx where
  "small_ctx = empty_ctx\<lparr>c_next_page := 5, c_overlay :=
     [(2, Leaf [[1], [3]] [Inline [10], Inline [30]]), (3, Leaf [[5], [7, 1]] [Inline [50], Inline []]),
      (4, Internal [[5]] [2, 3])]\<rparr>"

lemma small_tree_ok: "wf_tree bincode small_ctx (Some small_tree)"
  "contents (Some small_tree) = [([1], [10]), ([3], [30]), ([5], [50]), ([7, 1], [])]"
  "cinv small_ctx (tnodes (Some small_tree)) (tvals (Some small_tree) + {#})"
  "room small_ctx (put_pages (Some small_tree) [1])" "room small_ctx (delete_pages (Some small_tree))"
proof -
  have "forest bincode small_ctx (Suc 0) [] [small_tree]"
    by (simp add: small_tree_def small_ctx_def forest_def ctx_read_def read_node_def ordered_Cons
        ordered_append entries_def vals_ok_def)
  then show "wf_tree bincode small_ctx (Some small_tree)" by auto
  have "{2..<5 :: page_id} = {2, 3, 4}"
    using pages_plus_one [of 4 2] pages_plus_one [of 3 2] pages_plus_one [of 2 2] by (auto simp: u64_max_def)
  then show "cinv small_ctx (tnodes (Some small_tree)) (tvals (Some small_tree) + {#})"
    by (auto simp: cinv_def small_ctx_def empty_ctx_def small_tree_def all_pages_def pool_def staged_def tvals_def entries_def)
  show "room small_ctx (put_pages (Some small_tree) [1])" "room small_ctx (delete_pages (Some small_tree))"
    by (simp_all add: room_def small_ctx_def empty_ctx_def open_file_def put_pages_def delete_pages_def
        value_pages_def INLINE_VALUE_LIMIT_def small_tree_def)
qed (simp add: contents_def small_tree_def entries_def)

section \<open>Properties\<close>

text \<open>C1: \<open>put\<close> returns on every well-formed tree that has room, and then the tree holds exactly
  the old entries with the key set to the value, in key order; it is well-formed, and only
  pages the allocator may hand out (or nodes already staged) were touched. No page is lost:
  those of the tree, of its values, of the transaction's lists and the pages \<open>K\<close> that belong
  to neither are all the pages below \<open>next_page\<close>, each once, before and after.\<close>

theorem put_correct:
  assumes "lib_ok L" "lib_sizes L" "wf_tree L c ot" "cinv c (tnodes ot) (tvals ot + K)"
    "room c (put_pages ot value)"
  shows "\<exists>t c'. btree_put L c (root_of ot) key value = Some (gid t, c') \<and>
    wf_tree L c' (Some t) \<and> cinv c' (tnodes (Some t)) (tvals (Some t) + K) \<and>
    frame (set_mset (tnodes ot)) c c' \<and> contents (Some t) = ins key value (contents ot)"
proof -
  obtain i c' where p: "btree_put L c (root_of ot) key value = Some (i, c')"
    using btree_put_total [OF assms(1-4), of "value" 0 key] assms(5) by auto
  then show ?thesis using btree_put_ok [OF assms(1,3,4) p] by (auto simp: tstep_def)
qed

theorem put_correct_witness:
  "\<exists>t c'. btree_put bincode small_ctx (root_of (Some small_tree)) [4] [1] = Some (gid t, c') \<and>
    wf_tree bincode c' (Some t) \<and> cinv c' (tnodes (Some t)) (tvals (Some t) + {#}) \<and>
    frame (set_mset (tnodes (Some small_tree))) small_ctx c' \<and>
    contents (Some t) = ins [4] [1] (contents (Some small_tree))"
  by (rule put_correct [OF lib_ok_bincode lib_sizes_bincode small_tree_ok(1,3,4)])

text \<open>C2: \<open>delete\<close> returns on every well-formed tree that has room, says whether the key was
  there, and leaves a well-formed tree with exactly the other entries (the empty tree when
  there are none left at the root), with all the pages accounted for as by put.\<close>

theorem delete_correct:
  assumes "wf_tree L c ot" "cinv c (tnodes ot) (tvals ot + K)" "room c (delete_pages ot)"
  shows "\<exists>ot' c'. btree_delete L c (root_of ot) key = Some ((root_of ot', view ot key \<noteq> None), c') \<and>
    wf_tree L c' ot' \<and> cinv c' (tnodes ot') (tvals ot' + K) \<and> frame (set_mset (tnodes ot)) c c' \<and>
    contents ot' = del key (contents ot)"
proof -
  obtain r' existed c' where d: "btree_delete L c (root_of ot) key = Some ((r', existed), c')"
    using btree_delete_total [OF assms(1,2), of 0 key] assms(3) by auto
  then show ?thesis using btree_delete_ok [OF assms(1,2) d] by (auto simp: tstep_def)
qed

theorem delete_correct_witness:
  "\<exists>ot' c'. btree_delete bincode small_ctx (root_of (Some small_tree)) [3] =
      Some ((root_of ot', view (Some small_tree) [3] \<noteq> None), c') \<and>
    wf_tree bincode c' ot' \<and> cinv c' (tnodes ot') (tvals ot' + {#}) \<and>
    frame (set_mset (tnodes (Some small_tree))) small_ctx c' \<and>
    contents ot' = del [3] (contents (Some small_tree))"
  by (rule delete_correct [OF small_tree_ok(1,3,5)])

text \<open>\<open>get\<close> returns on every well-formed tree and gives the value of the key in the tree's
  list of entries, inline or reassembled from its overflow chain, and None when the key is
  not there.\<close>

lemma get_correct:
  assumes "wf_tree L c ot"
  shows "btree_get L (c_pager c) (c_overlay c) (root_of ot) key = Some (map_of (contents ot) key)"
  using btree_get_ok [OF assms] by (simp add: view_def)

lemma get_correct_witness:
  "btree_get bincode (c_pager small_ctx) (c_overlay small_ctx) (root_of (Some small_tree)) [5] = Some (Some [50])"
  using get_correct [OF small_tree_ok(1), of "[5]"] by (simp add: small_tree_ok(2))

text \<open>\<open>range\<close> returns on every well-formed tree and gives the entries with
  \<open>start \<le> key < end\<close>, strictly ascending by key.\<close>

lemma range_correct:
  assumes "wf_tree L c ot"
  shows "\<exists>rows. btree_range L (c_pager c) (c_overlay c) (root_of ot) lo hi = Some rows \<and>
    rows = filter (\<lambda>(k, v). in_range lo hi k) (contents ot) \<and> sorted_wrt (<) (map fst rows)"
proof -
  have "sorted_wrt (<) (map fst (filter P (contents ot)))" for P
    using tentries_sorted [OF assms] by (simp add: sorted_wrt_map sorted_wrt_filter)
  then show ?thesis using btree_range_ok [OF assms] by simp
qed

lemma range_correct_witness:
  "\<exists>rows. btree_range bincode (c_pager small_ctx) (c_overlay small_ctx) (root_of (Some small_tree))
       (Some [2]) (Some [7]) = Some rows \<and>
     rows = filter (\<lambda>(k, v). in_range (Some [2]) (Some [7]) k) (contents (Some small_tree)) \<and>
     sorted_wrt (<) (map fst rows)"
  by (rule range_correct [OF small_tree_ok(1)])

text \<open>C3: Reading. On every well-formed tree \<open>get\<close> returns the value of the key in the tree's list of
  entries, inline or reassembled from its overflow chain, and None when the key is not
  there; \<open>range\<close> returns the entries with \<open>start \<le> key < end\<close>, strictly ascending by key.\<close>

theorem reads_correct:
  assumes "wf_tree L c ot"
  shows "btree_get L (c_pager c) (c_overlay c) (root_of ot) key = Some (map_of (contents ot) key) \<and>
    (\<exists>rows. btree_range L (c_pager c) (c_overlay c) (root_of ot) lo hi = Some rows \<and>
       rows = filter (\<lambda>(k, v). in_range lo hi k) (contents ot) \<and> sorted_wrt (<) (map fst rows))"
  using get_correct [OF assms] range_correct [OF assms] by blast

theorem reads_correct_witness:
  "btree_get bincode (c_pager small_ctx) (c_overlay small_ctx) (root_of (Some small_tree)) [5] = Some (Some [50]) \<and>
    btree_range bincode (c_pager small_ctx) (c_overlay small_ctx) (root_of (Some small_tree)) (Some [2]) (Some [7]) =
      Some [([3], [30]), ([5], [50])]"
  using reads_correct [OF small_tree_ok(1), of "[5]" "Some [2]" "Some [7]"]
  by (simp add: small_tree_ok(2) in_range_def)

end
