(* ===== verification/Store_Props.thy ===== *)
theory Store_Props
  imports Recovery BTree_Props
begin

text \<open>
  The storage engine's promises as properties of its runs, from an opened store on: snapshot
  isolation, durability, atomic commits, progress, page accounting; and the round trips of
  the page codec, the free list and the overflow chains.
\<close>

section \<open>A demonstration run\<close>

text \<open>A new store of 50 pages, a first transaction with one put, and the state before its commit.\<close>

definition demo_writer :: write_txn where
  "demo_writer = \<lparr>w_base_txn_id = 0, w_root = Some 2, w_next_page = 3,
     w_overlay = [(2, Leaf [[1]] [Inline [2]])], w_free_list = [], w_obsolete = [],
     w_scratch_pool = [], w_watermark = u64_max\<rparr>"

definition demo_open :: "environment \<Rightarrow> bool" where
  "demo_open env \<longleftrightarrow> open_env bincode 50 [] None = Some (Inr env) \<and>
     p_limit (e_pager env) = 50 \<and> p_syncs (e_pager env) = [] \<and> e_committed env = initial_meta"

definition demo_sys :: "environment \<Rightarrow> sys" where
  "demo_sys env = \<lparr>y_env = env\<lparr>e_writer := True\<rparr>, y_readers = [], y_writer = Some demo_writer,
     y_synced = True\<rparr>"

lemma demo_open: obtains env where "demo_open env"
  using open_new_total [OF lib_ok_bincode lib_sizes_bincode, of 50] that
  by (auto simp: demo_open_def)

lemma demo_run:
  assumes "demo_open env"
  shows "run (sys_step bincode) (fresh_sys env) [BeginWrite, WritePut [1] [2]] = Some (demo_sys env, [Done, Done])"
proof -
  note n = open_new_durable [OF lib_ok_bincode, of 50 "[]" env]
  have m: "e_committed env = initial_meta" "e_readers env = []" "\<not> e_writer env"
    using assms n(2,3) by (simp_all add: demo_open_def)
  let ?w0 = "\<lparr>w_base_txn_id = 0, w_root = None, w_next_page = 2, w_overlay = [], w_free_list = [],
     w_obsolete = [], w_scratch_pool = [], w_watermark = u64_max\<rparr>"
  have b: "begin_write bincode env = Some (?w0, env\<lparr>e_writer := True\<rparr>)"
    using m by (simp add: begin_write_def initial_meta_def META_PAGE_COUNT_def load_def
        load_loop.simps oldest_reader_txn_id_def Let_def)
  have p: "write_put bincode (env\<lparr>e_writer := True\<rparr>) ?w0 [1] [2] = Some (demo_writer, env\<lparr>e_writer := True\<rparr>)"
    by (simp add: write_put_def btree_put_def store_value_def INLINE_VALUE_LIMIT_def alloc_def
        txn_ctx_def put_node_def put_ctx_def demo_writer_def u64_max_def)
  show ?thesis using b p by (simp add: fresh_sys_def demo_sys_def)
qed

lemma demo_ready: "fits (w_overlay demo_writer)" "freelist_pages demo_writer = 0"
  "demo_open env \<Longrightarrow> room (txn_ctx (y_env (demo_sys env)) demo_writer) (freelist_pages demo_writer)"
  by (simp_all add: fits_def demo_writer_def freelist_pages_def freed_entries_def room_def demo_sys_def
      demo_open_def)

section \<open>Properties\<close>

text \<open>C4: Snapshot isolation. Every run of any number of readers and successive writers from a new
  store is one the specification on plain sorted lists allows: a reader gets, for every key
  and every range, the data as of its beginning, whatever is written, committed, rolled back
  or reclaimed meanwhile; the writer gets the committed data with its own changes; a commit
  that reports success publishes exactly them, and one that fails, or a rollback, nothing.\<close>

theorem snapshot_isolation:
  assumes "lib_ok L" "open_env L lim syncs None = Some (Inr env)"
    "run (sys_step L) (fresh_sys env) acts = Some (s, answers)"
  shows "\<exists>d. allows db_step (fresh_db []) acts answers = Some d"
  using mvcc.run_ok [of L "fresh_sys env" "fresh_db []" acts s answers] open_new_sim [OF assms(1,2)] assms
  by blast

theorem snapshot_isolation_witness:
  "\<exists>env s. open_env bincode 50 [] None = Some (Inr env) \<and>
    run (sys_step bincode) (fresh_sys env) [BeginWrite, WritePut [1] [2]] = Some (s, [Done, Done]) \<and>
    (\<exists>d. allows db_step (fresh_db []) [BeginWrite, WritePut [1] [2]] [Done, Done] = Some d)"
proof -
  obtain env where e: "demo_open env" by (rule demo_open)
  then have o: "open_env bincode 50 [] None = Some (Inr env)" by (simp add: demo_open_def)
  show ?thesis
    using o demo_run [OF e] snapshot_isolation [OF lib_ok_bincode o demo_run [OF e]] by blast
qed

lemma reachable_sim:
  assumes "lib_ok L" "open_env L lim syncs None = Some (Inr env)"
    "run (sys_step L) (fresh_sys env) acts = Some (s, answers)"
  obtains d where "allows db_step (fresh_db []) acts answers = Some d" "sim L s d"
  using mvcc.run_ok [of L "fresh_sys env" "fresh_db []" acts s answers] open_new_sim [OF assms(1,2)] assms
  by blast

text \<open>C6: Durability. If the system stops after any run in which no sync failed, each write since
  the last sync being lost, kept or torn at will, the file opens again, and a first reader
  gets exactly the data of the transactions that committed.\<close>

theorem durability:
  assumes "lib_ok L" "open_env L lim syncs None = Some (Inr env)"
    "run (sys_step L) (fresh_sys env) acts = Some (s, answers)" "y_synced s"
    "crash L (e_pager (y_env s)) f"
  shows "\<exists>d env'. allows db_step (fresh_db []) acts answers = Some d \<and>
    open_env L lim' syncs' (Some f) = Some (Inr env') \<and> first_rows L env' = Some (d_data d)"
proof -
  obtain d where d: "allows db_step (fresh_db []) acts answers = Some d" "sim L s d"
    by (rule reachable_sim [OF assms(1-3)])
  obtain env' where "open_env L lim' syncs' (Some f) = Some (Inr env')"
      "sim L (fresh_sys env') (fresh_db (d_data d))"
    by (rule crash_reopen [OF d(2) assms(4,5)])
  then show ?thesis using d(1) sim_first_rows by blast
qed

theorem durability_witness:
  "\<exists>env s f d env'. run (sys_step bincode) (fresh_sys env) [BeginWrite, WritePut [1] [2]] = Some (s, [Done, Done]) \<and>
    crash bincode (e_pager (y_env s)) f \<and>
    allows db_step (fresh_db []) [BeginWrite, WritePut [1] [2]] [Done, Done] = Some d \<and>
    open_env bincode 50 [] (Some f) = Some (Inr env') \<and> first_rows bincode env' = Some (d_data d)"
proof -
  obtain env where e: "demo_open env" by (rule demo_open)
  then have o: "open_env bincode 50 [] None = Some (Inr env)" by (simp add: demo_open_def)
  have y: "y_synced (demo_sys env)" by (simp add: demo_sys_def)
  have c: "crash bincode (e_pager (y_env (demo_sys env))) (p_durable (e_pager (y_env (demo_sys env))))"
    unfolding crash_def by (rule exI [of _ "[]"]) (simp add: torn_none)
  show ?thesis
    using durability [OF lib_ok_bincode o demo_run [OF e] y c, of 50 "[]"] demo_run [OF e] c by blast
qed

text \<open>C7: Atomic commit. If the system stops anywhere inside a commit (after any of its writes or
  syncs, each unsynced write lost, kept or torn), the file opens again with either the data
  before the commit or the data the writer had, whole.\<close>

theorem commit_atomic:
  assumes "lib_ok L" "open_env L lim syncs None = Some (Inr env)"
    "run (sys_step L) (fresh_sys env) acts = Some (s, answers)" "y_synced s"
    "y_writer s = Some w" "q \<in> set (commit_points L (y_env s) w)" "crash L q f"
  shows "\<exists>d env' xs. allows db_step (fresh_db []) acts answers = Some d \<and>
    open_env L lim' syncs' (Some f) = Some (Inr env') \<and> first_rows L env' = Some xs \<and>
    (xs = d_data d \<or> d_work d = Some xs)"
proof -
  obtain d where d: "allows db_step (fresh_db []) acts answers = Some d" "sim L s d"
    by (rule reachable_sim [OF assms(1-3)])
  obtain env' xs where "open_env L lim' syncs' (Some f) = Some (Inr env')"
      "sim L (fresh_sys env') (fresh_db xs)" "xs = d_data d \<or> Some xs = d_work d"
    by (rule crash_commit_reopen [OF assms(1) d(2) assms(4-7)])
  then show ?thesis using d(1) sim_first_rows by metis
qed

theorem commit_atomic_witness:
  "\<exists>env q f d env' xs. q \<in> set (commit_points bincode (y_env (demo_sys env)) demo_writer) \<and> crash bincode q f \<and>
    allows db_step (fresh_db []) [BeginWrite, WritePut [1] [2]] [Done, Done] = Some d \<and>
    open_env bincode 50 [] (Some f) = Some (Inr env') \<and> first_rows bincode env' = Some xs \<and>
    (xs = d_data d \<or> d_work d = Some xs)"
proof -
  obtain env where e: "demo_open env" by (rule demo_open)
  then have o: "open_env bincode 50 [] None = Some (Inr env)" by (simp add: demo_open_def)
  have y: "y_synced (demo_sys env)" "y_writer (demo_sys env) = Some demo_writer" by (simp_all add: demo_sys_def)
  have "commit_points bincode (y_env (demo_sys env)) demo_writer \<noteq> []"
    by (auto simp: commit_points_def split: option.split sum.split)
  then obtain q where q: "q \<in> set (commit_points bincode (y_env (demo_sys env)) demo_writer)"
    by (meson list.set_sel(1))
  have c: "crash bincode q (apply_writes (p_pending q) (p_durable q))"
    unfolding crash_def using torn_all by blast
  show ?thesis
    using commit_atomic [OF lib_ok_bincode o demo_run [OF e] y q c, of 50 "[]"] q c by blast
qed

text \<open>C8: A commit goes through. When the nodes fit in their pages, the free list has room, the
  transaction id is not the last one and the syncs succeed, \<open>commit\<close> returns success, and a
  reader that begins afterwards gets exactly what the writer had.\<close>

theorem commit_publishes:
  assumes "lib_ok L" "lib_sizes L" "open_env L lim syncs None = Some (Inr env)"
    "run (sys_step L) (fresh_sys env) acts = Some (s, answers)" "y_writer s = Some w"
    "fits (w_overlay w)" "room (txn_ctx (y_env s) w) (freelist_pages w)"
    "txn_id (e_committed (y_env s)) \<noteq> u64_max" "p_syncs (e_pager (y_env s)) = []"
  shows "\<exists>d xs env'. allows db_step (fresh_db []) acts answers = Some d \<and> d_work d = Some xs \<and>
    commit L (y_env s) w = Some (env', Inr ()) \<and> first_rows L env' = Some xs"
proof -
  obtain d where d: "allows db_step (fresh_db []) acts answers = Some d" "sim L s d"
    by (rule reachable_sim [OF assms(1,3,4)])
  obtain fl K ot where w: "writer_ok L (y_env s) fl K w ot" "d_work d = Some (contents ot)" "slot_ok (e_pager (y_env s))"
    using simE [OF d(2)] assms(5) by (metis work_ok_simps(2))
  obtain env' where c: "commit L (y_env s) w = Some (env', Inr ())"
    by (rule commit_total [OF assms(1,2) w(1,3) assms(6-9)])
  let ?s = "s\<lparr>y_env := env', y_writer := None, y_synced := y_synced s\<rparr>"
  have "sys_step L s Commit = Some (?s, Done)" using assms(5) c by simp
  from sim_step [OF assms(1) d(2) this] have sim: "sim L ?s (d\<lparr>d_data := contents ot, d_work := None\<rparr>)"
    using w(2) by simp
  have "first_rows L env' = Some (contents ot)" using sim_rows [OF sim, of env'] by simp
  then show ?thesis using d(1) w(2) c by blast
qed

theorem commit_publishes_witness:
  "\<exists>env d xs env'. allows db_step (fresh_db []) [BeginWrite, WritePut [1] [2]] [Done, Done] = Some d \<and>
    d_work d = Some xs \<and> xs = [([1], [2])] \<and>
    commit bincode (y_env (demo_sys env)) demo_writer = Some (env', Inr ()) \<and> first_rows bincode env' = Some xs"
proof -
  obtain env where e: "demo_open env" by (rule demo_open)
  then have o: "open_env bincode 50 [] None = Some (Inr env)" by (simp add: demo_open_def)
  have y: "y_writer (demo_sys env) = Some demo_writer" "txn_id (e_committed (y_env (demo_sys env))) \<noteq> u64_max"
      "p_syncs (e_pager (y_env (demo_sys env))) = []"
    using e by (simp_all add: demo_sys_def demo_open_def initial_meta_def u64_max_def)
  have x: "allows db_step (fresh_db []) [BeginWrite, WritePut [1] [2]] [Done, Done] = Some d \<Longrightarrow>
      d_work d = Some xs \<Longrightarrow> xs = [([1], [2])]" for d xs
    by (auto simp: fresh_db_def ins_def)
  show ?thesis
    using commit_publishes [OF lib_ok_bincode lib_sizes_bincode o demo_run [OF e] y(1) demo_ready(1)
        demo_ready(3) [OF e] y(2,3)] x by blast
qed

text \<open>What returns in a state that simulates one of the specification.\<close>

lemma readers_return:
  assumes "sim L s d" "k < length (y_readers s)"
  shows "sys_step L s (ReadGet k key) \<noteq> None \<and> sys_step L s (ReadRange k lo hi) \<noteq> None \<and>
    sys_step L s (EndRead k) \<noteq> None"
proof -
  obtain "is" es where "list_all2 (reader_ok L (e_pager (y_env s)) (e_committed (y_env s)) (concat es)
       (reach (e_committed (y_env s)) (concat es) (y_writer s))) (y_readers s) (d_snaps d)"
    by (rule simE [OF assms(1)])
  then obtain xs A where
    "reader_ok L (e_pager (y_env s)) (e_committed (y_env s)) (concat es) A (y_readers s ! k) xs"
    using assms(2) by (auto simp: list_all2_conv_all_nth)
  from reader_ok_get [OF this] reader_ok_range [OF this] assms(2) show ?thesis
    by (simp add: get_at_def remove_at_def)
qed

lemma begin_write_returns:
  assumes "sim L s d"
  shows "sys_step L s BeginWrite \<noteq> None \<longleftrightarrow> y_writer s = None"
proof (cases "y_writer s")
  case None
  obtain ot "is" es where st: "committed L (e_pager (y_env s)) (e_committed (y_env s)) ot is es"
    "work_ok L (y_env s) (concat es) (outside (e_committed (y_env s)) ot es) (y_writer s) (d_work d)"
    by (rule simE [OF assms])
  then have "\<not> e_writer (y_env s)" using None by simp
  then obtain w where "begin_write L (y_env s) = Some (w, (y_env s)\<lparr>e_writer := True\<rparr>)"
    by (rule begin_write_ok [OF st(1)])
  then show ?thesis using None by simp
qed simp

lemma writes_return:
  assumes L: "lib_ok L" "lib_sizes L" and w: "writer_ok L (y_env s) fl K w ot" and y: "y_writer s = Some w"
    and room: "room (txn_ctx (y_env s) w) (put_pages ot value)"
  shows "sys_step L s (WritePut key value) \<noteq> None \<and> sys_step L s (WriteDelete key) \<noteq> None"
proof -
  let ?c = "txn_ctx (y_env s) w"
  have wf: "wf_tree L ?c ot" "cinv ?c (tnodes ot) (tvals ot + K)" "w_root w = root_of ot"
    using w by (simp_all add: writer_ok_def)
  have p: "room ?c (put_pages ot value + 0)" "room ?c (delete_pages ot + 0)"
    using room by (auto simp: put_pages_def delete_pages_def elim: room_mono)
  show ?thesis
    using btree_put_total [OF L wf(1,2) p(1), of key] btree_delete_total [OF wf(1,2) p(2), of key] y wf(3)
    by (auto simp: write_put_def write_delete_def)
qed

text \<open>C9: Progress. In every state a run can reach, a reader's \<open>get\<close>, \<open>range\<close> and end return, a
  new reader can begin, a writer can begin when there is none (and is blocked when there is
  one), and a writer's \<open>get\<close>, \<open>range\<close>, rollback return; its \<open>put\<close> and \<open>delete\<close> return when there is
  room for two pages per level of its tree, one more and the pages of the value. The tree is
  the one that the writer's pages hold, with the writer's data.\<close>

theorem progress:
  assumes "lib_ok L" "lib_sizes L" "open_env L lim syncs None = Some (Inr env)"
    "run (sys_step L) (fresh_sys env) acts = Some (s, answers)"
  shows "(\<forall>k key lo hi. k < length (y_readers s) \<longrightarrow> sys_step L s (ReadGet k key) \<noteq> None \<and>
      sys_step L s (ReadRange k lo hi) \<noteq> None \<and> sys_step L s (EndRead k) \<noteq> None) \<and>
    sys_step L s BeginRead \<noteq> None \<and> (sys_step L s BeginWrite \<noteq> None \<longleftrightarrow> y_writer s = None) \<and>
    (\<forall>w. y_writer s = Some w \<longrightarrow> sys_step L s Rollback \<noteq> None \<and>
      (\<forall>key lo hi. sys_step L s (WriteGet key) \<noteq> None \<and> sys_step L s (WriteRange lo hi) \<noteq> None) \<and>
      (\<exists>ot. wf_tree L (txn_ctx (y_env s) w) ot \<and> w_root w = root_of ot \<and>
        write_range L (y_env s) w None None = Some (contents ot) \<and>
        (\<forall>key value. room (txn_ctx (y_env s) w) (put_pages ot value) \<longrightarrow>
          sys_step L s (WritePut key value) \<noteq> None \<and> sys_step L s (WriteDelete key) \<noteq> None)))"
proof -
  obtain d where d: "sim L s d" by (rule reachable_sim [OF assms(1,3,4)])
  obtain ot0 "is" es where st: "work_ok L (y_env s) (concat es) (outside (e_committed (y_env s)) ot0 es) (y_writer s) (d_work d)"
    by (rule simE [OF d])
  have writer: "sys_step L s Rollback \<noteq> None \<and>
      (\<forall>key lo hi. sys_step L s (WriteGet key) \<noteq> None \<and> sys_step L s (WriteRange lo hi) \<noteq> None) \<and>
      (\<exists>ot. wf_tree L (txn_ctx (y_env s) w) ot \<and> w_root w = root_of ot \<and>
        write_range L (y_env s) w None None = Some (contents ot) \<and>
        (\<forall>key value. room (txn_ctx (y_env s) w) (put_pages ot value) \<longrightarrow>
          sys_step L s (WritePut key value) \<noteq> None \<and> sys_step L s (WriteDelete key) \<noteq> None))"
    if y: "y_writer s = Some w" for w
  proof -
    obtain fl K ot where w: "writer_ok L (y_env s) fl K w ot" using st y by auto
    moreover have "write_range L (y_env s) w None None = Some (contents ot)"
      using write_range_ok [OF w, of None None] by (simp add: in_range_def)
    ultimately show ?thesis using y write_get_ok [OF w] write_range_ok [OF w] writes_return [OF assms(1,2) w y]
      by (auto simp: writer_ok_def)
  qed
  show ?thesis using readers_return [OF d] begin_write_returns [OF d] writer by (auto simp: split_beta)
qed

theorem progress_witness:
  "\<exists>env. demo_open env \<and> sys_step bincode (demo_sys env) Rollback \<noteq> None \<and>
    sys_step bincode (demo_sys env) BeginWrite = None \<and> sys_step bincode (demo_sys env) (WriteGet [1]) \<noteq> None"
proof -
  obtain env where e: "demo_open env" by (rule demo_open)
  then have o: "open_env bincode 50 [] None = Some (Inr env)" by (simp add: demo_open_def)
  have y: "y_writer (demo_sys env) = Some demo_writer" by (simp add: demo_sys_def)
  note p = progress [OF lib_ok_bincode lib_sizes_bincode o demo_run [OF e]]
  have "sys_step bincode (demo_sys env) Rollback \<noteq> None" using p y by blast
  moreover have "sys_step bincode (demo_sys env) BeginWrite = None" using p y by (metis option.distinct(1))
  moreover have "sys_step bincode (demo_sys env) (WriteGet [1]) \<noteq> None" using p y by blast
  ultimately show ?thesis using e by blast
qed

text \<open>C11: What \<open>alloc\<close> hands out is not in use and not still visible: a page retired by this very
  transaction, or a free page whose tag is at most the watermark, or the next page of the
  file, in this order of preference; and it is never handed out again.\<close>

theorem alloc_safe:
  assumes "cinv c N V" "alloc c = Some (i, c')"
  shows "i \<notin># N + V \<and> i \<notin> set (c_obsolete c) \<and> 2 \<le> i \<and> i \<notin> allocable c' \<and>
    (if c_scratch_pool c \<noteq> [] then i \<in> set (c_scratch_pool c)
     else if \<exists>(f, j)\<in>set (c_free_list c). f \<le> c_watermark c
       then \<exists>f \<le> c_watermark c. (f, i) \<in> set (c_free_list c)
       else i = c_next_page c \<and> c_next_page c' = i + 1)"
proof -
  note al = alloc_allocable [OF assms(2)]
  have "i \<notin># N + V" "i \<notin> set (c_obsolete c)"
    using al(1) cinv_not_allocable [OF assms(1)] cinv_obsolete_not_allocable [OF assms(1)] by blast+
  moreover have "i \<notin> allocable c'" using alloc_used_up [OF assms] by blast
  moreover have "2 \<le> i" using cinv_bounds [OF alloc_cinv(1) [OF assms], of i] by (simp add: all_pages_def)
  moreover have "if c_scratch_pool c \<noteq> [] then i \<in> set (c_scratch_pool c)
     else if \<exists>(f, j)\<in>set (c_free_list c). f \<le> c_watermark c
       then \<exists>f \<le> c_watermark c. (f, i) \<in> set (c_free_list c)
       else i = c_next_page c \<and> c_next_page c' = i + 1"
    using assms(2)
  proof (cases rule: alloc_cases)
    case (scratch l)
    then show ?thesis by simp
  next
    case (free pos f)
    then have "(f, i) \<in> set (c_free_list c)" using nth_mem by metis
    then show ?thesis using free by auto
  next
    case grow
    have "c_next_page c' \<noteq> c_next_page c" using grow(4) less_plus_one [OF grow(1)] by simp
    then have "position (\<lambda>(freed_at, _). freed_at \<le> c_watermark c) (c_free_list c) = None"
      using assms(2) grow(3) by (auto simp: alloc_def split: option.splits)
    then show ?thesis using grow by (auto simp: position_None)
  qed
  ultimately show ?thesis by blast
qed

theorem alloc_safe_witness:
  "\<exists>i c'. alloc (empty_ctx\<lparr>c_next_page := 9, c_free_list := [(7, 3), (4, 5)], c_watermark := 5\<rparr>) = Some (i, c') \<and>
    i = 5 \<and> i \<notin> allocable c'"
proof -
  let ?c = "empty_ctx\<lparr>c_next_page := 9, c_free_list := [(7, 3), (4, 5)], c_watermark := 5\<rparr>"
  have a: "alloc ?c = Some (5, ?c\<lparr>c_free_list := [(7, 3)]\<rparr>)"
    by (simp add: alloc_def empty_ctx_def swap_remove_def)
  have "{2..<9 :: page_id} = {2, 3, 4, 5, 6, 7, 8}"
    using pages_plus_one [of 8 2] pages_plus_one [of 7 2] pages_plus_one [of 6 2] pages_plus_one [of 5 2]
      pages_plus_one [of 4 2] pages_plus_one [of 3 2] pages_plus_one [of 2 2] by (auto simp: u64_max_def)
  then have "cinv ?c {#2, 4, 6#} {#7, 8#}"
    by (auto simp: cinv_def empty_ctx_def all_pages_def pool_def staged_def)
  from alloc_safe [OF this a] a show ?thesis by blast
qed

text \<open>C12: A value stored by \<open>store_value\<close> is resolved back to itself, inline up to 512 bytes and
  from a chain of one page per 4000 bytes otherwise. Retiring it appends to the obsolete list
  exactly the pages that storing it took from the allocator, each once: the tree and the
  transaction's lists then account for every page again, without the value.\<close>

theorem value_roundtrip:
  assumes "lib_ok L" "lib_sizes L" "cinv c N V" "room c (value_pages value)"
  shows "\<exists>sv c' c'' l. store_value L c value = Some (sv, c') \<and> resolve_value L (c_pager c') sv = Some value \<and>
    ((\<exists>b. sv = Inline b) \<longleftrightarrow> length value \<le> INLINE_VALUE_LIMIT) \<and>
    set l = allocable c - allocable c' \<and> distinct l \<and> length l = value_pages value \<and>
    retire_value L c' sv = Some c'' \<and> c'' = c'\<lparr>c_obsolete := c_obsolete c @ l\<rparr> \<and> cinv c'' N V"
proof -
  have r: "room c (value_pages value + 0)" using assms(4) by simp
  obtain sv c' where s: "store_value L c value = Some (sv, c')"
    by (rule store_value_total [OF assms(1-3) r])
  obtain g where g: "sv = gstored g" "gbytes g = value" "gval_ok L (c_pager c') g"
      "cinv c' N (gpages g + V)" "allocable c = allocable c' \<union> set_mset (gpages g)"
      "size (gpages g) = (if length value \<le> INLINE_VALUE_LIMIT then 0 else length (chunks OVERFLOW_CHUNK value))"
    using store_value_ok [OF assms(1,3) s] by blast
  obtain l where l: "retire_value L c' sv = Some (c'\<lparr>c_obsolete := c_obsolete c' @ l\<rparr>)" "mset l = gpages g"
    using retire_value_ok [OF g(3)] g(1) by blast
  have ob: "c_obsolete c' = c_obsolete c" by (rule store_value_obsolete [OF s])
  have "(\<exists>b. sv = Inline b) \<longleftrightarrow> length value \<le> INLINE_VALUE_LIMIT"
    using s by (auto simp: store_value_def bind_Some_iff split: if_splits)
  moreover have "resolve_value L (c_pager c') sv = Some value"
    using resolve_gstored [OF g(3)] g(1,2) by simp
  moreover have "set l = allocable c - allocable c'"
    using g(5) cinv_not_allocable [OF g(4)] by (auto simp flip: l(2))
  moreover have "distinct l"
    using g(4) by (simp add: cinv_def all_pages_def nodup_union flip: l(2))
  moreover have "length l = value_pages value"
    using g(6) by (simp add: value_pages_def length_chunks OVERFLOW_CHUNK_def flip: l(2))
  moreover have "cinv (c'\<lparr>c_obsolete := c_obsolete c @ l\<rparr>) N V"
    using cinv_obsolete [of c' N l V] g(4) l(2) ob by simp
  ultimately show ?thesis
    using s l(1) ob by (intro exI [of _ sv] exI [of _ c'] exI [of _ "c'\<lparr>c_obsolete := c_obsolete c @ l\<rparr>"] exI [of _ l]) simp
qed

theorem value_roundtrip_witness:
  "\<exists>sv c' c'' l. store_value bincode small_ctx (replicate 5000 7) = Some (sv, c') \<and>
    resolve_value bincode (c_pager c') sv = Some (replicate 5000 7) \<and>
    ((\<exists>b. sv = Inline b) \<longleftrightarrow> length (replicate 5000 (7 :: byte)) \<le> INLINE_VALUE_LIMIT) \<and>
    set l = allocable small_ctx - allocable c' \<and> distinct l \<and> length l = value_pages (replicate 5000 7) \<and>
    retire_value bincode c' sv = Some c'' \<and> c'' = c'\<lparr>c_obsolete := c_obsolete small_ctx @ l\<rparr> \<and>
    cinv c'' (tnodes (Some small_tree)) (tvals (Some small_tree) + {#})"
proof (rule value_roundtrip [OF lib_ok_bincode lib_sizes_bincode small_tree_ok(3)])
  show "room small_ctx (value_pages (replicate 5000 7))"
    by (simp add: room_def value_pages_def small_ctx_def empty_ctx_def open_file_def INLINE_VALUE_LIMIT_def OVERFLOW_CHUNK_def)
qed

text \<open>C13: The free list that \<open>store\<close> writes past \<open>next_page\<close>, 200 entries to a page, is the one
  \<open>load\<close> reads back (as a multiset: the chunks come back in reverse order), and no page
  below \<open>next_page\<close> is touched.\<close>

theorem free_list_roundtrip:
  assumes "lib_ok L" "lib_sizes L" "unat np + length (chunks FREELIST_CHUNK es) \<le> p_limit p"
    "p_limit p \<le> 2 ^ 52"
  shows "\<exists>p' np' head fl. store L bump p np es = Some (p', Inr (np', head)) \<and>
    load L p' head = Some fl \<and> mset fl = mset es \<and> np \<le> np' \<and>
    (\<forall>i<np. keeps p p' i) \<and> (head = None \<longleftrightarrow> es = [])"
proof -
  have len: "\<forall>c\<in>set (chunks FREELIST_CHUNK es). length c \<le> FREELIST_CHUNK"
    using chunks_length by blast
  obtain p' np' head where st: "store L bump p np es = Some (p', Inr (np', head))"
    using store_chunks_total [OF assms(1,2) assms(3,4) len, of None] by (auto simp: store_def)
  obtain "is" where ch: "head = hd_opt is" "free_chain L p' is (rev (chunks FREELIST_CHUNK es))"
      "{i. np' \<le> i} \<subseteq> {i. np \<le> i} - set is" "\<forall>i. i \<notin> {i. np \<le> i} \<longrightarrow> keeps p p' i"
    using bump_source.store_ok [OF assms(1) TrueI st] by blast
  have "is = [] \<longleftrightarrow> chunks FREELIST_CHUNK es = []"
    using ch(2) by (cases "is"; cases "rev (chunks FREELIST_CHUNK es)") auto
  moreover have "chunks FREELIST_CHUNK es = [] \<longleftrightarrow> es = []"
    using chunks_not_Nil [of FREELIST_CHUNK es] by (auto simp: FREELIST_CHUNK_def)
  ultimately have "head = None \<longleftrightarrow> es = []" using ch(1) by (cases "is") auto
  moreover obtain fl where "load L p' head = Some fl" "mset fl = mset es"
    using bump_source.store_load_mset [OF assms(1) TrueI st] by blast
  moreover have "np \<le> np'" "\<forall>i<np. keeps p p' i" using ch(3,4) by auto
  ultimately show ?thesis using st by blast
qed

theorem free_list_roundtrip_witness:
  "\<exists>p' np' head fl. store bincode bump (open_file 50 [] []) 9 [(1, 5), (2, 6)] = Some (p', Inr (np', head)) \<and>
    load bincode p' head = Some fl \<and> mset fl = mset [(1, 5), (2, 6)] \<and> 9 \<le> np' \<and>
    (\<forall>i<9. keeps (open_file 50 [] []) p' i) \<and> (head = None \<longleftrightarrow> [(1 :: u64, 5 :: page_id), (2, 6)] = [])"
  by (rule free_list_roundtrip [OF lib_ok_bincode lib_sizes_bincode])
    (simp_all add: open_file_def length_chunks FREELIST_CHUNK_def)

text \<open>A value whose serialisation leaves room for the checksum is framed in one page of 4096
  bytes, which decodes to the value; a larger one is refused (the assertion panics). What
  \<open>decode_page\<close> accepts carries the checksum of the value's own serialisation.\<close>

lemma page_roundtrip:
  assumes "serde_laws S"
  shows "(encode_page L S v = None \<longleftrightarrow> PAGE_SIZE < encoded_len S v) \<and>
    (\<forall>buf. encode_page L S v = Some buf \<longrightarrow> length buf = PAGE_SIZE \<and> decode_page L S buf = Some v) \<and>
    (\<forall>buf w. decode_page L S buf = Some w \<longrightarrow>
       crc32 L (serialize S w) = of_le_bytes (take 4 buf) \<and> length (serialize S w) \<le> length buf - 4)"
proof -
  have "encode_page L S v = None \<longleftrightarrow> PAGE_SIZE < encoded_len S v"
    using serde_laws.encode_page_iff [OF assms, of L v] by (cases "encode_page L S v") auto
  moreover have "length buf = PAGE_SIZE \<and> decode_page L S buf = Some v" if "encode_page L S v = Some buf" for buf
    using serde_laws.encode_page_length [OF assms that] serde_laws.decode_encode [OF assms that] by simp
  ultimately show ?thesis using decode_page_checksum [of L S] by simp
qed

lemma page_roundtrip_witness:
  "\<exists>buf. encode_page bincode (sd_meta bincode) initial_meta = Some buf \<and> length buf = 4096 \<and>
    decode_page bincode (sd_meta bincode) buf = Some initial_meta"
proof -
  obtain buf where "encode_page bincode (sd_meta bincode) initial_meta = Some buf"
    using encode_meta_page [OF lib_ok_bincode lib_sizes_bincode] by blast
  then show ?thesis
    using page_roundtrip [OF bincode_meta.serde_laws_axioms, of bincode initial_meta] by (auto simp: PAGE_SIZE_def)
qed

text \<open>\<open>Pager::open\<close> on an existing file takes the valid meta page with the larger transaction
  id (slot 0 on a tie), makes its slot the active one, and refuses the file exactly when
  neither meta page is valid; it never panics on a corrupt file.\<close>

lemma open_picks_newest:
  "case open_pager L lim syncs (Some f) of
     Some (Inr (p, m)) \<Rightarrow>
       read_meta_slot L f (active_meta_slot p) = Some m \<and> slot_ok p \<and> p_file p = f \<and>
       (case read_meta_slot L f (1 - active_meta_slot p) of None \<Rightarrow> True
        | Some m' \<Rightarrow> if active_meta_slot p = 0 then txn_id m' \<le> txn_id m else txn_id m' < txn_id m)
   | Some (Inl e) \<Rightarrow> e = InvalidData \<and> read_meta_slot L f 0 = None \<and> read_meta_slot L f 1 = None
   | None \<Rightarrow> False"
  by (auto simp: open_pager_def choose_meta_def open_file_def slot_ok_def not_le
      split: option.split)

text \<open>\<open>commit_meta\<close> writes the slot that is not active and makes it the active one; the
  previous meta page stays readable in the other slot, so that \<open>open\<close> would still find it
  if the new one were lost.\<close>

lemma meta_swap:
  assumes "lib_ok L" "slots_ok L (p_file p) (active_meta_slot p) m"
    "magic m' = MAGIC" "txn_id m < txn_id m'" "commit_meta L p m' = Some (p', Inr u)"
  shows "active_meta_slot p' = 1 - active_meta_slot p \<and>
    read_meta_slot L (p_file p') (active_meta_slot p') = Some m' \<and>
    read_meta_slot L (p_file p') (active_meta_slot p) = Some m \<and>
    choose_meta (read_meta_slot L (p_file p') 0) (read_meta_slot L (p_file p') 1) = Some (active_meta_slot p', m') \<and>
    p_durable p' = p_file p'"
proof -
  note ok = commit_meta_slots_ok [OF assms(1,2,5,3,4)]
  obtain buf q where b: "encode_meta L m' = Some buf" "write_page p (1 - active_meta_slot p) buf = Some q"
      and q: "\<exists>r. sync_data q = (r, Inr ()) \<and> p' = r\<lparr>active_meta_slot := 1 - active_meta_slot p\<rparr>"
    using assms(5) by (auto simp: commit_meta_def write_meta_slot_def Let_def
        split: option.splits sum.splits prod.splits)
  have f: "p_file p' = file_write (p_file p) (1 - active_meta_slot p) buf" "p_durable p' = p_file p'"
      "active_meta_slot p' = 1 - active_meta_slot p"
    using b(2) q by (auto simp: write_page_def dest!: sync_data_ok split: if_splits)
  have "read_meta_slot L (p_file p') (active_meta_slot p) = Some m"
    unfolding f(1) by (rule read_meta_slot_keep) (use assms(2) in \<open>auto simp: slots_ok_def\<close>)
  then show ?thesis using ok slots_ok_choose [OF ok] f(2,3) by (simp add: slots_ok_def)
qed

lemma meta_swap_witness:
  "\<exists>env p'. demo_open env \<and> commit_meta bincode (e_pager env) (advance initial_meta None 2 None) = Some (p', Inr ()) \<and>
    read_meta_slot bincode (p_file p') (active_meta_slot (e_pager env)) = Some initial_meta"
proof -
  let ?m = "advance initial_meta None 2 None"
  obtain env where e: "demo_open env" by (rule demo_open)
  then have o: "open_env bincode 50 [] None = Some (Inr env)" "e_committed env = initial_meta"
      "p_limit (e_pager env) = 50" "p_syncs (e_pager env) = []"
    by (simp_all add: demo_open_def)
  note d = open_new_durable(1) [OF lib_ok_bincode o(1)]
  have sl: "slots_ok bincode (p_file (e_pager env)) (active_meta_slot (e_pager env)) initial_meta"
    using d slots_ok_writes [of bincode "p_durable (e_pager env)" _ _ "p_pending (e_pager env)"] o(2)
    by (auto simp: durable_def)
  have "1 - active_meta_slot (e_pager env) = 0 \<or> 1 - active_meta_slot (e_pager env) = 1"
    using sl by (auto simp: slots_ok_def)
  then have lim: "unat (1 - active_meta_slot (e_pager env)) < 50" by auto
  obtain buf where "encode_meta bincode ?m = Some buf"
    using encode_meta_page [OF lib_ok_bincode lib_sizes_bincode] by (auto simp: encode_meta_def)
  then obtain p' where c: "commit_meta bincode (e_pager env) ?m = Some (p', Inr ())"
    using lim o(3,4) by (simp add: commit_meta_def write_meta_slot_def write_page_def sync_data_def Let_def)
  have m: "magic ?m = MAGIC" "txn_id initial_meta < txn_id ?m" by (simp_all add: advance_def initial_meta_def)
  show ?thesis using meta_swap [OF lib_ok_bincode sl m c] e c by blast
qed

text \<open>C17: The order in which a commit flushes the staged nodes does not matter. The source
  iterates a hash map: whatever order it comes in, the flush succeeds if it does in one
  order, and leaves the same file and the same set of unsynced writes.\<close>

theorem flush_order:
  assumes "distinct (map fst ov)" "mset ov' = mset ov" "flush L p ov = Some (p', Inr u)"
  shows "\<exists>p''. flush L p ov' = Some (p'', Inr u) \<and> p_file p'' = p_file p' \<and>
    mset (p_pending p'') = mset (p_pending p')"
proof -
  let ?w = "\<lambda>e f. file_write f (fst e) (snd (staged_write L e))"
  have "?w x \<circ> ?w y = ?w y \<circ> ?w x" if "x \<in> set ov" "y \<in> set ov" for x y
  proof (cases "x = y")
    case False
    then have "fst x \<noteq> fst y" using assms(1) that by (auto simp: distinct_map inj_on_def)
    then show ?thesis by (auto simp: fun_eq_iff file_write_commute)
  qed simp
  then have "fold ?w ov = fold ?w ov'" by (rule fold_multiset_equiv) (use assms(2) in simp_all)
  moreover have "set ov' = set ov" using assms(2) by (metis set_mset_mset)
  moreover have "mset (map (staged_write L) ov') = mset (map (staged_write L) ov)" using assms(2) by simp
  ultimately show ?thesis using assms(3) by (simp add: flush_Some)
qed

theorem flush_order_witness:
  "\<exists>p' p''. flush bincode (open_file 50 [] []) [(2, Leaf [[1]] [Inline [2]]), (3, Leaf [] [])] = Some (p', Inr ()) \<and>
    flush bincode (open_file 50 [] []) [(3, Leaf [] []), (2, Leaf [[1]] [Inline [2]])] = Some (p'', Inr ()) \<and>
    p_file p'' = p_file p'"
proof -
  let ?ov = "[(2, Leaf [[1]] [Inline [2]]), (3, Leaf [] [])]" and ?p = "open_file 50 [] []"
  have "fits ?ov" by (simp add: fits_def)
  then obtain p' where f: "flush bincode ?p ?ov = Some (p', Inr ())"
    using flush_total [OF lib_ok_bincode lib_sizes_bincode, of ?ov ?p] by (auto simp: open_file_def)
  show ?thesis
    using flush_order [OF _ _ f, of "[(3, Leaf [] []), (2, Leaf [[1]] [Inline [2]])]"] f by auto
qed

end
