(* ===== verification/File_Props.thy ===== *)
theory File_Props
  imports Region_Runs Store_Props
begin

text \<open>
  The EXEC CICS file commands on a running write transaction of the B-tree store: each is
  total where there is room, and does to its file, seen as a table of its own, what its
  name says, and nothing to any other file.
\<close>

section \<open>A demonstration transaction\<close>

text \<open>The first transaction of a new store of 50 pages, before and after one put.\<close>

definition demo_first :: write_txn where
  "demo_first = \<lparr>w_base_txn_id = 0, w_root = None, w_next_page = 2, w_overlay = [], w_free_list = [],
     w_obsolete = [], w_scratch_pool = [], w_watermark = u64_max\<rparr>"

definition demo_put :: "bytes \<Rightarrow> bytes \<Rightarrow> write_txn" where
  "demo_put k v = demo_first\<lparr>w_root := Some 2, w_next_page := 3, w_overlay := [(2, Leaf [k] [Inline v])]\<rparr>"

lemma demo_store:
  assumes "demo_open env"
  shows "store_idle bincode env []" "begin_write bincode env = Some (demo_first, env\<lparr>e_writer := True\<rparr>)"
    "store_busy bincode (env\<lparr>e_writer := True\<rparr>) demo_first [] []"
    "length v \<le> 512 \<Longrightarrow> write_put bincode (env\<lparr>e_writer := True\<rparr>) demo_first k v = Some (demo_put k v, env\<lparr>e_writer := True\<rparr>)"
    "length v \<le> 512 \<Longrightarrow> store_busy bincode (env\<lparr>e_writer := True\<rparr>) (demo_put k v) [] [(k, v)]"
proof -
  note n = open_new_durable [OF lib_ok_bincode, of 50 "[]" env]
  have m: "e_committed env = initial_meta" "e_readers env = []" "\<not> e_writer env"
    "open_env bincode 50 [] None = Some (Inr env)"
    using assms n(2,3) by (simp_all add: demo_open_def)
  show i: "store_idle bincode env []"
    using open_new_sim [OF lib_ok_bincode m(4)] by (auto simp: store_idle_def fresh_sys_def fresh_db_def lib_ok_bincode)
  show b: "begin_write bincode env = Some (demo_first, env\<lparr>e_writer := True\<rparr>)"
    using m by (simp add: begin_write_def initial_meta_def META_PAGE_COUNT_def load_def demo_first_def
        load_loop.simps oldest_reader_txn_id_def Let_def)
  then show bu: "store_busy bincode (env\<lparr>e_writer := True\<rparr>) demo_first [] []"
    using txn_task.begin_ok [OF i] by (auto simp: txn_store_def)
  show p: "write_put bincode (env\<lparr>e_writer := True\<rparr>) demo_first k v = Some (demo_put k v, env\<lparr>e_writer := True\<rparr>)"
    if "length v \<le> 512"
    using that by (simp add: write_put_def btree_put_def store_value_def INLINE_VALUE_LIMIT_def alloc_def
        txn_ctx_def put_node_def put_ctx_def demo_first_def demo_put_def u64_max_def)
  show "store_busy bincode (env\<lparr>e_writer := True\<rparr>) (demo_put k v) [] [(k, v)]" if "length v \<le> 512"
    using txn_task.put_ok [OF bu, of k v] p [OF that] by (simp add: txn_store_def ins_def)
qed

lemma demo_room:
  assumes "demo_open env"
  shows "value_pages v \<le> 40 \<Longrightarrow> store_room bincode (env\<lparr>e_writer := True\<rparr>) demo_first v"
    "value_pages v \<le> 40 \<Longrightarrow> length d \<le> 512 \<Longrightarrow> store_room bincode (env\<lparr>e_writer := True\<rparr>) (demo_put k d) v"
    "length k + length d \<le> 400 \<Longrightarrow> store_ready bincode (env\<lparr>e_writer := True\<rparr>) (demo_put k d)"
proof -
  have lim: "p_limit (e_pager env) = 50" "p_syncs (e_pager env) = []" "e_committed env = initial_meta"
    using assms by (simp_all add: demo_open_def)
  show "store_room bincode (env\<lparr>e_writer := True\<rparr>) demo_first v" if "value_pages v \<le> 40"
  proof -
    obtain fl K ot where w: "writer_ok bincode (env\<lparr>e_writer := True\<rparr>) fl K demo_first ot"
      using store_busy_writer [OF demo_store(3) [OF assms]] by blast
    then have "ot = None" by (cases ot) (simp_all add: writer_ok_def demo_first_def root_of_def)
    then have "room (txn_ctx (env\<lparr>e_writer := True\<rparr>) demo_first) (put_pages ot v)"
      using that lim by (simp add: room_def put_pages_def demo_first_def)
    then show ?thesis using w by (auto simp: store_room_def lib_sizes_bincode)
  qed
  show "store_room bincode (env\<lparr>e_writer := True\<rparr>) (demo_put k d) v" if that: "value_pages v \<le> 40" and "length d \<le> 512"
  proof -
    obtain fl K ot where w: "writer_ok bincode (env\<lparr>e_writer := True\<rparr>) fl K (demo_put k d) ot"
      using store_busy_writer [OF demo_store(5) [OF assms \<open>length d \<le> 512\<close>]] by blast
    let ?c = "txn_ctx (env\<lparr>e_writer := True\<rparr>) (demo_put k d)"
    obtain t where t: "ot = Some t" "gid t = 2"
      using w by (cases ot) (simp_all add: writer_ok_def demo_put_def root_of_def)
    have "rep (ctx_read bincode ?c) t" using w t by (auto simp: writer_ok_def forest_def)
    then have "height t = 0" using t(2) by (cases t) (simp_all add: demo_put_def read_node_def ctx_read_def)
    then have "room ?c (put_pages ot v)"
      using that lim t by (simp add: room_def put_pages_def demo_put_def)
    then show ?thesis using w by (auto simp: store_room_def lib_sizes_bincode)
  qed
  show "store_ready bincode (env\<lparr>e_writer := True\<rparr>) (demo_put k d)" if "length k + length d \<le> 400"
    using that lim by (simp add: store_ready_def lib_sizes_bincode fits_def demo_put_def room_def freelist_pages_def
        demo_first_def freed_entries_def initial_meta_def u64_max_def)
qed

definition demo_fct :: file_control_table where
  "demo_fct = \<lparr>files = [''A'' \<mapsto> 0, ''B'' \<mapsto> 1], next_id = 2\<rparr>"

lemma demo_fct: "define_files new_fct [''A'', ''B''] = Some demo_fct"
  by (simp add: define_file_def new_fct_def demo_fct_def fun_eq_iff)

lemma demo_resolve: "resolve_file demo_fct ''A'' = Inr 0" "resolve_file demo_fct ''B'' = Inr 1"
  by (simp_all add: demo_fct_def)

lemma demo_view: "view [(storage_key 0 [7], d)] 0 [7] = Some d" "view [(storage_key 0 [7], d)] 0 [8] = None"
  by (simp_all add: view_def)

section \<open>Properties\<close>

text \<open>C18: Distinct files never collide. After any sequence of definitions, a name resolves exactly
  when it was defined, and two defined names give a common storage key only when they are
  the same name with the same record key.\<close>

theorem file_keys_distinct:
  assumes "define_files new_fct names = Some fct"
  shows "(\<forall>name. resolve_file fct name = Inl (FileNotFound name) \<longleftrightarrow> name \<notin> set names) \<and>
    (\<forall>name fid other fid' k l. resolve_file fct name = Inr fid \<longrightarrow> resolve_file fct other = Inr fid' \<longrightarrow>
       storage_key fid k = storage_key fid' l \<longrightarrow> name = other \<and> k = l)"
proof -
  have ok: "fct_ok fct" "dom (files fct) = set names"
    using define_files_ok [OF assms fct_ok_new] by (simp_all add: new_fct_def)
  have "inj_on (files fct) (dom (files fct))" using ok(1) by (simp add: fct_ok_def)
  then have "name = other" if "files fct name = Some fid" "files fct other = Some fid" for name other fid
    using that by (metis domI inj_onD)
  moreover have "files fct name = None \<longleftrightarrow> name \<notin> set names" for name using ok(2) by blast
  ultimately show ?thesis by simp
qed

theorem file_keys_distinct_witness:
  "define_files new_fct [''A'', ''B''] = Some demo_fct \<and> storage_key 0 [7] \<noteq> storage_key (1 :: file_id) [7] \<and>
    resolve_file demo_fct ''C'' = Inl (FileNotFound ''C'')"
proof -
  note p = file_keys_distinct [OF demo_fct]
  have "storage_key 0 [7] \<noteq> storage_key (1 :: file_id) [7]"
    using conjunct2 [OF p, rule_format, OF demo_resolve, of "[7]" "[7]"] by auto
  moreover have "resolve_file demo_fct ''C'' = Inl (FileNotFound ''C'')"
    using conjunct1 [OF p, rule_format, of "''C''"] by simp
  ultimately show ?thesis using demo_fct by blast
qed

text \<open>C19: READ gives the record of the file under the key, NOTFND when there is none, and FILENOTFOUND
  when the file is not defined; it always returns.\<close>

theorem read_correct:
  assumes "store_busy L e w xs ys"
  shows "exec_read (txn_store L) e w fct file key = Some (case resolve_file fct file of Inl er \<Rightarrow> Inl er
    | Inr fid \<Rightarrow> (case view ys fid key of None \<Rightarrow> Inl (RecordNotFound key file) | Some data \<Rightarrow> Inr data))"
  by (rule txn_task.exec_read_ok [OF assms])

theorem read_correct_witness:
  "\<exists>env. demo_open env \<and>
    exec_read (txn_store bincode) (env\<lparr>e_writer := True\<rparr>) (demo_put (storage_key 0 [7]) [9]) demo_fct ''A'' [7] = Some (Inr [9]) \<and>
    exec_read (txn_store bincode) (env\<lparr>e_writer := True\<rparr>) (demo_put (storage_key 0 [7]) [9]) demo_fct ''B'' [7] =
      Some (Inl (RecordNotFound [7] ''B''))"
proof -
  obtain env where e: "demo_open env" by (rule demo_open)
  note b = demo_store(5) [OF e, of "[9]" "storage_key 0 [7]"]
  have "view [(storage_key 0 [7], [9])] 1 [7] = None" by (simp add: view_def)
  then show ?thesis
    using read_correct [OF b, of demo_fct "''A''" "[7]"] read_correct [OF b, of demo_fct "''B''" "[7]"] e
      demo_resolve demo_view by auto
qed

text \<open>C20: WRITE inserts only: with room it returns, with DUPKEY and no change when the record exists,
  else with the record added to its file; no other record of any file changes.\<close>

theorem write_inserts:
  assumes "store_busy L e w xs ys" "resolve_file fct file = Inr fid" "store_room L e w data"
  shows "\<exists>w' e' ys'. exec_write (txn_store L) e w fct file key data =
      Some (case view ys fid key of None \<Rightarrow> Inr () | Some _ \<Rightarrow> Inl (DuplicateKey key file), w', e') \<and>
    store_busy L e' w' xs ys' \<and> (keyed ys \<longrightarrow> keyed ys') \<and>
    view ys' = (if view ys fid key = None then (view ys)(fid := (view ys fid)(key \<mapsto> data)) else view ys)"
  by (rule txn_sized.exec_write_result [OF assms])

theorem write_inserts_witness:
  "\<exists>env w' e' ys'. demo_open env \<and>
    exec_write (txn_store bincode) (env\<lparr>e_writer := True\<rparr>) demo_first demo_fct ''A'' [7] [9] = Some (Inr (), w', e') \<and>
    store_busy bincode e' w' [] ys' \<and> view ys' 0 [7] = Some [9]"
proof -
  obtain env where e: "demo_open env" by (rule demo_open)
  have v: "view [] 0 [7] = None" by (simp add: view_def)
  have "store_room bincode (env\<lparr>e_writer := True\<rparr>) demo_first [9]"
    by (rule demo_room(1) [OF e]) (simp add: value_pages_def INLINE_VALUE_LIMIT_def)
  from write_inserts [OF demo_store(3) [OF e] demo_resolve(1) this, of "[7]"] obtain w' e' ys' where
      r: "exec_write (txn_store bincode) (env\<lparr>e_writer := True\<rparr>) demo_first demo_fct ''A'' [7] [9] = Some (Inr (), w', e')" and b': "store_busy bincode e' w' [] ys'"
      and v': "view ys' = (view [])(0 := (view [] 0)([7] \<mapsto> [9]))"
    using v by auto
  have "view ys' 0 [7] = Some [9]" by (simp add: v')
  with e r b' show ?thesis by blast
qed

text \<open>C21: REWRITE updates only: with room it returns, with NOTFND and no change when the record is
  missing, else with the record replaced; no other record of any file changes.\<close>

theorem rewrite_updates:
  assumes "store_busy L e w xs ys" "resolve_file fct file = Inr fid" "store_room L e w data"
  shows "\<exists>w' e' ys'. exec_rewrite (txn_store L) e w fct file key data =
      Some (case view ys fid key of None \<Rightarrow> Inl (RecordNotFound key file) | Some _ \<Rightarrow> Inr (), w', e') \<and>
    store_busy L e' w' xs ys' \<and> (keyed ys \<longrightarrow> keyed ys') \<and>
    view ys' = (if view ys fid key = None then view ys else (view ys)(fid := (view ys fid)(key \<mapsto> data)))"
  by (rule txn_sized.exec_rewrite_result [OF assms])

theorem rewrite_updates_witness:
  "\<exists>env w' e' ys'. demo_open env \<and>
    exec_rewrite (txn_store bincode) (env\<lparr>e_writer := True\<rparr>) (demo_put (storage_key 0 [7]) [9]) demo_fct ''A'' [7] [5, 5] =
      Some (Inr (), w', e') \<and>
    store_busy bincode e' w' [] ys' \<and> view ys' 0 [7] = Some [5, 5]"
proof -
  obtain env where e: "demo_open env" by (rule demo_open)
  note b = demo_store(5) [OF e, of "[9]" "storage_key 0 [7]", simplified]
  have "store_room bincode (env\<lparr>e_writer := True\<rparr>) (demo_put (storage_key 0 [7]) [9]) [5, 5]"
    by (rule demo_room(2) [OF e]) (simp_all add: value_pages_def INLINE_VALUE_LIMIT_def)
  from rewrite_updates [OF b demo_resolve(1) this, of "[7]"] obtain w' e' ys' where
      r: "exec_rewrite (txn_store bincode) (env\<lparr>e_writer := True\<rparr>) (demo_put (storage_key 0 [7]) [9]) demo_fct ''A'' [7] [5, 5] = Some (Inr (), w', e')" and b': "store_busy bincode e' w' [] ys'"
      and v': "view ys' = (view [(storage_key 0 [7], [9])])(0 := (view [(storage_key 0 [7], [9])] 0)([7] \<mapsto> [5, 5]))"
    using demo_view(1) [of "[9]"] by auto
  have "view ys' 0 [7] = Some [5, 5]" by (simp add: v')
  with e r b' show ?thesis by blast
qed

text \<open>C22: DELETE removes the record, with NOTFND when there is none; with room it returns, and no
  other record of any file changes.\<close>

theorem delete_removes:
  assumes "store_busy L e w xs ys" "resolve_file fct file = Inr fid" "store_room L e w []"
  shows "\<exists>w' e' ys'. exec_delete (txn_store L) e w fct file key =
      Some (case view ys fid key of None \<Rightarrow> Inl (RecordNotFound key file) | Some _ \<Rightarrow> Inr (), w', e') \<and>
    store_busy L e' w' xs ys' \<and> (keyed ys \<longrightarrow> keyed ys') \<and>
    view ys' = (view ys)(fid := (view ys fid)(key := None))"
  by (rule txn_sized.exec_delete_result [OF assms])

theorem delete_removes_witness:
  "\<exists>env w' e' ys'. demo_open env \<and>
    exec_delete (txn_store bincode) (env\<lparr>e_writer := True\<rparr>) (demo_put (storage_key 0 [7]) [9]) demo_fct ''A'' [7] =
      Some (Inr (), w', e') \<and>
    store_busy bincode e' w' [] ys' \<and> view ys' 0 [7] = None"
proof -
  obtain env where e: "demo_open env" by (rule demo_open)
  note b = demo_store(5) [OF e, of "[9]" "storage_key 0 [7]", simplified]
  have "store_room bincode (env\<lparr>e_writer := True\<rparr>) (demo_put (storage_key 0 [7]) [9]) []"
    by (rule demo_room(2) [OF e]) (simp_all add: value_pages_def INLINE_VALUE_LIMIT_def)
  from delete_removes [OF b demo_resolve(1) this, of "[7]"] obtain w' e' ys' where
      r: "exec_delete (txn_store bincode) (env\<lparr>e_writer := True\<rparr>) (demo_put (storage_key 0 [7]) [9]) demo_fct ''A'' [7] = Some (Inr (), w', e')" and b': "store_busy bincode e' w' [] ys'"
      and v': "view ys' = (view [(storage_key 0 [7], [9])])(0 := (view [(storage_key 0 [7], [9])] 0)([7] := None))"
    using demo_view(1) [of "[9]"] by auto
  have "view ys' 0 [7] = None" by (simp add: v')
  with e r b' show ?thesis by blast
qed

text \<open>C23: A browse gives the records of its file and of no other, in key order, from the start key
  (inclusive) on, at most \<open>limit\<close> of them, without the file identifier, and always returns;
  the identifier \<open>u32::MAX\<close>, whose upper bound would overflow, is never handed out.\<close>

theorem browse_correct:
  assumes "store_busy L e w xs ys" "keyed ys" "fct_ok fct" "resolve_file fct file = Inr fid"
  shows "exec_browse (txn_store L) e w fct file start limit =
      Some (Inr (take limit (filter (\<lambda>(k, v). (case start of None \<Rightarrow> [] | Some k \<Rightarrow> k) \<le> k) (file_rows fid ys)))) \<and>
    sorted_wrt (<) (map fst (file_rows fid ys)) \<and> map_of (file_rows fid ys) = view ys fid"
proof -
  have "fid \<noteq> - 1" using fct_ok_last [OF assms(3)] assms(4) by simp
  then show ?thesis
    using txn_task.exec_browse_ok [OF assms(1,2,4)] sorted_file_rows [OF txn_task.busy_sorted [OF assms(1)]]
      map_of_file_rows [OF assms(2)] by (simp add: fun_eq_iff)
qed

theorem browse_correct_witness:
  "\<exists>env. demo_open env \<and>
    exec_browse (txn_store bincode) (env\<lparr>e_writer := True\<rparr>) (demo_put (storage_key 0 [7]) [9]) demo_fct ''A'' (Some [6]) 3 =
      Some (Inr [([7], [9])]) \<and>
    exec_browse (txn_store bincode) (env\<lparr>e_writer := True\<rparr>) (demo_put (storage_key 0 [7]) [9]) demo_fct ''B'' None 3 =
      Some (Inr [])"
proof -
  obtain env where e: "demo_open env" by (rule demo_open)
  note b = demo_store(5) [OF e, of "[9]" "storage_key 0 [7]"]
  have k: "keyed [(storage_key 0 [7], [9 :: byte])]" by (simp add: keyed_def)
  have f: "fct_ok demo_fct" using define_files_ok [OF demo_fct] by simp
  have r: "file_rows 0 [(storage_key 0 [7], [9])] = [([7], [9])]" "file_rows 1 [(storage_key 0 [7], [9])] = []"
    by (simp_all add: file_rows_def)
  show ?thesis
    using browse_correct [OF b k f demo_resolve(1), of "Some [6]" 3]
      browse_correct [OF b k f demo_resolve(2), of None 3] e by (auto simp: r)
qed

end
