(* ===== verification/Reader_Race.thy ===== *)
theory Reader_Race
  imports File_Props
begin

text \<open>
  \<open>begin_read\<close> clones the committed meta page under its lock, releases it, and only then
  takes the lock of the reader table to register. The steps of \<open>begin_read\<close> above are one;
  here they are two, with two commits between them: the second of these may reuse a page of
  the snapshot, since no registered reader holds the watermark down.
\<close>

section \<open>What a commit leaves\<close>

text \<open>A commit of one staged leaf, with what it freed to be loaded again.\<close>

lemma commit_leaves:
  assumes L: "lib_ok L" and c: "commit L env w = Some (env', Inr ())"
    and w: "w_overlay w = [(i, n)]" "2 \<le> i" "i < w_next_page w" and slot: "slot_ok (e_pager env)"
  shows "ctx_read L (read_ctx (e_pager env')) i = Some n"
    "root (e_committed env') = w_root w" "txn_id (e_committed env') = txn_id (e_committed env) + 1"
    "e_readers env' = e_readers env" "\<not> e_writer env'"
    "p_limit (e_pager env') = p_limit (e_pager env)" "p_syncs (e_pager env) = [] \<Longrightarrow> p_syncs (e_pager env') = []"
    "length (freed_entries (txn_id (e_committed env) + 1) w) \<le> 1 \<Longrightarrow>
       next_page (e_committed env') = w_next_page w + of_nat (length (freed_entries (txn_id (e_committed env) + 1) w))"
proof -
  let ?fl = "freed_entries (txn_id (e_committed env) + 1) w"
  obtain p p' np head q q' where f: "flush L (e_pager env) [(i, n)] = Some (p, Inr ())"
      and st: "store L bump p (w_next_page w) ?fl = Some (p', Inr (np, head))"
      and sy: "sync_data p' = (q, Inr ())"
      and cm: "commit_meta L q (advance (e_committed env) (w_root w) np head) = Some (q', Inr ())"
      and env': "env' = env\<lparr>e_pager := q', e_committed := advance (e_committed env) (w_root w) np head, e_writer := False\<rparr>"
    using c w(1) by (auto simp: commit_def commit_pages_def Let_def split: option.splits sum.splits prod.splits if_splits)
  obtain buf r where m: "write_page q (1 - active_meta_slot q) buf = Some r"
      "\<exists>s. sync_data r = (s, Inr ()) \<and> q' = s\<lparr>active_meta_slot := 1 - active_meta_slot q\<rparr>"
    using cm by (auto simp: commit_meta_def write_meta_slot_def Let_def split: option.splits sum.splits prod.splits)
  have pf: "p_limit p' = p_limit (e_pager env)" "p_syncs p' = p_syncs (e_pager env)"
    using wrote_fields [OF flush_wrote [OF f]] wrote_fields [OF bump_source.store_wrote [OF TrueI st]] by simp_all
  have qf: "p_file q' = p_file r" "p_limit q' = p_limit p'" "p_syncs (e_pager env) = [] \<Longrightarrow> p_syncs q' = []"
    using m sy pf by (auto dest!: sync_data_ok write_page_fields)
  show "e_readers env' = e_readers env" "\<not> e_writer env'" "root (e_committed env') = w_root w"
    "txn_id (e_committed env') = txn_id (e_committed env) + 1" "p_limit (e_pager env') = p_limit (e_pager env)"
    "p_syncs (e_pager env) = [] \<Longrightarrow> p_syncs (e_pager env') = []"
    using qf pf by (simp_all add: env' advance_def)
  show "next_page (e_committed env') = w_next_page w + of_nat (length ?fl)" if "length ?fl \<le> 1"
    using st that
    by (cases ?fl) (auto simp: env' advance_def store_def chunks.simps store_chunks.simps bump_def FREELIST_CHUNK_def
        split: option.splits if_splits)
  have "keeps p p' i"
    by (rule wrote_keeps [OF bump_source.store_wrote [OF TrueI st]]) (use w(3) in auto)
  moreover have "keeps p' q i" using sy by (auto simp: keeps_def read_page_def dest!: sync_data_ok)
  moreover have "keeps q q' i" if "1 - active_meta_slot q \<noteq> i"
    using read_page_write_keep [OF m(1), of i] that qf(1) by (auto simp: keeps_def read_page_def)
  moreover have "1 - active_meta_slot q \<noteq> i"
  proof -
    have "active_meta_slot q = active_meta_slot (e_pager env)"
      using wrote_fields [OF flush_wrote [OF f]] wrote_fields [OF bump_source.store_wrote [OF TrueI st]] sy
      by (auto dest!: sync_data_ok)
    then have "1 - active_meta_slot q = 0 \<or> 1 - active_meta_slot q = 1" using slot by (auto simp: slot_ok_def)
    then show ?thesis using w(2) by (auto simp: word_le_nat_alt)
  qed
  ultimately have "keeps p q' i" by (blast intro: keeps_trans)
  then show "ctx_read L (read_ctx (e_pager env')) i = Some n"
    using read_ctx_keeps [OF _ flush_reads [OF L f]] by (simp add: env')
qed

text \<open>The same of a step of the system, which stays in simulation.\<close>

definition calm :: "sys \<Rightarrow> bool" where
  "calm s \<longleftrightarrow> p_limit (e_pager (y_env s)) = 50 \<and> p_syncs (e_pager (y_env s)) = [] \<and>
     e_readers (y_env s) = [] \<and> y_readers s = []"

lemma race_commit:
  assumes sim: "sim bincode s d" and y: "y_writer s = Some w" "calm s"
    and w: "w_overlay w = [(i, n)]" "2 \<le> i" "i < w_next_page w" "w_next_page w \<le> 40"
    and n: "node_size n \<le> 4092" and fr: "length (freed_entries 0 w) \<le> 1"
    and t: "txn_id (e_committed (y_env s)) \<noteq> u64_max"
  obtains env' d' fl where "sys_step bincode s Commit = Some (s\<lparr>y_env := env', y_writer := None\<rparr>, Done)"
    "sim bincode (s\<lparr>y_env := env', y_writer := None\<rparr>) d'" "calm (s\<lparr>y_env := env', y_writer := None\<rparr>)"
    "ctx_read bincode (read_ctx (e_pager env')) i = Some n" "root (e_committed env') = w_root w" "\<not> e_writer env'"
    "txn_id (e_committed env') = txn_id (e_committed (y_env s)) + 1"
    "load bincode (e_pager env') (free_list_head (e_committed env')) = Some fl"
    "mset fl = mset (freed_entries (txn_id (e_committed (y_env s)) + 1) w)"
    "next_page (e_committed env') = w_next_page w + of_nat (length (freed_entries 0 w))"
proof -
  let ?env = "y_env s"
  obtain ot0 is0 es0 where co: "committed bincode (e_pager ?env) (e_committed ?env) ot0 is0 es0" "slot_ok (e_pager ?env)"
      "work_ok bincode ?env (concat es0) (outside (e_committed ?env) ot0 es0) (y_writer s) (d_work d)"
    by (rule simE [OF sim])
  then obtain ot where ok: "writer_ok bincode ?env (concat es0) (outside (e_committed ?env) ot0 es0) w ot" "d_work d = Some (contents ot)" using y by auto
  have "fits (w_overlay w)" using n by (simp add: fits_def w(1))
  moreover have "room (txn_ctx ?env w) (freelist_pages w)"
  proof -
    have "freelist_pages w \<le> 1" using fr by (cases "freed_entries 0 w") (auto simp: freelist_pages_def chunks.simps FREELIST_CHUNK_def)
    moreover have "unat (w_next_page w) \<le> 40" using w(4) by (simp add: word_le_nat_alt)
    ultimately show ?thesis using y(2) by (simp add: room_def calm_def)
  qed
  ultimately obtain env' where c: "commit bincode ?env w = Some (env', Inr ())"
    using commit_total [OF lib_ok_bincode lib_sizes_bincode ok(1) co(2)] t y(2) by (auto simp: calm_def)
  let ?s = "s\<lparr>y_env := env', y_writer := None\<rparr>"
  have step: "sys_step bincode s Commit = Some (?s, Done)" using c y by simp
  then have sim': "sim bincode ?s (d\<lparr>d_data := contents ot, d_work := None\<rparr>)"
    using sim_step [OF lib_ok_bincode sim step] ok(2) by simp
  obtain is1 es where co': "committed bincode (e_pager env') (e_committed env') ot is1 es"
      "txn_id (e_committed env') = txn_id (e_committed ?env) + 1"
      "mset (concat es) = mset (freed_entries (txn_id (e_committed env')) w)"
    by (rule commit_ok [OF lib_ok_bincode co(1,2) ok(1) c])
  have "load bincode (e_pager env') (free_list_head (e_committed env')) = Some (concat es)"
    using co'(1) load_ok by (simp add: committed_def)
  have len: "length (freed_entries (txn_id (e_committed ?env) + 1) w) = length (freed_entries 0 w)" by (simp add: freed_entries_def)
  note cl = commit_leaves [OF lib_ok_bincode c w(1-3) co(2), unfolded len]
  show thesis
    by (rule that [OF step sim' _ cl(1,2,5,3) \<open>load bincode _ _ = _\<close>]) (use cl fr co' y(2) in \<open>simp_all add: calm_def\<close>)
qed

section \<open>The race\<close>

lemma replace_leaf:
  assumes "ctx_read bincode (txn_ctx env w) i = Some (Leaf [[1]] [Inline [a]])" "w_overlay w = []"
    "alloc (mark_obsolete (txn_ctx env w) i) = Some (j, c)" "w_root w = Some i" "c_pager c = e_pager env"
  shows "write_put bincode env w [1] [b] =
    Some ((put_ctx (put_node c j (Leaf [[1]] [Inline [b]])) w)\<lparr>w_root := Some j\<rparr>, env)"
proof -
  let ?c = "txn_ctx env w"
  have "binary_search_by (\<lambda>k. cmp k [1]) [[1 :: byte]] = Found 0"
    by (simp add: binary_search_by_def search_base.simps cmp_def)
  then have i: "insert_leaf bincode ?c [1] [b] [[1]] [Inline [a]] = Some (([[1]], [Inline [b]]), ?c)"
    by (simp add: insert_leaf_def get_at_def set_at_def store_value_def INLINE_VALUE_LIMIT_def)
  have "encoded_len (sd_node bincode) (Leaf [[1]] [Inline [b]]) \<le> SPLIT_THRESHOLD"
    using lib_sizes_bincode by (simp add: encoded_len_def lib_sizes_def SPLIT_THRESHOLD_def)
  then have "finish_leaf bincode ?c False i [[1]] [Inline [b]] =
      Some ((j, None), put_node c j (Leaf [[1]] [Inline [b]]))"
    using assms(3) by (simp add: finish_leaf_def cow_page_def)
  then have "insert_rec bincode [1] [b] ?c i = Some ((j, None), put_node c j (Leaf [[1]] [Inline [b]]))"
    using assms(1,2) i by (simp add: insert_rec.simps is_scratch_def)
  then show ?thesis using assms(4,5) by (simp add: write_put_def btree_put_def put_node_def)
qed

lemma read_leaf:
  assumes "ctx_read bincode (read_ctx (e_pager env)) 2 = Some (Leaf [[1]] [Inline [a]])" "r_root r = Some 2"
  shows "read_get bincode env r [1] = Some (Some [a])"
proof -
  have "binary_search_by (\<lambda>k. cmp k [1]) [[1 :: byte]] = Found 0"
    by (simp add: binary_search_by_def search_base.simps cmp_def)
  then show ?thesis
    using assms by (simp add: read_get_def btree_get_def get_loop.simps ctx_read_def get_at_def)
qed

lemma race_begin:
  assumes "sim bincode s d" "calm s" "y_writer s = None" "\<not> e_writer (y_env s)"
    "load bincode (e_pager (y_env s)) (free_list_head (e_committed (y_env s))) = Some fl"
  defines "w \<equiv> \<lparr>w_base_txn_id = txn_id (e_committed (y_env s)), w_root = root (e_committed (y_env s)),
      w_next_page = next_page (e_committed (y_env s)), w_overlay = [], w_free_list = fl, w_obsolete = [],
      w_scratch_pool = [], w_watermark = u64_max\<rparr>"
  shows "sys_step bincode s BeginWrite = Some (s\<lparr>y_env := (y_env s)\<lparr>e_writer := True\<rparr>, y_writer := Some w\<rparr>, Done)"
  using assms by (simp add: begin_write_def oldest_reader_txn_id_def calm_def Let_def)

text \<open>
  No one reads or writes; transaction \<open>t\<close> is committed, its tree is one leaf, page \<open>i\<close>, with one
  record; \<open>np\<close> is the next page and \<open>fl\<close> the free list.
\<close>

definition one_leaf :: "sys \<Rightarrow> u64 \<Rightarrow> page_id \<Rightarrow> byte \<Rightarrow> page_id \<Rightarrow> (u64 \<times> page_id) list \<Rightarrow> bool" where
  "one_leaf s t i a np fl \<longleftrightarrow> calm s \<and> y_writer s = None \<and> \<not> e_writer (y_env s) \<and> (\<exists>d. sim bincode s d) \<and>
     txn_id (e_committed (y_env s)) = t \<and> root (e_committed (y_env s)) = Some i \<and> next_page (e_committed (y_env s)) = np \<and>
     load bincode (e_pager (y_env s)) (free_list_head (e_committed (y_env s))) = Some fl \<and>
     ctx_read bincode (read_ctx (e_pager (y_env s))) i = Some (Leaf [[1]] [Inline [a]])"

text \<open>The first transaction of a new store, which puts a record.\<close>

lemma race_first:
  assumes "demo_open env"
  obtains s where "run (sys_step bincode) (fresh_sys env) [BeginWrite, WritePut [1] [10], Commit] = Some (s, [Done, Done, Done])"
    "one_leaf s 1 2 10 3 []"
proof -
  have o: "open_env bincode 50 [] None = Some (Inr env)" "e_committed env = initial_meta"
      "p_limit (e_pager env) = 50" "p_syncs (e_pager env) = []"
    using assms by (simp_all add: demo_open_def)
  have rd: "e_readers env = []" using open_new_durable(2) [OF lib_ok_bincode o(1)] .
  let ?s0 = "\<lparr>y_env = env\<lparr>e_writer := True\<rparr>, y_readers = [], y_writer = Some (demo_put [1] [10]), y_synced = True\<rparr>"
  have r0: "run (sys_step bincode) (fresh_sys env) [BeginWrite, WritePut [1] [10]] = Some (?s0, [Done, Done])"
    using demo_store(2,4) [OF assms] by (simp add: fresh_sys_def)
  obtain d0 where sim0: "sim bincode ?s0 d0" by (rule reachable_sim [OF lib_ok_bincode o(1) r0])
  have c0: "calm ?s0" using o rd by (simp add: calm_def)
  obtain env1 d1 fl1 where 1: "sys_step bincode ?s0 Commit = Some (?s0\<lparr>y_env := env1, y_writer := None\<rparr>, Done)"
      "sim bincode (?s0\<lparr>y_env := env1, y_writer := None\<rparr>) d1" "calm (?s0\<lparr>y_env := env1, y_writer := None\<rparr>)"
      "ctx_read bincode (read_ctx (e_pager env1)) 2 = Some (Leaf [[1]] [Inline [10]])" "root (e_committed env1) = Some 2"
      "\<not> e_writer env1" "txn_id (e_committed env1) = 1"
      "load bincode (e_pager env1) (free_list_head (e_committed env1)) = Some fl1" "fl1 = []"
      "next_page (e_committed env1) = 3"
    by (rule race_commit [OF sim0 _ c0, of "demo_put [1] [10]" 2 "Leaf [[1]] [Inline [10]]"])
      (use o in \<open>simp_all add: demo_put_def demo_first_def freed_entries_def initial_meta_def u64_max_def word_le_nat_alt\<close>)
  have "one_leaf (?s0\<lparr>y_env := env1, y_writer := None\<rparr>) 1 2 10 3 []"
    unfolding one_leaf_def using 1(2-10) by (intro conjI exI [of _ d1]) simp_all
  then show thesis using that run_append [OF r0 run_single, OF 1(1)] by simp
qed

text \<open>A transaction that changes the value of the record; the leaf moves to page \<open>j\<close>.\<close>

definition leaf_writer :: "u64 \<Rightarrow> page_id \<Rightarrow> page_id \<Rightarrow> (u64 \<times> page_id) list \<Rightarrow> write_txn" where
  "leaf_writer t i np fl = \<lparr>w_base_txn_id = t, w_root = Some i, w_next_page = np, w_overlay = [], w_free_list = fl,
     w_obsolete = [], w_scratch_pool = [], w_watermark = u64_max\<rparr>"

lemma race_update:
  assumes s: "one_leaf s t i a np fl"
    and al: "alloc (mark_obsolete (txn_ctx ((y_env s)\<lparr>e_writer := True\<rparr>) (leaf_writer t i np fl)) i) = Some (j, c)"
      "c_pager c = e_pager (y_env s)" "c_overlay c = []" "2 \<le> j" "j < c_next_page c" "c_next_page c \<le> 40"
    and fr: "w2 = (put_ctx (put_node c j (Leaf [[1]] [Inline [b]])) (leaf_writer t i np fl))\<lparr>w_root := Some j\<rparr>"
      "length (freed_entries 0 w2) \<le> 1" "t \<noteq> u64_max"
  obtains s' fl' where
    "run (sys_step bincode) s [BeginWrite, WritePut [1] [b], Commit] = Some (s', [Done, Done, Done])"
    "one_leaf s' (t + 1) j b (c_next_page c + of_nat (length (freed_entries 0 w2))) fl'"
    "mset fl' = mset (freed_entries (t + 1) w2)"
proof -
  let ?e = "(y_env s)\<lparr>e_writer := True\<rparr>" and ?w = "leaf_writer t i np fl"
  let ?s2 = "s\<lparr>y_env := ?e, y_writer := Some w2\<rparr>"
  obtain d where o: "calm s" "y_writer s = None" "\<not> e_writer (y_env s)" "sim bincode s d"
      "txn_id (e_committed (y_env s)) = t" "root (e_committed (y_env s)) = Some i" "next_page (e_committed (y_env s)) = np"
      "load bincode (e_pager (y_env s)) (free_list_head (e_committed (y_env s))) = Some fl"
      "ctx_read bincode (read_ctx (e_pager (y_env s))) i = Some (Leaf [[1]] [Inline [a]])"
    using s by (auto simp: one_leaf_def)
  have b: "sys_step bincode s BeginWrite = Some (s\<lparr>y_env := ?e, y_writer := Some ?w\<rparr>, Done)"
    using race_begin [OF o(4,1,2,3,8)] o(5-7) by (simp add: leaf_writer_def)
  have "write_put bincode ?e ?w [1] [b] = Some (w2, ?e)"
    unfolding fr(1)
    by (rule replace_leaf [of _ _ i a])
      (use o(9) al(1,2) in \<open>simp_all add: leaf_writer_def ctx_read_def read_ctx_def txn_ctx_def\<close>)
  then have run2: "run (sys_step bincode) s [BeginWrite, WritePut [1] [b]] = Some (?s2, [Done, Done])"
    using b by simp
  obtain d2 where sim2: "sim bincode ?s2 d2"
    using mvcc.run_ok [OF conjI [OF lib_ok_bincode o(4)] run2] by blast
  have w2: "w_overlay w2 = [(j, Leaf [[1]] [Inline [b]])]" "w_next_page w2 = c_next_page c" "w_root w2 = Some j"
    using al(3) by (simp_all add: fr(1) put_ctx_def put_node_def)
  have c2: "calm ?s2" using o(1) by (simp add: calm_def)
  obtain env3 d3 fl3 where 3: "sys_step bincode ?s2 Commit = Some (?s2\<lparr>y_env := env3, y_writer := None\<rparr>, Done)"
      "sim bincode (?s2\<lparr>y_env := env3, y_writer := None\<rparr>) d3" "calm (?s2\<lparr>y_env := env3, y_writer := None\<rparr>)"
      "ctx_read bincode (read_ctx (e_pager env3)) j = Some (Leaf [[1]] [Inline [b]])" "root (e_committed env3) = Some j"
      "\<not> e_writer env3" "txn_id (e_committed env3) = t + 1"
      "load bincode (e_pager env3) (free_list_head (e_committed env3)) = Some fl3"
      "mset fl3 = mset (freed_entries (t + 1) w2)"
      "next_page (e_committed env3) = c_next_page c + of_nat (length (freed_entries 0 w2))"
    by (rule race_commit [OF sim2 _ c2, of w2 j "Leaf [[1]] [Inline [b]]"])
      (use w2 al(4-6) fr(2,3) o(5) in simp_all)
  have "one_leaf (?s2\<lparr>y_env := env3, y_writer := None\<rparr>) (t + 1) j b
      (c_next_page c + of_nat (length (freed_entries 0 w2))) fl3"
    unfolding one_leaf_def using 3(2-8,10) by (intro conjI exI [of _ d3]) simp_all
  then show thesis using that run_append [OF run2 run_single, OF 3(1)] 3(9) by simp
qed

lemmas race_alloc = alloc_def mark_obsolete_def txn_ctx_def leaf_writer_def is_scratch_def swap_remove_def u64_max_def
  freed_entries_def put_ctx_def put_node_def word_le_nat_alt

text \<open>C35: The race. A reader clones the committed meta page of transaction 1 and has not registered
  when two more transactions commit; the third reuses page 2, which the second freed, since
  no reader is registered. The reader then registers, as of transaction 1, and reads the
  value of transaction 3 in its snapshot.
\<close>

theorem begin_read_race:
  "\<exists>env s1 s3 r env'. demo_open env \<and>
    run (sys_step bincode) (fresh_sys env) [BeginWrite, WritePut [1] [10], Commit] = Some (s1, [Done, Done, Done]) \<and>
    run (sys_step bincode) s1 [BeginWrite, WritePut [1] [20], Commit, BeginWrite, WritePut [1] [30], Commit] =
      Some (s3, [Done, Done, Done, Done, Done, Done]) \<and>
    register_reader (y_env s3) (e_committed (y_env s1)) = (r, env') \<and> r_txn_id r = 1 \<and>
    read_get bincode (y_env s1) r [1] = Some (Some [10]) \<and> read_get bincode env' r [1] = Some (Some [30])"
proof -
  obtain env where e: "demo_open env" by (rule demo_open)
  obtain s1 where 1: "run (sys_step bincode) (fresh_sys env) [BeginWrite, WritePut [1] [10], Commit] =
      Some (s1, [Done, Done, Done])" "one_leaf s1 1 2 10 3 []"
    by (rule race_first [OF e])
  let ?c = "(txn_ctx ((y_env s1)\<lparr>e_writer := True\<rparr>) (leaf_writer 1 2 3 []))\<lparr>c_obsolete := [2], c_next_page := 4\<rparr>"
  obtain s2 fl where 2: "run (sys_step bincode) s1 [BeginWrite, WritePut [1] [20], Commit] = Some (s2, [Done, Done, Done])"
      "one_leaf s2 2 3 20 5 fl" "fl = [(2, 2)]"
    by (rule race_update [OF 1(2), of 3 ?c _ 20, OF _ _ _ _ _ _ refl]) (simp_all add: race_alloc)
  let ?d = "(txn_ctx ((y_env s2)\<lparr>e_writer := True\<rparr>) (leaf_writer 2 3 5 fl))\<lparr>c_obsolete := [3], c_free_list := []\<rparr>"
  obtain s3 fl3 np where 3: "run (sys_step bincode) s2 [BeginWrite, WritePut [1] [30], Commit] = Some (s3, [Done, Done, Done])"
      "one_leaf s3 3 2 30 np fl3"
    by (rule race_update [OF 2(2), of 2 ?d _ 30, OF _ _ _ _ _ _ refl]) (use 2(3) in \<open>simp_all add: race_alloc unsigned_minus_1_eq_mask mask_eq_exp_minus_1\<close>)
  let ?r = "\<lparr>r_root = Some 2, r_txn_id = 1\<rparr>" and ?env = "(y_env s3)\<lparr>e_readers := e_readers (y_env s3) @ [1]\<rparr>"
  have "register_reader (y_env s3) (e_committed (y_env s1)) = (?r, ?env)"
    using 1(2) by (simp add: register_reader_def one_leaf_def)
  moreover have "read_get bincode (y_env s1) ?r [1] = Some (Some [10])" "read_get bincode ?env ?r [1] = Some (Some [30])"
    using 1(2) 3(2) by (auto intro!: read_leaf simp: one_leaf_def)
  ultimately show ?thesis using e 1(1) run_append [OF 2(1) 3(1)]
    by (intro exI [of _ env] exI [of _ s1] exI [of _ s3] exI [of _ ?r] exI [of _ ?env]) simp
qed

end
