(* ===== verification/Page_Account.thy ===== *)
theory Page_Account
  imports Reader_Race
begin

text \<open>
  Where every page is. \<open>committed\<close> and \<open>writer_ok\<close> account for the pages below \<open>next_page\<close> that
  the tree, its values and the free list do not hold as \<open>outside\<close>; here these are followed
  along a run: they are the pages of the chains on which committed free lists were written,
  the present one and the earlier ones, which the code never hands out again.
\<close>

section \<open>The chains of a run\<close>

text \<open>The pages of a free list's own chain: \<open>load\<close>, for the page numbers instead of the entries.\<close>

partial_function (option) chain_ids :: "lib \<Rightarrow> pager \<Rightarrow> page_id option \<Rightarrow> page_id list option" where
  "chain_ids L p cur =
     (case cur of None \<Rightarrow> Some []
      | Some i \<Rightarrow> do { page \<leftarrow> free_at L p i; ids \<leftarrow> chain_ids L p (fp_next page); Some (i # ids) })"

lemma chain_ids_ok: "free_chain L p is es \<Longrightarrow> chain_ids L p (hd_opt is) = Some is"
proof (induction L p "is" es rule: free_chain.induct)
  case (1 L p)
  then show ?case by (simp add: chain_ids.simps)
next
  case (2 L p i "is" e es)
  then show ?case by (simp add: chain_ids.simps [of L p "Some i"])
qed auto

text \<open>What a step adds: the chain of the free list that a successful commit has written.\<close>

definition step_chain :: "lib \<Rightarrow> action \<Rightarrow> answer \<Rightarrow> sys \<Rightarrow> page_id set" where
  "step_chain L a out s' =
     (if a = Commit \<and> out = Done
      then set (the (chain_ids L (e_pager (y_env s')) (free_list_head (e_committed (y_env s'))))) else {})"

fun list_chains :: "lib \<Rightarrow> sys \<Rightarrow> action list \<Rightarrow> page_id set" where
  "list_chains L s [] = {}"
| "list_chains L s (a # acts) =
     (case sys_step L s a of None \<Rightarrow> {}
      | Some (s', out) \<Rightarrow> step_chain L a out s' \<union> list_chains L s' acts)"

lemma step_chain_other [simp]: "a \<noteq> Commit \<Longrightarrow> step_chain L a out s' = {}" "step_chain L a (Failed e) s' = {}"
  by (simp_all add: step_chain_def)

section \<open>The account of a state\<close>

definition account :: "lib \<Rightarrow> page_id set \<Rightarrow> sys \<Rightarrow> bool" where
  "account L X s \<longleftrightarrow>
     (\<exists>ot is es. let env = y_env s in
        committed L (e_pager env) (e_committed env) ot is es \<and> slot_ok (e_pager env) \<and>
        set_mset (outside (e_committed env) ot es) = X \<and>
        (case y_writer s of None \<Rightarrow> \<not> e_writer env
         | Some w \<Rightarrow> \<exists>wt. writer_ok L env (concat es) (outside (e_committed env) ot es) w wt))"

lemma account_same:
  assumes "account L X s" "e_pager env = e_pager (y_env s)" "e_committed env = e_committed (y_env s)"
    "e_writer env = e_writer (y_env s)"
  shows "account L X (s\<lparr>y_env := env, y_readers := rs\<rparr>)"
  using assms writer_ok_env [of L "y_env s" _ _ _ _ env]
  by (cases "y_writer s") (fastforce simp: account_def Let_def)+

lemma account_idle: "account L X s \<Longrightarrow> y_writer s = None \<Longrightarrow> \<exists>ot is es.
    committed L (e_pager (y_env s)) (e_committed (y_env s)) ot is es \<and> slot_ok (e_pager (y_env s)) \<and>
    set_mset (outside (e_committed (y_env s)) ot es) = X \<and> \<not> e_writer (y_env s)"
  by (auto simp: account_def Let_def)

lemma account_work:
  assumes "account L X s" "y_writer s = Some w"
  obtains ot "is" es wt where
    "committed L (e_pager (y_env s)) (e_committed (y_env s)) ot is es" "slot_ok (e_pager (y_env s))"
    "set_mset (outside (e_committed (y_env s)) ot es) = X"
    "writer_ok L (y_env s) (concat es) (outside (e_committed (y_env s)) ot es) w wt"
  using assms by (auto simp: account_def Let_def)

text \<open>A put or a delete changes the working tree only.\<close>

lemma account_change:
  assumes "committed L (e_pager (y_env s)) (e_committed (y_env s)) ot is es" "slot_ok (e_pager (y_env s))"
    "writer_ok L env (concat es) (outside (e_committed (y_env s)) ot es) w' wt"
    "wrote (spare (e_committed (y_env s)) (concat es) W) (e_pager (y_env s)) (e_pager env)"
    "env = (y_env s)\<lparr>e_pager := e_pager env\<rparr>"
  shows "account L (set_mset (outside (e_committed (y_env s)) ot es)) (s\<lparr>y_env := env, y_writer := Some w'\<rparr>)"
proof -
  have c: "e_committed env = e_committed (y_env s)" by (subst assms(5)) simp
  show ?thesis
    using committed_wrote [OF assms(1,4) order.refl] wrote_slot [OF assms(4,2)] assms(3)
    unfolding account_def Let_def by (intro exI [of _ ot] exI [of _ "is"] exI [of _ es]) (auto simp: c)
qed

lemma account_commit:
  assumes L: "lib_ok L" and X: "account L X s" and st: "sys_step L s Commit = Some (s', out)"
  shows "account L (X \<union> step_chain L Commit out s') s'"
proof -
  obtain w env r where w: "y_writer s = Some w" and c: "commit L (y_env s) w = Some (env, r)"
      and s': "s' = s\<lparr>y_env := env, y_writer := None, y_synced := y_synced s \<and> r \<noteq> Inl SyncFailed\<rparr>"
        "out = (case r of Inl e \<Rightarrow> Failed e | Inr _ \<Rightarrow> Done)"
    using st by (auto simp: bind_Some_iff)
  obtain ot0 is0 es0 wt where st: "committed L (e_pager (y_env s)) (e_committed (y_env s)) ot0 is0 es0"
      "slot_ok (e_pager (y_env s))" "set_mset (outside (e_committed (y_env s)) ot0 es0) = X"
      "writer_ok L (y_env s) (concat es0) (outside (e_committed (y_env s)) ot0 es0) w wt"
    by (rule account_work [OF X w])
  note ck = commit_keeps [OF st(4,2) c]
  show ?thesis
  proof (cases r)
    case (Inl e)
    have "committed L (e_pager env) (e_committed env) ot0 is0 es0"
      by (rule commit_fail_committed [OF st(1,2,4) c [unfolded Inl]])
    then show ?thesis
      using s' Inl ck st(3) unfolding account_def Let_def
      by (intro exI [of _ ot0] exI [of _ is0] exI [of _ es0]) simp
  next
    case (Inr u)
    obtain "is" es where co: "committed L (e_pager env) (e_committed env) wt is es"
        "outside (e_committed env) wt es = mset_set (set is) + outside (e_committed (y_env s)) ot0 es0"
      by (rule commit_ok [OF L st(1,2,4) c [unfolded Inr]])
    have "chain_ids L (e_pager env) (free_list_head (e_committed env)) = Some is"
      using co(1) chain_ids_ok [of L "e_pager env" "is" es] by (simp add: committed_def)
    then have "step_chain L Commit out s' = set is" using s' Inr by (simp add: step_chain_def)
    then show ?thesis
      using s' Inr ck co st(3) unfolding account_def Let_def
      by (intro exI [of _ wt] exI [of _ "is"] exI [of _ es]) auto
  qed
qed

lemma account_step:
  assumes L: "lib_ok L" and X: "account L X s" and st: "sys_step L s a = Some (s', out)"
  shows "account L (X \<union> step_chain L a out s') s'"
proof (cases a)
  case BeginRead
  then show ?thesis
    using st account_same [OF X] by (auto simp: begin_read_def register_reader_def Let_def)
next
  case (EndRead k)
  then show ?thesis using st account_same [OF X] by (auto simp: bind_Some_iff)
next
  case BeginWrite
  then have n: "y_writer s = None" using st by (cases "y_writer s") auto
  obtain ot "is" es where co: "committed L (e_pager (y_env s)) (e_committed (y_env s)) ot is es"
      "slot_ok (e_pager (y_env s))" "set_mset (outside (e_committed (y_env s)) ot es) = X" "\<not> e_writer (y_env s)"
    using account_idle [OF X n] by blast
  obtain w where "begin_write L (y_env s) = Some (w, (y_env s)\<lparr>e_writer := True\<rparr>)"
      "writer_ok L ((y_env s)\<lparr>e_writer := True\<rparr>) (concat es) (outside (e_committed (y_env s)) ot es) w ot"
    by (rule begin_write_ok [OF co(1,4)])
  then show ?thesis
    using st BeginWrite n co unfolding account_def Let_def
    by (intro exI [of _ ot] exI [of _ "is"] exI [of _ es]) auto
next
  case (WritePut key "value")
  then obtain w w' env where w: "y_writer s = Some w" "write_put L (y_env s) w key value = Some (w', env)"
      "s' = s\<lparr>y_env := env, y_writer := Some w'\<rparr>"
    using st by (auto simp: bind_Some_iff)
  obtain ot "is" es wt where co: "committed L (e_pager (y_env s)) (e_committed (y_env s)) ot is es"
      "slot_ok (e_pager (y_env s))" "set_mset (outside (e_committed (y_env s)) ot es) = X"
      "writer_ok L (y_env s) (concat es) (outside (e_committed (y_env s)) ot es) w wt"
    by (rule account_work [OF X w(1)])
  show ?thesis
    by (rule write_put_ok [OF L co(4) w(2)]) (use account_change [OF co(1,2)] co(3) w(3) WritePut in auto)
next
  case (WriteDelete key)
  then obtain w b w' env where w: "y_writer s = Some w" "write_delete L (y_env s) w key = Some (b, w', env)"
      "s' = s\<lparr>y_env := env, y_writer := Some w'\<rparr>"
    using st by (auto simp: bind_Some_iff)
  obtain ot "is" es wt where co: "committed L (e_pager (y_env s)) (e_committed (y_env s)) ot is es"
      "slot_ok (e_pager (y_env s))" "set_mset (outside (e_committed (y_env s)) ot es) = X"
      "writer_ok L (y_env s) (concat es) (outside (e_committed (y_env s)) ot es) w wt"
    by (rule account_work [OF X w(1)])
  show ?thesis
    by (rule write_delete_ok [OF co(4) w(2)]) (use account_change [OF co(1,2)] co(3) w(3) WriteDelete in auto)
next
  case Commit
  then show ?thesis using account_commit [OF L X] st by simp
next
  case Rollback
  then obtain w where w: "y_writer s = Some w" "s' = s\<lparr>y_env := rollback (y_env s) w, y_writer := None\<rparr>"
    using st by (auto simp: bind_Some_iff)
  show ?thesis
    by (rule account_work [OF X w(1)]) (auto simp: account_def Let_def rollback_def w(2) Rollback)
qed (use st X in \<open>auto simp: bind_Some_iff\<close>)

lemma account_run:
  assumes "lib_ok L"
  shows "run (sys_step L) s acts = Some (s', answers) \<Longrightarrow> account L X s \<Longrightarrow> account L (X \<union> list_chains L s acts) s'"
proof (induction acts arbitrary: s X answers)
  case (Cons a acts)
  then obtain s1 out rest where s1: "sys_step L s a = Some (s1, out)" "run (sys_step L) s1 acts = Some (s', rest)"
    by (auto simp: bind_Some_iff)
  have "account L ((X \<union> step_chain L a out s1) \<union> list_chains L s1 acts) s'"
    by (rule Cons.IH [OF s1(2) account_step [OF assms Cons.prems(2) s1(1)]])
  then show ?case using s1(1) by (simp add: Un_assoc)
qed simp

lemma account_fresh:
  assumes "lib_ok L" "open_env L lim syncs None = Some (Inr env)"
  shows "account L {} (fresh_sys env)"
proof -
  note d = open_new_durable [OF assms]
  have "slot_ok (e_pager env)" using d(1) by (simp add: durable_def slots_ok_def slot_ok_def)
  moreover have "next_page (e_committed env) = 2"
    using assms(2) by (auto simp: open_env_def open_pager_def initial_meta_def META_PAGE_COUNT_def Let_def
        split: option.splits sum.splits prod.splits)
  ultimately show ?thesis
    using durable_committed [OF d(1)] d(3) unfolding account_def Let_def
    by (intro exI [of _ None] exI [of _ "[]"]) (auto simp: fresh_sys_def outside_def)
qed

text \<open>C10: Page accounting. In every state a run can reach, each page below \<open>next_page\<close>, the two meta
  pages apart, is in exactly one place: the committed tree, the overflow chains of its
  values, the free list, or the chain on which the free list of some commit of the run was
  written. No page is used twice and none is lost. The same holds of a transaction under
  way, with the pages it has obsoleted or may reuse. The free list can be loaded, and no
  entry carries a tag from the future.\<close>

theorem page_accounting:
  assumes "lib_ok L" "open_env L lim syncs None = Some (Inr env)"
    "run (sys_step L) (fresh_sys env) acts = Some (s, answers)"
  shows "\<exists>ot fl. let m = e_committed (y_env s); p = e_pager (y_env s);
      chains = list_chains L (fresh_sys env) acts;
      pages = tnodes ot + tvals ot + mset (map snd fl) in
    root m = root_of ot \<and> wf_tree L (read_ctx p) ot \<and> load L p (free_list_head m) = Some fl \<and>
    (\<forall>(f, i)\<in>set fl. f \<le> txn_id m) \<and>
    nodup pages \<and> set_mset pages \<inter> chains = {} \<and> set_mset pages \<union> chains = {2..<next_page m} \<and>
    (\<forall>w. y_writer s = Some w \<longrightarrow> (\<exists>wt.
       let work = tnodes wt + tvals wt + mset (map snd (w_free_list w)) + mset (w_scratch_pool w) + mset (w_obsolete w) in
       w_root w = root_of wt \<and> wf_tree L (txn_ctx (y_env s) w) wt \<and>
       nodup work \<and> set_mset work \<inter> chains = {} \<and> set_mset work \<union> chains = {2..<w_next_page w}))"
proof -
  let ?X = "list_chains L (fresh_sys env) acts" and ?m = "e_committed (y_env s)"
  have acc: "account L ?X s"
    using account_run [OF assms(1,3) account_fresh [OF assms(1,2)]] by simp
  obtain ot "is" es where co: "committed L (e_pager (y_env s)) ?m ot is es" and X: "set_mset (outside ?m ot es) = ?X"
      and w: "case y_writer s of None \<Rightarrow> \<not> e_writer (y_env s)
        | Some w \<Rightarrow> \<exists>wt. writer_ok L (y_env s) (concat es) (outside ?m ot es) w wt"
    using acc by (auto simp: account_def Let_def)
  have fl: "free_pages es = mset (map snd (concat es))" by (simp add: free_pages_def)
  have sub: "set_mset (tree_pages ot + free_pages es) \<subseteq> {2..<next_page ?m}" using co by (auto simp: committed_def)
  have "?X = {2..<next_page ?m} - set_mset (tree_pages ot + free_pages es)"
    unfolding X [symmetric] by (simp add: outside_def)
  then have part: "set_mset (tree_pages ot + free_pages es) \<inter> ?X = {}"
      "set_mset (tree_pages ot + free_pages es) \<union> ?X = {2..<next_page ?m}"
    using sub by auto
  have work: "\<exists>wt. w_root v = root_of wt \<and> wf_tree L (txn_ctx (y_env s) v) wt \<and>
      cinv (txn_ctx (y_env s) v) (tnodes wt) (tvals wt + outside ?m ot es)" if "y_writer s = Some v" for v
    using w that by (auto simp: writer_ok_def)
  show ?thesis
    unfolding Let_def
  proof (rule exI [of _ ot], rule exI [of _ "concat es"], intro conjI allI impI)
    show "root ?m = root_of ot" "wf_tree L (read_ctx (e_pager (y_env s))) ot"
      "load L (e_pager (y_env s)) (free_list_head ?m) = Some (concat es)" "\<forall>(f, i)\<in>set (concat es). f \<le> txn_id ?m"
      "nodup (tnodes ot + tvals ot + mset (map snd (concat es)))"
      using co load_ok fl by (auto simp: committed_def tree_pages_def)
    show "set_mset (tnodes ot + tvals ot + mset (map snd (concat es))) \<inter> ?X = {}"
      "set_mset (tnodes ot + tvals ot + mset (map snd (concat es))) \<union> ?X = {2..<next_page ?m}"
      using part fl by (simp_all add: tree_pages_def)
    fix v assume "y_writer s = Some v"
    then obtain wt where wt: "w_root v = root_of wt" "wf_tree L (txn_ctx (y_env s) v) wt"
        "cinv (txn_ctx (y_env s) v) (tnodes wt) (tvals wt + outside ?m ot es)"
      using work by blast
    let ?pages = "\<lambda>t. tnodes t + tvals t + mset (map snd (w_free_list v)) + mset (w_scratch_pool v) + mset (w_obsolete v)"
    let ?W = "?pages wt"
    have "all_pages (txn_ctx (y_env s) v) (tnodes wt) (tvals wt + outside ?m ot es) = ?W + outside ?m ot es"
      by (simp add: all_pages_def pool_def ac_simps)
    then have "nodup (?W + outside ?m ot es)" "set_mset (?W + outside ?m ot es) = {2..<w_next_page v}"
      using wt(3) by (simp_all add: cinv_def)
    then have "nodup ?W \<and> set_mset ?W \<inter> ?X = {} \<and> set_mset ?W \<union> ?X = {2..<w_next_page v}"
      unfolding nodup_union set_mset_union X by blast
    then show "\<exists>wt. w_root v = root_of wt \<and> wf_tree L (txn_ctx (y_env s) v) wt \<and>
        nodup (?pages wt) \<and> set_mset (?pages wt) \<inter> ?X = {} \<and> set_mset (?pages wt) \<union> ?X = {2..<w_next_page v}"
      using wt(1,2) by blast
  qed
qed

text \<open>Two transactions that write the same record: the tree is on page 3, page 2 is free, and page 4
holds the free list.\<close>

theorem page_accounting_witness:
  "\<exists>env s ot. demo_open env \<and>
    run (sys_step bincode) (fresh_sys env)
      [BeginWrite, WritePut [1] [10], Commit, BeginWrite, WritePut [1] [20], Commit] =
      Some (s, [Done, Done, Done, Done, Done, Done]) \<and>
    root_of ot = Some 3 \<and> load bincode (e_pager (y_env s)) (free_list_head (e_committed (y_env s))) = Some [(2, 2)] \<and>
    set_mset (tnodes ot + tvals ot + {#2#}) \<union> list_chains bincode (fresh_sys env)
      [BeginWrite, WritePut [1] [10], Commit, BeginWrite, WritePut [1] [20], Commit] = {2..<5}"
proof -
  obtain env where e: "demo_open env" by (rule demo_open)
  then have o: "open_env bincode 50 [] None = Some (Inr env)" by (simp add: demo_open_def)
  obtain s1 where 1: "run (sys_step bincode) (fresh_sys env) [BeginWrite, WritePut [1] [10], Commit] =
      Some (s1, [Done, Done, Done])" "one_leaf s1 1 2 10 3 []"
    by (rule race_first [OF e])
  let ?c = "(txn_ctx ((y_env s1)\<lparr>e_writer := True\<rparr>) (leaf_writer 1 2 3 []))\<lparr>c_obsolete := [2], c_next_page := 4\<rparr>"
  obtain s2 fl where 2: "run (sys_step bincode) s1 [BeginWrite, WritePut [1] [20], Commit] = Some (s2, [Done, Done, Done])"
      "one_leaf s2 2 3 20 5 fl" "fl = [(2, 2)]"
    by (rule race_update [OF 1(2), of 3 ?c _ 20, OF _ _ _ _ _ _ refl]) (simp_all add: race_alloc)
  have r: "run (sys_step bincode) (fresh_sys env)
      [BeginWrite, WritePut [1] [10], Commit, BeginWrite, WritePut [1] [20], Commit] =
      Some (s2, [Done, Done, Done, Done, Done, Done])"
    using run_append [OF 1(1) 2(1)] by simp
  obtain ot where "root_of ot = Some 3" "set_mset (tnodes ot + tvals ot + {#2#}) \<union> list_chains bincode (fresh_sys env)
      [BeginWrite, WritePut [1] [10], Commit, BeginWrite, WritePut [1] [20], Commit] = {2..<5}"
    using page_accounting [OF lib_ok_bincode o r] 2(2,3) unfolding Let_def one_leaf_def by fastforce
  then show ?thesis using e r 2(2,3) unfolding one_leaf_def by blast
qed

end
