(* ===== verification/Region_Sim.thy ===== *)
theory Region_Sim
  imports Region_Runs
begin

text \<open>
  A store that does whatever another one does: when every operation that succeeds over the
  first succeeds over the second, with the same answer, then so does a whole region, with the
  same results. Where \<open>task_store\<close> carries runs of the code's store to the reference, this
  carries runs of a reference to the code's store, so it shows that they do not panic.
\<close>

section \<open>Stores\<close>

locale store_simulation =
  fixes S :: "('e, 'w) store_ops" and S' :: "('f, 'v) store_ops"
    and rest :: "'e \<Rightarrow> 'f \<Rightarrow> bool" and work :: "'e \<Rightarrow> 'w \<Rightarrow> 'f \<Rightarrow> 'v \<Rightarrow> bool"
  assumes begin_sim: "rest e f \<Longrightarrow> s_begin S e = Some (w, e') \<Longrightarrow>
      \<exists>v f'. s_begin S' f = Some (v, f') \<and> work e' w f' v"
    and get_sim: "work e w f v \<Longrightarrow> s_get S e w k = s_get S' f v k"
    and range_sim: "work e w f v \<Longrightarrow> s_range S e w lo hi = s_range S' f v lo hi"
    and put_sim: "work e w f v \<Longrightarrow> s_put S e w k data = Some (w', e') \<Longrightarrow>
      \<exists>v' f'. s_put S' f v k data = Some (v', f') \<and> work e' w' f' v'"
    and delete_sim: "work e w f v \<Longrightarrow> s_delete S e w k = Some (b, w', e') \<Longrightarrow>
      \<exists>v' f'. s_delete S' f v k = Some (b, v', f') \<and> work e' w' f' v'"
    and commit_sim: "work e w f v \<Longrightarrow> s_commit S e w = Some (e', r) \<Longrightarrow>
      \<exists>f'. s_commit S' f v = Some (f', r) \<and> rest e' f'"
    and rollback_sim: "work e w f v \<Longrightarrow> rest (s_rollback S e w) (s_rollback S' f v)"

section \<open>Tasks\<close>

definition same_work :: "('e \<Rightarrow> 'f \<Rightarrow> bool) \<Rightarrow> ('e \<Rightarrow> 'w \<Rightarrow> 'f \<Rightarrow> 'v \<Rightarrow> bool) \<Rightarrow> ('e, 'w) task \<Rightarrow> ('f, 'v) task \<Rightarrow>
    bool" where
  "same_work rest work t u \<longleftrightarrow> k_starts t = k_starts u \<and>
     (case (k_txn t, k_txn u) of
        (Some w, Some v) \<Rightarrow> work (k_env t) w (k_env u) v
      | (None, None) \<Rightarrow> rest (k_env t) (k_env u)
      | _ \<Rightarrow> False)"

lemma same_work_Some:
  "k_txn t = Some w \<Longrightarrow> same_work rest work t u \<longleftrightarrow>
    k_starts t = k_starts u \<and> (\<exists>v. k_txn u = Some v \<and> work (k_env t) w (k_env u) v)"
  by (auto simp: same_work_def split: option.split)

lemma same_work_None:
  "k_txn t = None \<Longrightarrow> same_work rest work t u \<longleftrightarrow> k_starts t = k_starts u \<and> k_txn u = None \<and> rest (k_env t) (k_env u)"
  by (auto simp: same_work_def split: option.split)

lemma same_work_cases:
  assumes "same_work rest work t u"
  obtains w v where "k_txn t = Some w" "k_txn u = Some v" "work (k_env t) w (k_env u) v" "k_starts t = k_starts u"
  | "k_txn t = None" "k_txn u = None" "rest (k_env t) (k_env u)" "k_starts t = k_starts u"
  using assms by (cases "k_txn t") (auto simp: same_work_Some same_work_None)

context store_simulation
begin

lemma task_read_sim:
  "same_work rest work t u \<Longrightarrow> task_read S fct t file key = task_read S' fct u file key"
  by (erule same_work_cases) (auto simp: task_read_def exec_read_def get_sim split: sum.split)

lemma task_browse_sim:
  "same_work rest work t u \<Longrightarrow> task_browse S fct t file start limit = task_browse S' fct u file start limit"
  by (erule same_work_cases) (auto simp: task_browse_def exec_browse_def range_sim Let_def split: sum.split)

lemma task_write_sim:
  "related (same_work rest work) (\<lambda>t. task_write S fct t file key data) (\<lambda>t. task_write S' fct t file key data)"
  unfolding related_def
proof (intro allI impI)
  fix t u r t'
  assume "same_work rest work t u" and s: "task_write S fct t file key data = Some (r, t')"
  then show "\<exists>u'. task_write S' fct u file key data = Some (r, u') \<and> same_work rest work t' u'"
  proof (cases rule: same_work_cases)
    case (1 w v)
    with s show ?thesis
      by (auto simp: task_write_def exec_write_def get_sim [OF 1(3)] Let_def same_work_Some
          split: sum.splits if_splits Option.bind_split_asm dest!: put_sim [OF 1(3)])
  qed (use s in \<open>simp add: task_write_def\<close>)
qed

lemma task_rewrite_sim:
  "related (same_work rest work) (\<lambda>t. task_rewrite S fct t file key data) (\<lambda>t. task_rewrite S' fct t file key data)"
  unfolding related_def
proof (intro allI impI)
  fix t u r t'
  assume "same_work rest work t u" and s: "task_rewrite S fct t file key data = Some (r, t')"
  then show "\<exists>u'. task_rewrite S' fct u file key data = Some (r, u') \<and> same_work rest work t' u'"
  proof (cases rule: same_work_cases)
    case (1 w v)
    with s show ?thesis
      by (auto simp: task_rewrite_def exec_rewrite_def get_sim [OF 1(3)] Let_def same_work_Some
          split: sum.splits if_splits Option.bind_split_asm dest!: put_sim [OF 1(3)])
  qed (use s in \<open>simp add: task_rewrite_def\<close>)
qed

lemma task_delete_sim:
  "related (same_work rest work) (\<lambda>t. task_delete S fct t file key) (\<lambda>t. task_delete S' fct t file key)"
  unfolding related_def
proof (intro allI impI)
  fix t u r t'
  assume "same_work rest work t u" and s: "task_delete S fct t file key = Some (r, t')"
  then show "\<exists>u'. task_delete S' fct u file key = Some (r, u') \<and> same_work rest work t' u'"
  proof (cases rule: same_work_cases)
    case (1 w v)
    with s show ?thesis
      by (auto simp: task_delete_def exec_delete_def same_work_Some split: sum.splits Option.bind_split_asm
          dest!: delete_sim [OF 1(3)])
  qed (use s in \<open>simp add: task_delete_def\<close>)
qed

lemma task_start_sim: "same_work rest work t u \<Longrightarrow> same_work rest work (task_start t tran program c) (task_start u tran program c)"
  by (erule same_work_cases) (simp_all add: same_work_def task_start_def)

lemma task_syncpoint_sim: "related (same_work rest work) (task_syncpoint S) (task_syncpoint S')"
  unfolding related_def
proof (intro allI impI)
  fix t u r t'
  assume "same_work rest work t u" and s: "task_syncpoint S t = Some (r, t')"
  then show "\<exists>u'. task_syncpoint S' u = Some (r, u') \<and> same_work rest work t' u'"
  proof (cases rule: same_work_cases)
    case (1 w v)
    then obtain e out where e: "s_commit S (k_env t) w = Some (e, out)"
      using s by (auto simp: task_syncpoint_def bind_eq_Some_conv)
    obtain f where f: "s_commit S' (k_env u) v = Some (f, out)" "rest e f" using commit_sim [OF 1(3) e] by blast
    show ?thesis
    proof (cases out)
      case (Inl er)
      then show ?thesis using s 1 e f by (auto simp: task_syncpoint_def same_work_None)
    next
      case (Inr x)
      then show ?thesis using s 1 e f
        by (auto simp: task_syncpoint_def same_work_Some split: Option.bind_split_asm dest!: begin_sim [OF f(2)])
    qed
  qed (use s in \<open>simp add: task_syncpoint_def\<close>)
qed

lemma task_rollback_sim:
  assumes "same_work rest work t u" "task_rollback S t = Some t'"
  shows "\<exists>u'. task_rollback S' u = Some u' \<and> same_work rest work t' u'"
  using assms(1)
proof (cases rule: same_work_cases)
  case (1 w v)
  then show ?thesis using assms(2)
    by (auto simp: task_rollback_def same_work_Some split: Option.bind_split_asm
        dest!: begin_sim [OF rollback_sim [OF 1(3)]])
qed (use assms(2) in \<open>simp add: task_rollback_def\<close>)

sublocale task_relation S S' fct "same_work rest work" for fct
  by unfold_locales (rule task_read_sim task_browse_sim task_write_sim task_rewrite_sim task_delete_sim
    task_start_sim task_syncpoint_sim task_rollback_sim; assumption?)+

lemma end_task_sim:
  assumes "same_work rest work t u" "end_task S out t = Some (e, r)"
  shows "\<exists>f. end_task S' out u = Some (f, r) \<and> rest e f"
  using assms(1)
proof (cases rule: same_work_cases)
  case (1 w v)
  then show ?thesis using assms(2) commit_sim [OF 1(3)] rollback_sim [OF 1(3)]
    by (cases out) (auto simp: end_task_def)
next
  case 2
  then show ?thesis using assms(2) by (cases out) (auto simp: end_task_def)
qed

lemma run_task_sim:
  assumes "rest e f" "run_task S P fct num req q e = Some (out, q', e', r)"
  shows "\<exists>f'. run_task S' P fct num req q f = Some (out, q', f', r) \<and> rest e' f'"
proof -
  let ?b = "\<lparr>task_id = num, tranid = ps_tranid req, link_level = 1\<rparr>"
  obtain w e1 t where s: "s_begin S e = Some (w, e1)"
      "run_program_loop S P fct ?b (ps_program req) (ps_commarea req) \<lparr>k_env = e1, k_txn = Some w, k_starts = q\<rparr> =
        Some (out, t)" "end_task S out t = Some (e', r)" "q' = k_starts t"
    using assms(2) by (auto simp: run_task_def bind_eq_Some_conv)
  obtain v f1 where v: "s_begin S' f = Some (v, f1)" "work e1 w f1 v" using begin_sim [OF assms(1) s(1)] by blast
  have "related (same_work rest work) (run_program_loop S P fct ?b (ps_program req) (ps_commarea req))
      (run_program_loop S' P fct ?b (ps_program req) (ps_commarea req))"
    by (rule run_program_loop_rel) (simp_all add: MAX_LINK_DEPTH_def)
  moreover have "same_work rest work \<lparr>k_env = e1, k_txn = Some w, k_starts = q\<rparr> \<lparr>k_env = f1, k_txn = Some v, k_starts = q\<rparr>"
    using v(2) by (simp add: same_work_def)
  ultimately obtain u where u: "run_program_loop S' P fct ?b (ps_program req) (ps_commarea req)
      \<lparr>k_env = f1, k_txn = Some v, k_starts = q\<rparr> = Some (out, u)" "same_work rest work t u"
    using relatedD s(2) by metis
  obtain f' where "end_task S' out u = Some (f', r)" "rest e' f'" using end_task_sim [OF u(2) s(3)] by blast
  moreover have "k_starts u = k_starts t" using u(2) by (simp add: same_work_def)
  ultimately show ?thesis using v(1) u(1) s(4) by (simp add: run_task_def)
qed

lemma dispatch_sim:
  assumes "rest e f" "dispatch S P fct q o1 ids e = Some (ids', e', out)"
  shows "\<exists>f'. dispatch S' P fct q o1 ids f = Some (ids', f', out) \<and> rest e' f'"
proof -
  let ?Q = "\<lambda>q o1 ids e y. \<forall>f. rest e f \<longrightarrow>
    (\<exists>f'. dispatch S' P fct q o1 ids f = Some (fst y, f', snd (snd y)) \<and> rest (fst (snd y)) f')"
  let ?P = "\<lambda>S0 P0 fct0 q o1 ids e y. S0 = S \<longrightarrow> P0 = P \<longrightarrow> fct0 = fct \<longrightarrow> ?Q q o1 ids e y"
  have "?P S P fct q o1 ids e (ids', e', out)"
  proof (rule dispatch.raw_induct [where P = ?P, OF _ assms(2)], intro impI allI)
    fix g S0 P0 fct0 q o1 ids e y f
    assume IH: "\<And>S P fct q o1 ids e y. g S P fct q o1 ids e = Some y \<Longrightarrow> ?P S P fct q o1 ids e y"
      and eqs: "S0 = S" "P0 = P" "fct0 = fct" and rest: "rest e f"
      and s: "(case q of [] \<Rightarrow> do { out \<leftarrow> o1; Some (ids, e, out) }
        | req # rest \<Rightarrow> do {
            let (num, ids') = next_task_id ids;
            (out, queue', e', r) \<leftarrow> run_task S0 P0 fct0 num req rest e;
            case r of Inl er \<Rightarrow> Some (ids', e', Inl (Io er))
            | Inr _ \<Rightarrow> g S0 P0 fct0 queue'
                (case o1 of None \<Rightarrow> Some out | Some first \<Rightarrow> Some first) ids' e' }) = Some y"
    show "\<exists>f'. dispatch S' P fct q o1 ids f = Some (fst y, f', snd (snd y)) \<and> rest (fst (snd y)) f'"
    proof (cases q)
      case Nil
      then show ?thesis using s rest by (auto simp: bind_eq_Some_conv dispatch.simps)
    next
      case (Cons req later)
      then obtain out q' e1 r where t: "run_task S P fct ids req later e = Some (out, q', e1, r)"
        using s eqs by (auto simp: next_task_id_def bind_eq_Some_conv)
      obtain f1 where f1: "run_task S' P fct ids req later f = Some (out, q', f1, r)" "rest e1 f1"
        using run_task_sim [OF rest t] by blast
      show ?thesis
      proof (cases r)
        case (Inl er)
        then show ?thesis using s eqs Cons t f1 by (auto simp: next_task_id_def dispatch.simps [of S'])
      next
        case (Inr u)
        let ?o = "case o1 of None \<Rightarrow> Some out | Some first \<Rightarrow> Some first"
        have "g S P fct q' ?o (ids + 1) e1 = Some y"
          using s eqs Cons t Inr by (auto simp: next_task_id_def)
        with IH f1(2) obtain f' where "dispatch S' P fct q' ?o (ids + 1) f1 = Some (fst y, f', snd (snd y))"
            "rest (fst (snd y)) f'" by blast
        then show ?thesis using Cons Inr f1(1)
          by (simp add: next_task_id_def dispatch.simps [of S' _ _ "_ # _"])
      qed
    qed
  qed
  then show ?thesis using assms(1) by simp
qed

end

text \<open>A region with another environment.\<close>

definition region_over :: "'f \<Rightarrow> 'e region \<Rightarrow> 'f region" where
  "region_over f g = \<lparr>g_env = f, g_programs = g_programs g, g_fct = g_fct g, g_task_ids = g_task_ids g\<rparr>"

lemma region_over_simps [simp]:
  "g_env (region_over f g) = f" "g_programs (region_over f g) = g_programs g" "g_fct (region_over f g) = g_fct g"
  "g_task_ids (region_over f g) = g_task_ids g" "region_over f (region_over e g) = region_over f g"
  "region_over (g_env g) g = g" "region_over f (g\<lparr>g_env := e\<rparr>) = region_over f g"
  by (simp_all add: region_over_def)

context store_simulation
begin

lemma start_task_sim:
  assumes "rest (g_env g) f" "start_task S g tran program c = Some (g', out)"
  shows "\<exists>f'. start_task S' (region_over f g) tran program c = Some (region_over f' g', out) \<and> rest (g_env g') f'"
proof -
  let ?q = "[\<lparr>ps_tranid = tran, ps_program = program, ps_commarea = c\<rparr>]"
  obtain ids e where d: "dispatch S (g_programs g) (g_fct g) ?q None (g_task_ids g) (g_env g) = Some (ids, e, out)"
      "g' = g\<lparr>g_env := e, g_task_ids := ids\<rparr>"
    using assms(2) by (auto simp: start_task_def bind_eq_Some_conv)
  show ?thesis using dispatch_sim [OF assms(1) d(1)] d(2) by (auto simp: start_task_def region_over_def)
qed

end

end
