(* ===== verification/Short_Keys.thy ===== *)
theory Short_Keys
  imports Store_Props
begin

text \<open>
  With keys of at most 60 bytes the commit never meets a node that does not fit in its page:
  the trees a run of transactions makes fit (\<open>fit\<close> of Node_Fit), committed or under way.
  \<open>trees\<close> is the general form: what holds of both trees, kept by every operation.
\<close>

section \<open>What holds of the committed and of the working tree\<close>

definition trees :: "lib \<Rightarrow> (gtree option \<Rightarrow> bool) \<Rightarrow> environment \<Rightarrow> write_txn option \<Rightarrow> bool" where
  "trees L Q env ow \<longleftrightarrow>
     (\<exists>ot is es. committed L (e_pager env) (e_committed env) ot is es \<and> slot_ok (e_pager env) \<and> Q ot \<and>
        (case ow of None \<Rightarrow> \<not> e_writer env
         | Some w \<Rightarrow> \<exists>wt. writer_ok L env (concat es) (outside (e_committed env) ot es) w wt \<and> Q wt))"

lemma trees_None:
  "trees L Q env None \<longleftrightarrow> (\<exists>ot is es. committed L (e_pager env) (e_committed env) ot is es \<and>
     slot_ok (e_pager env) \<and> Q ot \<and> \<not> e_writer env)"
  by (auto simp: trees_def)

lemma trees_Some:
  "trees L Q env (Some w) \<longleftrightarrow> (\<exists>ot is es wt. committed L (e_pager env) (e_committed env) ot is es \<and>
     slot_ok (e_pager env) \<and> Q ot \<and> writer_ok L env (concat es) (outside (e_committed env) ot es) w wt \<and> Q wt)"
  by (auto simp: trees_def)

lemma trees_mono: "trees L Q env ow \<Longrightarrow> (\<And>ot. Q ot \<Longrightarrow> Q' ot) \<Longrightarrow> trees L Q' env ow"
  by (cases ow) (fastforce simp: trees_def)+

lemma trees_fresh: "lib_ok L \<Longrightarrow> open_env L lim syncs None = Some (Inr env) \<Longrightarrow> Q None \<Longrightarrow> trees L Q env None"
proof -
  assume L: "lib_ok L" and o: "open_env L lim syncs None = Some (Inr env)" and Q: "Q None"
  note d = open_new_durable [OF L o]
  have "slot_ok (e_pager env)" using d(1) by (simp add: durable_def slots_ok_def slot_ok_def)
  then show ?thesis using durable_committed [OF d(1)] d(3) Q by (auto simp: trees_None)
qed

lemma trees_begin:
  assumes "trees L Q env None"
  obtains w where "begin_write L env = Some (w, env\<lparr>e_writer := True\<rparr>)" "trees L Q (env\<lparr>e_writer := True\<rparr>) (Some w)"
proof -
  obtain ot "is" es where st: "committed L (e_pager env) (e_committed env) ot is es" "slot_ok (e_pager env)" "Q ot"
      "\<not> e_writer env" using assms by (auto simp: trees_None)
  obtain w where "begin_write L env = Some (w, env\<lparr>e_writer := True\<rparr>)"
      "writer_ok L (env\<lparr>e_writer := True\<rparr>) (concat es) (outside (e_committed env) ot es) w ot"
    by (rule begin_write_ok [OF st(1,4)])
  then show thesis using that st(1-3) by (auto simp: trees_Some)
qed

text \<open>A change of the working tree, which leaves the committed tree alone.\<close>

lemma trees_work:
  assumes "committed L (e_pager env) (e_committed env) ot is es" "slot_ok (e_pager env)" "Q ot"
    "wrote (spare (e_committed env) (concat es) W) (e_pager env) (e_pager env')" "env' = env\<lparr>e_pager := e_pager env'\<rparr>"
    "writer_ok L env' (concat es) (outside (e_committed env) ot es) w' wt" "Q wt"
  shows "trees L Q env' (Some w')"
proof -
  have "e_committed env' = e_committed env" by (subst assms(5)) simp
  then show ?thesis
    using committed_wrote [OF assms(1,4) order_refl] wrote_slot [OF assms(4,2)] assms(3,6,7)
    by (auto simp: trees_Some)
qed

lemma trees_put:
  assumes L: "lib_ok L" "lib_sizes L" and t: "trees L Q env (Some w)" and key: "length key \<le> KEY_CAP"
    and p: "write_put L env w key value = Some (w', env')"
    and Q: "\<And>ot. Q ot \<Longrightarrow> Q' ot" "\<And>ot ot'. Q ot \<Longrightarrow> theight ot' \<le> Suc (theight ot) \<Longrightarrow> (tfit ot \<longrightarrow> tfit ot') \<Longrightarrow> Q' ot'"
  shows "trees L Q' env' (Some w')"
proof -
  obtain ot "is" es wt where st: "committed L (e_pager env) (e_committed env) ot is es" "slot_ok (e_pager env)" "Q ot"
      and w: "writer_ok L env (concat es) (outside (e_committed env) ot es) w wt" "Q wt" using t by (auto simp: trees_Some)
  show ?thesis
    by (rule write_put_ok [OF L(1) w(1) p]) (use Q w(2) st L(2) key in \<open>blast intro: trees_work\<close>)
qed

lemma trees_delete:
  assumes L: "lib_sizes L" and t: "trees L Q env (Some w)"
    and p: "write_delete L env w key = Some (b, w', env')"
    and Q: "\<And>ot. Q ot \<Longrightarrow> Q' ot" "\<And>ot ot'. Q ot \<Longrightarrow> theight ot' \<le> theight ot \<Longrightarrow> (tfit ot \<longrightarrow> tfit ot') \<Longrightarrow> Q' ot'"
  shows "trees L Q' env' (Some w')"
proof -
  obtain ot "is" es wt where st: "committed L (e_pager env) (e_committed env) ot is es" "slot_ok (e_pager env)" "Q ot"
      and w: "writer_ok L env (concat es) (outside (e_committed env) ot es) w wt" "Q wt" using t by (auto simp: trees_Some)
  show ?thesis
    by (rule write_delete_ok [OF w(1) p]) (use Q w(2) st L in \<open>blast intro: trees_work\<close>)
qed

lemma trees_commit:
  assumes L: "lib_ok L" and t: "trees L Q env (Some w)" and c: "commit L env w = Some (env', r)"
  shows "trees L Q env' None"
proof -
  obtain ot "is" es wt where st: "committed L (e_pager env) (e_committed env) ot is es" "slot_ok (e_pager env)" "Q ot"
      and w: "writer_ok L env (concat es) (outside (e_committed env) ot es) w wt" "Q wt" using t by (auto simp: trees_Some)
  note k = commit_keeps(1,2) [OF w(1) st(2) c]
  show ?thesis
  proof (cases r)
    case (Inl e)
    then show ?thesis using commit_fail_committed [OF st(1,2) w(1)] c st(3) k by (auto simp: trees_None)
  next
    case (Inr u)
    obtain is' es' where "committed L (e_pager env') (e_committed env') wt is' es'"
      by (rule commit_ok [OF L st(1,2) w(1) c [unfolded Inr]])
    then show ?thesis using w(2) k by (auto simp: trees_None)
  qed
qed

lemma trees_rollback: "trees L Q env (Some w) \<Longrightarrow> trees L Q (rollback env w) None"
  by (auto simp: trees_def rollback_def)

text \<open>Nothing else matters of the environment.\<close>

lemma trees_readers: "trees L Q (env\<lparr>e_readers := rs\<rparr>) ow \<longleftrightarrow> trees L Q env ow"
  by (cases ow) (simp_all add: trees_def writer_ok_def txn_ctx_def)

lemma fits_overlay:
  assumes "writer_ok L env fl K w ot" "tfit ot"
  shows "fits (w_overlay w)"
  unfolding fits_def
proof (clarify)
  fix i n assume e: "(i, n) \<in> set (w_overlay w)"
  have inv: "cinv (txn_ctx env w) (tnodes ot) (tvals ot + K)" using assms(1) by (simp add: writer_ok_def)
  then have m: "map_of (w_overlay w) i = Some n" using e by (simp add: cinv_def)
  then have i: "i \<in># tnodes ot" using cinv_staged [OF inv, of i] by (auto simp: staged_def)
  then obtain t where t: "ot = Some t" by (cases ot) auto
  have "rep (ctx_read L (txn_ctx env w)) t" using assms(1) t by (auto simp: writer_ok_def forest_def)
  then obtain n' where "ctx_read L (txn_ctx env w) i = Some n'" "node_size n' \<le> 4092"
    using fit_read [of t "ctx_read L (txn_ctx env w)" i] assms(2) i t by auto
  then show "node_size n \<le> 4092" using m by (simp add: ctx_read_def read_node_def)
qed

section \<open>Every step keeps trees that fit\<close>

definition short_keys :: "action list \<Rightarrow> bool" where
  "short_keys acts \<longleftrightarrow> (\<forall>key value. WritePut key value \<in> set acts \<longrightarrow> length key \<le> KEY_CAP)"

lemma fit_step:
  assumes L: "lib_ok L" "lib_sizes L" and t: "trees L tfit (y_env s) (y_writer s)" and short: "short_keys [a]"
    and step: "sys_step L s a = Some (s', out)"
  shows "trees L tfit (y_env s') (y_writer s')"
proof (cases a)
  case BeginRead
  then show ?thesis using step t
    by (auto simp: begin_read_def register_reader_def trees_readers Let_def)
next
  case (EndRead k)
  then show ?thesis using step t by (auto simp: bind_Some_iff drop_read_def trees_readers split: option.split)
next
  case BeginWrite
  then show ?thesis using step t by (auto split: option.splits elim!: trees_begin)
next
  case (WritePut key "value")
  then show ?thesis
    using step t short trees_put [OF L, of tfit _ _ key _ _ _ tfit] by (auto simp: bind_Some_iff short_keys_def)
next
  case (WriteDelete key)
  then show ?thesis using step t trees_delete [OF L(2), of tfit _ _ key _ _ _ tfit] by (auto simp: bind_Some_iff)
next
  case Commit
  then show ?thesis using step t trees_commit [OF L(1)] by (auto simp: bind_Some_iff)
next
  case Rollback
  then show ?thesis using step t trees_rollback by (auto simp: bind_Some_iff)
qed (use step t in \<open>auto simp: bind_Some_iff\<close>)

lemma fit_run:
  assumes "lib_ok L" "lib_sizes L"
  shows "trees L tfit (y_env s) (y_writer s) \<Longrightarrow> short_keys acts \<Longrightarrow> run (sys_step L) s acts = Some (s', outs) \<Longrightarrow>
    trees L tfit (y_env s') (y_writer s')"
proof (induction acts arbitrary: s outs)
  case (Cons a acts)
  then obtain s1 out outs1 where 1: "sys_step L s a = Some (s1, out)" "run (sys_step L) s1 acts = Some (s', outs1)"
    by (auto simp: bind_Some_iff)
  have k: "short_keys [a]" "short_keys acts" using Cons.prems(2) by (auto simp: short_keys_def)
  show ?case by (rule Cons.IH [OF fit_step [OF assms Cons.prems(1) k(1) 1(1)] k(2) 1(2)])
qed simp

section \<open>Commit always returns\<close>

lemma flush_returns:
  assumes "lib_ok L" "lib_sizes L"
  shows "fits ov \<Longrightarrow> \<exists>p' r. flush L p ov = Some (p', r)"
proof (induction ov arbitrary: p)
  case (Cons jm rest)
  obtain j m where jm: "jm = (j, m)" by fastforce
  obtain buf where "encode_node L m = Some buf"
    using encode_fits(2) [OF assms, of m] Cons.prems by (auto simp: jm fits_def encode_node_def)
  then show ?case using Cons by (auto simp: jm fits_def split: option.split)
qed simp

lemma store_chunks_returns:
  assumes "lib_ok L" "lib_sizes L"
  shows "unat np + length cs < 2 ^ 64 \<Longrightarrow> \<forall>c\<in>set cs. length c \<le> FREELIST_CHUNK \<Longrightarrow>
    \<exists>p' r. store_chunks L bump p np next cs = Some (p', r)"
proof (induction cs arbitrary: p np "next")
  case (Cons c cs)
  have np: "np \<noteq> u64_max" using Cons.prems(1) by (auto simp: unat_u64_max)
  have "free_size \<lparr>fp_next = next, fp_entries = c\<rparr> \<le> 4092"
    using Cons.prems(2) opt_size_le [of 8 "next"] by (simp add: free_size_def FREELIST_CHUNK_def)
  then obtain buf where "encode_page L (sd_free L) \<lparr>fp_next = next, fp_entries = c\<rparr> = Some buf"
    using encode_fits(3) [OF assms] by blast
  moreover have "\<exists>p' r. store_chunks L bump p1 (np + 1) (Some np) cs = Some (p', r)" for p1
    by (rule Cons.IH) (use Cons.prems np in \<open>auto simp: unat_plus_one\<close>)
  moreover have "bump np = Some (np, np + 1)" using np by (simp add: bump_def)
  ultimately show ?case by (auto split: option.split)
qed simp

lemma commit_returns:
  assumes L: "lib_ok L" "lib_sizes L" and w: "writer_ok L env fl K w ot" "fits (w_overlay w)"
    and room: "unat (w_next_page w) + freelist_pages w < 2 ^ 64" "txn_id (e_committed env) \<noteq> u64_max"
  shows "\<exists>env' r. commit L env w = Some (env', r)"
proof -
  have len: "length (chunks FREELIST_CHUNK (freed_entries t w)) = freelist_pages w" for t
    by (simp add: freelist_pages_def length_chunks FREELIST_CHUNK_def freed_entries_def)
  obtain p r where f: "flush L (e_pager env) (w_overlay w) = Some (p, r)" using flush_returns [OF L w(2)] by blast
  obtain p' r' where "store L bump p (w_next_page w) (freed_entries (txn_id (e_committed env) + 1) w) = Some (p', r')"
    using store_chunks_returns [OF L, of "w_next_page w" "chunks FREELIST_CHUNK (freed_entries (txn_id (e_committed env) + 1) w)"]
      room len chunks_length by (fastforce simp: store_def)
  moreover have "w_base_txn_id w = txn_id (e_committed env)" using w(1) by (simp add: writer_ok_def)
  ultimately obtain p2 r2 where cp: "commit_pages L env w = Some (p2, r2)"
    using room(2) f by (cases r; cases r') (auto simp: commit_pages_def)
  have meta: "\<exists>p' r. commit_meta L p m = Some (p', r)" for p m
    using encode_meta_page [OF L, of m]
    by (auto simp: commit_meta_def write_meta_slot_def encode_meta_def Let_def split: option.split sum.split prod.split)
  show ?thesis
  proof (cases r2)
    case (Inr m)
    obtain p3 r3 where s: "sync_data p2 = (p3, r3)" by fastforce
    obtain p4 r4 where "commit_meta L p3 m = Some (p4, r4)" using meta by blast
    then show ?thesis using cp Inr s by (cases r3; cases r4) (simp_all add: commit_def)
  qed (simp add: commit_def cp)
qed

text \<open>C38: With keys of at most 60 bytes \<open>commit\<close> never panics, however large the values, whether the disk
  has room and whether its syncs succeed: after any run of readers and writers it returns, with
  success and then a new reader gets what the writer had, or with an error and then a new
  reader gets the data from before. (Only page numbers and transaction ids must not run out.)\<close>

theorem short_keys_commit:
  assumes "lib_ok L" "lib_sizes L" "open_env L lim syncs None = Some (Inr env)"
    "run (sys_step L) (fresh_sys env) acts = Some (s, answers)" "short_keys acts" "y_writer s = Some w"
    "unat (w_next_page w) + freelist_pages w < 2 ^ 64" "txn_id (e_committed (y_env s)) \<noteq> u64_max"
  shows "\<exists>d xs env' r. allows db_step (fresh_db []) acts answers = Some d \<and> d_work d = Some xs \<and>
    commit L (y_env s) w = Some (env', r) \<and>
    first_rows L env' = Some (case r of Inl e \<Rightarrow> d_data d | Inr _ \<Rightarrow> xs)"
proof -
  obtain d where d: "allows db_step (fresh_db []) acts answers = Some d" "sim L s d"
    by (rule reachable_sim [OF assms(1,3,4)])
  obtain fl K ot where w: "writer_ok L (y_env s) fl K w ot" "d_work d = Some (contents ot)"
    using simE [OF d(2)] assms(6) by (metis work_ok_simps(2))
  have "trees L tfit (y_env (fresh_sys env)) (y_writer (fresh_sys env))"
    using trees_fresh [OF assms(1,3), of tfit] by (simp add: fresh_sys_def)
  from fit_run [OF assms(1,2) this assms(5,4)] have "fits (w_overlay w)"
    using fits_overlay assms(6) by (auto simp: trees_Some)
  then obtain env' r where c: "commit L (y_env s) w = Some (env', r)"
    using commit_returns [OF assms(1,2) w(1) _ assms(7,8)] by blast
  let ?s = "s\<lparr>y_env := env', y_writer := None, y_synced := y_synced s \<and> r \<noteq> Inl SyncFailed\<rparr>"
  have "sys_step L s Commit = Some (?s, case r of Inl e \<Rightarrow> Failed e | Inr _ \<Rightarrow> Done)" using assms(6) c by simp
  from sim_step [OF assms(1) d(2) this] obtain d' where
    "db_step d Commit (case r of Inl e \<Rightarrow> Failed e | Inr _ \<Rightarrow> Done) = Some d'" "sim L ?s d'" by blast
  then have "first_rows L env' = Some (case r of Inl e \<Rightarrow> d_data d | Inr _ \<Rightarrow> contents ot)"
    using sim_rows [of L ?s d' env'] w(2) by (auto split: sum.splits)
  then show ?thesis using d(1) w(2) c by blast
qed

theorem short_keys_commit_witness:
  "\<exists>env d xs env' r. demo_open env \<and> allows db_step (fresh_db []) [BeginWrite, WritePut [1] [2]] [Done, Done] = Some d \<and>
    d_work d = Some xs \<and> commit bincode (y_env (demo_sys env)) demo_writer = Some (env', r) \<and>
    first_rows bincode env' = Some (case r of Inl e \<Rightarrow> d_data d | Inr _ \<Rightarrow> xs)"
proof -
  obtain env where e: "demo_open env" by (rule demo_open)
  then have o: "open_env bincode 50 [] None = Some (Inr env)" by (simp add: demo_open_def)
  have y: "y_writer (demo_sys env) = Some demo_writer" "txn_id (e_committed (y_env (demo_sys env))) \<noteq> u64_max"
      "short_keys [BeginWrite, WritePut [1] [2]]" "unat (w_next_page demo_writer) + freelist_pages demo_writer < 2 ^ 64"
    using e demo_ready(2)
    by (simp_all add: demo_sys_def demo_open_def initial_meta_def u64_max_def short_keys_def demo_writer_def)
  from short_keys_commit [OF lib_ok_bincode lib_sizes_bincode o demo_run [OF e] y(3,1,4,2)] show ?thesis
    using e by blast
qed

end
