(* ===== verification/Budget.thy ===== *)
theory Budget
  imports Short_Keys
begin

text \<open>
  How much room a number of operations needs, once and for all: a tree grows by at most one
  level with each put, so each operation takes at most \<open>C\<close> pages; a commit takes one page for
  each 200 entries of the free list, which has at most as many entries as there are pages.
  \<open>budget L H C n\<close> says that there is room for \<open>n\<close> more puts, deletes and commits.
\<close>

section \<open>The pages a commit takes\<close>

lemma store_chunks_next:
  "store_chunks L bump p np next cs = Some (p', Inr (np', head)) \<Longrightarrow> np' = np + of_nat (length cs) \<and>
    unat np + length cs < 2 ^ 64"
proof (induction cs arbitrary: p np "next")
  case Nil
  then show ?case using unsigned_less [of np, where ?'a = nat] by simp
next
  case (Cons c cs)
  then obtain p1 i where b: "bump np = Some (np, np + 1)" "np \<noteq> u64_max"
      "store_chunks L bump p1 (np + 1) (Some i) cs = Some (p', Inr (np', head))"
    by (auto simp: bump_Some split: option.splits)
  show ?case using Cons.IH [OF b(3)] unat_plus_one [OF b(2)] by simp
qed

lemma commit_meta_syncs:
  "commit_meta L p m = Some (p', r) \<Longrightarrow> p_limit p' = p_limit p \<and> (p_syncs p = [] \<longrightarrow> p_syncs p' = [])"
  by (auto simp: commit_meta_def write_meta_slot_def Let_def
      dest!: write_page_fields sync_data_ok sync_data_fail split: option.splits sum.splits)

text \<open>A commit that succeeds takes a page for each 200 entries of the free list, above all others.\<close>

lemma commit_takes:
  assumes w: "writer_ok L env fl K w ot" and c: "commit L env w = Some (env', Inr u)"
  shows "unat (next_page (e_committed env')) = unat (w_next_page w) + freelist_pages w"
    "txn_id (e_committed env') = txn_id (e_committed env) + 1" "p_limit (e_pager env') = p_limit (e_pager env)"
    "p_syncs (e_pager env) = [] \<Longrightarrow> p_syncs (e_pager env') = []"
proof -
  obtain p p1 p2 m' where st: "commit_pages L env w = Some (p, Inr m')" "sync_data p = (p1, Inr ())"
      "commit_meta L p1 m' = Some (p2, Inr ())" "env' = env\<lparr>e_pager := p2, e_committed := m', e_writer := False\<rparr>"
    by (rule commit_InrE [OF c])
  let ?fl = "freed_entries (txn_id (e_committed env) + 1) w"
  obtain p0 np head where s: "store L bump p0 (w_next_page w) ?fl = Some (p, Inr (np, head))"
      "m' = advance (e_committed env) (w_root w) np head"
    using st(1) by (auto simp: commit_pages_def Let_def split: option.splits sum.splits prod.splits if_splits)
  have len: "length (chunks FREELIST_CHUNK ?fl) = freelist_pages w"
    by (simp add: freelist_pages_def length_chunks FREELIST_CHUNK_def freed_entries_def)
  note n = store_chunks_next [OF s(1) [unfolded store_def]]
  have "unat np = unat (w_next_page w) + freelist_pages w"
    using n by (simp add: len unat_word_ariths(1) unat_of_nat)
  moreover have "e_committed env' = m'" "e_pager env' = p2" using st(4) by simp_all
  ultimately show "unat (next_page (e_committed env')) = unat (w_next_page w) + freelist_pages w"
    "txn_id (e_committed env') = txn_id (e_committed env) + 1"
    using s(2) by (simp_all add: advance_def)
  have "p_limit p = p_limit (e_pager env)" "p_syncs p = p_syncs (e_pager env)"
    using wrote_fields [OF commit_pages_wrote [OF w st(1)]] by simp_all
  then show "p_limit (e_pager env') = p_limit (e_pager env)"
    "p_syncs (e_pager env) = [] \<Longrightarrow> p_syncs (e_pager env') = []"
    using commit_meta_syncs [OF st(3)] sync_data_ok [OF st(2)] st(4) by simp_all
qed

lemma nodup_size:
  assumes "nodup M" "\<forall>i\<in>#M. i < (m :: page_id)"
  shows "size M \<le> unat m"
proof -
  have "size M = card (set_mset M)"
  proof -
    have "M = mset_set (set_mset M)"
      using assms(1) by (intro multiset_eqI) (metis (no_types, lifting) One_nat_def Suc_leI antisym count_eq_zero_iff
        count_greater_zero_iff count_mset_set(1,3) finite_set_mset le_neq_implies_less not_gr_zero nodup_def)
    then show ?thesis by (metis size_mset_set)
  qed
  also have "\<dots> = card (unat ` set_mset M)" by (rule card_image [symmetric]) (simp add: inj_on_def word_unat_eq_iff)
  also have "\<dots> \<le> card {..< unat m}" by (rule card_mono) (use assms(2) in \<open>auto simp: word_less_nat_alt\<close>)
  finally show ?thesis by simp
qed

lemma freelist_pages_le:
  assumes "cinv (txn_ctx env w) N V"
  shows "freelist_pages w \<le> unat (w_next_page w) div 200 + 1"
proof -
  let ?c = "txn_ctx env w"
  have "size (all_pages ?c N V) \<le> unat (w_next_page w)"
    using assms by (intro nodup_size) (auto simp: cinv_def)
  then have "length (freed_entries 0 w) \<le> unat (w_next_page w)"
    by (simp add: all_pages_def pool_def freed_entries_def)
  then show ?thesis by (simp add: freelist_pages_def length_chunks FREELIST_CHUNK_def)
qed

section \<open>Room for a number of operations\<close>

fun pages_after :: "nat \<Rightarrow> nat \<Rightarrow> nat \<Rightarrow> nat" where
  "pages_after C 0 np = np"
| "pages_after C (Suc n) np = pages_after C n (np + C + np div 200 + 1)"

lemma pages_after_numeral [simp]:
  "pages_after C (numeral n) np = pages_after C (pred_numeral n) (np + C + np div 200 + 1)"
  unfolding numeral_eq_Suc [of n] by (rule pages_after.simps(2))

lemma pages_after_mono: "np \<le> np' \<Longrightarrow> pages_after C n np \<le> pages_after C n np'"
  by (induction n arbitrary: np np') (simp_all add: div_le_mono add_mono)

lemma pages_after_ge: "np + n \<le> pages_after C n np"
proof (induction n arbitrary: np)
  case (Suc n)
  show ?case using Suc [of "np + C + np div 200 + 1"] by simp
qed simp

definition pages_used :: "environment \<Rightarrow> write_txn option \<Rightarrow> nat" where
  "pages_used env ow = unat (case ow of None \<Rightarrow> next_page (e_committed env) | Some w \<Rightarrow> w_next_page w)"

definition budget :: "lib \<Rightarrow> nat \<Rightarrow> nat \<Rightarrow> nat \<Rightarrow> environment \<Rightarrow> write_txn option \<Rightarrow> bool" where
  "budget L H C n env ow \<longleftrightarrow> lib_sizes L \<and> p_syncs (e_pager env) = [] \<and> p_limit (e_pager env) \<le> 2 ^ 52 \<and>
     unat (txn_id (e_committed env)) + n < 2 ^ 64 - 1 \<and> pages_after C n (pages_used env ow) \<le> p_limit (e_pager env) \<and>
     trees L (\<lambda>ot. tfit ot \<and> theight ot + n \<le> H) env ow"

lemma budgetD:
  assumes "budget L H C n env ow"
  shows "lib_sizes L" "p_syncs (e_pager env) = []" "p_limit (e_pager env) \<le> 2 ^ 52"
    "unat (txn_id (e_committed env)) + n < 2 ^ 64 - 1" "pages_after C n (pages_used env ow) \<le> p_limit (e_pager env)"
    "trees L (\<lambda>ot. tfit ot \<and> theight ot + n \<le> H) env ow"
  using assms by (simp_all add: budget_def)

lemma budget_begin:
  assumes "budget L H C n env None" "begin_write L env = Some (w, env')"
  shows "budget L H C n env' (Some w)"
proof -
  note b = budgetD [OF assms(1)]
  obtain w0 where "begin_write L env = Some (w0, env\<lparr>e_writer := True\<rparr>)"
      "trees L (\<lambda>ot. tfit ot \<and> theight ot + n \<le> H) (env\<lparr>e_writer := True\<rparr>) (Some w0)"
    by (rule trees_begin [OF b(6)])
  then have t: "env' = env\<lparr>e_writer := True\<rparr>" "trees L (\<lambda>ot. tfit ot \<and> theight ot + n \<le> H) env' (Some w)"
    using assms(2) by simp_all
  have "w_next_page w = next_page (e_committed env)"
    using assms(2) by (auto simp: begin_write_def Let_def bind_Some_iff split: option.splits if_splits)
  then show ?thesis using b t by (simp add: budget_def pages_used_def)
qed

lemma budget_rollback:
  assumes "budget L H C n env (Some w)"
  shows "budget L H C n (rollback env w) None"
proof -
  note b = budgetD [OF assms]
  have "next_page (e_committed env) \<le> w_next_page w" using b(6) by (auto simp: trees_Some writer_ok_def)
  then have "pages_used (rollback env w) None \<le> pages_used env (Some w)"
    by (simp add: pages_used_def rollback_def word_le_nat_alt)
  from pages_after_mono [OF this, of C n] show ?thesis
    using b trees_rollback [OF b(6)] by (simp add: budget_def rollback_def)
qed

text \<open>A change of the working tree that takes at most \<open>C\<close> pages.\<close>

lemma budget_spend:
  assumes b: "budget L H C (Suc n) env (Some w)"
    and used: "unat (w_next_page w') \<le> unat (w_next_page w) + C"
    and env': "wrote S (e_pager env) (e_pager env')" "e_committed env' = e_committed env"
    and t: "trees L (\<lambda>ot. tfit ot \<and> theight ot + n \<le> H) env' (Some w')"
  shows "budget L H C n env' (Some w')"
proof -
  note b = budgetD [OF b]
  have "pages_after C n (unat (w_next_page w')) \<le> pages_after C (Suc n) (unat (w_next_page w))"
    using used by (simp add: pages_after_mono)
  then show ?thesis
    using b t env'(2) wrote_fields [OF env'(1)] by (simp add: budget_def pages_used_def)
qed

lemma budget_room:
  assumes "budget L H C (Suc n) env (Some w)" "k \<le> C"
  shows "room (txn_ctx env w) (k + (p_limit (e_pager env) - unat (w_next_page w) - k))"
proof -
  note b = budgetD [OF assms(1)]
  have "unat (w_next_page w) + C \<le> p_limit (e_pager env)"
    using b(5) pages_after_ge [of "unat (w_next_page w) + C + unat (w_next_page w) div 200 + 1" n C]
    by (simp add: pages_used_def)
  then show ?thesis using b(3) assms(2) by (simp add: room_def)
qed

lemma budget_put:
  assumes L: "lib_ok L" and b: "budget L H C (Suc n) env (Some w)" and key: "length key \<le> KEY_CAP"
    and v: "value_pages value + 2 * H + 1 \<le> C"
  shows "\<exists>w' env'. write_put L env w key value = Some (w', env') \<and> budget L H C n env' (Some w')"
proof -
  note d = budgetD [OF b]
  obtain ot "is" es wt where w: "writer_ok L env (concat es) (outside (e_committed env) ot es) w wt" "theight wt + Suc n \<le> H"
    using d(6) by (auto simp: trees_Some)
  have wf: "wf_tree L (txn_ctx env w) wt" "cinv (txn_ctx env w) (tnodes wt) (tvals wt + outside (e_committed env) ot es)" "w_root w = root_of wt"
    using w(1) by (simp_all add: writer_ok_def)
  have k: "put_pages wt value \<le> C" using w(2) v by (cases wt) (simp_all add: put_pages_def)
  obtain i c where p: "btree_put L (txn_ctx env w) (root_of wt) key value = Some (i, c)"
      "room c (p_limit (e_pager env) - unat (w_next_page w) - put_pages wt value)"
    using btree_put_total [OF L d(1) wf(1,2) budget_room [OF b k], of key] by blast
  define w' where "w' = (put_ctx c w)\<lparr>w_root := Some i\<rparr>"
  define env' where "env' = env\<lparr>e_pager := c_pager c\<rparr>"
  have wp: "write_put L env w key value = Some (w', env')"
    using p(1) wf(3) by (simp add: write_put_def w'_def env'_def)
  have wr: "wrote (spare (e_committed env) (concat es) (w_watermark w)) (e_pager env) (e_pager env')"
    by (rule write_put_ok [OF L w(1) wp])
  have "unat (w_next_page w') \<le> unat (w_next_page w) + C"
    using p(2) k budget_room [OF b k] wrote_fields [OF wr]
    by (simp add: room_def w'_def env'_def put_ctx_def)
  moreover have "trees L (\<lambda>ot. tfit ot \<and> theight ot + n \<le> H) env' (Some w')"
    by (rule trees_put [OF L d(1,6) key wp]) auto
  ultimately show ?thesis using wp budget_spend [OF b _ wr] by (simp add: env'_def)
qed

lemma budget_delete:
  assumes b: "budget L H C (Suc n) env (Some w)" and v: "2 * H \<le> C" and L: "lib_ok L"
  shows "\<exists>existed w' env'. write_delete L env w key = Some (existed, w', env') \<and> budget L H C n env' (Some w')"
proof -
  note d = budgetD [OF b]
  obtain ot "is" es wt where w: "writer_ok L env (concat es) (outside (e_committed env) ot es) w wt" "theight wt + Suc n \<le> H"
    using d(6) by (auto simp: trees_Some)
  have wf: "wf_tree L (txn_ctx env w) wt" "cinv (txn_ctx env w) (tnodes wt) (tvals wt + outside (e_committed env) ot es)" "w_root w = root_of wt"
    using w(1) by (simp_all add: writer_ok_def)
  have k: "delete_pages wt \<le> C" using w(2) v by (cases wt) (simp_all add: delete_pages_def)
  obtain r existed c where p: "btree_delete L (txn_ctx env w) (root_of wt) key = Some ((r, existed), c)"
      "room c (p_limit (e_pager env) - unat (w_next_page w) - delete_pages wt)"
    using btree_delete_total [OF wf(1,2) budget_room [OF b k], of key] by blast
  define w' where "w' = (put_ctx c w)\<lparr>w_root := r\<rparr>"
  define env' where "env' = env\<lparr>e_pager := c_pager c\<rparr>"
  have wp: "write_delete L env w key = Some (existed, w', env')"
    using p(1) wf(3) by (simp add: write_delete_def w'_def env'_def)
  have wr: "wrote (spare (e_committed env) (concat es) (w_watermark w)) (e_pager env) (e_pager env')"
    by (rule write_delete_ok [OF w(1) wp])
  have "unat (w_next_page w') \<le> unat (w_next_page w) + C"
    using p(2) k budget_room [OF b k] wrote_fields [OF wr]
    by (simp add: room_def w'_def env'_def put_ctx_def)
  moreover have "trees L (\<lambda>ot. tfit ot \<and> theight ot + n \<le> H) env' (Some w')"
    by (rule trees_delete [OF d(1,6) wp]) auto
  ultimately show ?thesis using wp budget_spend [OF b _ wr] by (simp add: env'_def)
qed

lemma budget_commit:
  assumes L: "lib_ok L" and b: "budget L H C (Suc n) env (Some w)"
  shows "\<exists>env'. commit L env w = Some (env', Inr ()) \<and> budget L H C n env' None"
proof -
  note d = budgetD [OF b]
  obtain ot "is" es wt where w: "writer_ok L env (concat es) (outside (e_committed env) ot es) w wt" "tfit wt" "slot_ok (e_pager env)"
    using d(6) by (auto simp: trees_Some)
  let ?np = "unat (w_next_page w)"
  have inv: "cinv (txn_ctx env w) (tnodes wt) (tvals wt + outside (e_committed env) ot es)" using w(1) by (simp add: writer_ok_def)
  note fl = freelist_pages_le [OF inv]
  have "?np + (?np div 200 + 1) \<le> p_limit (e_pager env)"
    using d(5) pages_after_ge [of "?np + C + ?np div 200 + 1" n C] by (simp add: pages_used_def)
  then have "room (txn_ctx env w) (freelist_pages w)" using fl d(3) by (simp add: room_def)
  moreover have "txn_id (e_committed env) \<noteq> u64_max" using d(4) unat_u64_max by auto
  ultimately obtain env' where c: "commit L env w = Some (env', Inr ())"
    using commit_total [OF L d(1) w(1,3) fits_overlay [OF w(1,2)]] d(2) by blast
  note t = commit_takes [OF w(1) c]
  have "pages_after C n (?np + freelist_pages w) \<le> pages_after C (Suc n) ?np"
    using fl by (simp add: pages_after_mono)
  then have "pages_after C n (pages_used env' None) \<le> p_limit (e_pager env')"
    using d(5) t(1,3) by (simp add: pages_used_def)
  moreover have "unat (txn_id (e_committed env')) = Suc (unat (txn_id (e_committed env)))"
    using t(2) d(4) unat_u64_max by (auto intro!: unat_plus_one)
  moreover have "trees L (\<lambda>ot. tfit ot \<and> theight ot + n \<le> H) env' None"
    by (rule trees_mono [OF trees_commit [OF L d(6) c]]) simp
  ultimately show ?thesis using c d(1-4) t(3,4) by (simp add: budget_def)
qed

lemma budget_fresh:
  assumes "lib_ok L" "lib_sizes L" "open_env L lim [] None = Some (Inr env)" "lim \<le> 2 ^ 52" "n \<le> H"
    "pages_after C n 2 \<le> lim"
  shows "budget L H C n env None"
proof -
  obtain p0 p1 where w: "write_meta_slot L (open_file lim [] [zero_page, zero_page]) 0 initial_meta = Some (p0, Inr ())"
      "write_meta_slot L p0 1 initial_meta = Some (p1, Inr ())"
      and env: "env = \<lparr>e_pager = p1, e_committed = initial_meta, e_writer = False, e_readers = []\<rparr>"
    using assms(3) by (auto simp: open_env_def open_pager_def Let_def split: option.splits sum.splits prod.splits)
  have "p_limit p1 = lim \<and> p_syncs p1 = []"
    using w by (auto simp: write_meta_slot_def open_file_def dest!: write_page_fields sync_data_ok split: option.splits)
  moreover have "n < 2 ^ 64 - 1" using assms(4,6) pages_after_ge [of 2 n C] by simp
  ultimately show ?thesis
    using assms(2,4,5,6) trees_fresh [OF assms(1,3)] env
    by (simp add: budget_def pages_used_def initial_meta_def META_PAGE_COUNT_def)
qed

end
