(* ===== verification/Region_Props.thy ===== *)
theory Region_Props
  imports File_Props
begin

text \<open>
  What the runtime promises of tasks over the B-tree store: a task's changes are published
  whole or not at all, LINK is bounded, programs end, started tasks run in order after the
  one that started them, files are kept apart.
\<close>

section \<open>A demonstration region\<close>

text \<open>A program that writes a record and ABENDs, and a table of programs that has it alone.\<close>

definition demo_abend :: program_manager where
  "demo_abend = [''P'' \<mapsto> \<lambda>b c. Write ''A'' [7] [9] (try_else (\<lambda>_. Finish (Inl (InvalidRequest ''X''))))]"

definition demo_region :: "environment \<Rightarrow> environment region" where
  "demo_region env = \<lparr>g_env = env, g_programs = demo_abend, g_fct = demo_fct, g_task_ids = 1\<rparr>"

abbreviation demo_request :: pending_start where
  "demo_request \<equiv> \<lparr>ps_tranid = ''T'', ps_program = ''P'', ps_commarea = None\<rparr>"

lemma demo_run_program:
  assumes "demo_open env"
  shows "run_program_loop (txn_store bincode) demo_abend demo_fct b ''P'' None
      \<lparr>k_env = env\<lparr>e_writer := True\<rparr>, k_txn = Some demo_first, k_starts = q\<rparr> =
    Some (Inl (InvalidRequest ''X''), \<lparr>k_env = env\<lparr>e_writer := True\<rparr>,
      k_txn = Some (demo_put (storage_key 0 [7]) [9]), k_starts = q\<rparr>)"
proof -
  have "write_get bincode (env\<lparr>e_writer := True\<rparr>) demo_first k = Some None" for k
    by (simp add: write_get_def btree_get_def demo_first_def)
  then have "exec_write (txn_store bincode) (env\<lparr>e_writer := True\<rparr>) demo_first demo_fct ''A'' [7] [9] =
      Some (Inr (), demo_put (storage_key 0 [7]) [9], env\<lparr>e_writer := True\<rparr>)"
    using demo_store(4) [OF assms] by (simp add: exec_write_def txn_store_def demo_resolve)
  then show ?thesis
    by (simp add: run_program_loop.simps demo_abend_def resolve_program_def task_write_def)
qed

lemma demo_run_task:
  assumes "demo_open env"
  shows "run_task (txn_store bincode) demo_abend demo_fct num demo_request q env =
    Some (Inl (InvalidRequest ''X''), q, env, Inr ())"
proof -
  have "\<not> e_writer env" using open_new_durable(3) [OF lib_ok_bincode, of 50 "[]" env] assms by (simp add: demo_open_def)
  then have "rollback (env\<lparr>e_writer := True\<rparr>) w = env" for w by (simp add: rollback_def)
  then show ?thesis
    using demo_run_program [OF assms] demo_store(2) [OF assms]
    by (simp add: run_task_def txn_store_def [THEN arg_cong, of s_begin] txn_store_def [THEN arg_cong, of s_rollback]
        end_task_def)
qed

lemma demo_start_task:
  assumes "demo_open env"
  shows "start_task (txn_store bincode) (demo_region env) ''T'' ''P'' None =
    Some ((demo_region env)\<lparr>g_task_ids := 2\<rparr>, Inl (InvalidRequest ''X''))"
  using demo_run_task [OF assms, of 1 "[]"]
  by (simp add: start_task_def demo_region_def dispatch.simps next_task_id_def)

lemma demo_within: "programs_within UNIV False demo_abend" "programs_within {''A''} True demo_abend"
  by (auto simp: programs_within_def demo_abend_def split: if_splits)

section \<open>Properties\<close>

text \<open>C24: Refinement of a whole region. Whatever \<open>start_task\<close> does over the B-tree store (the task,
  the tasks it starts, their LINKs, XCTLs, syncpoints and commits that fail), it does over a
  plain sorted list with the outcomes of the commits it made: the same result, the same
  task numbers, and the store holds the rows that the list does.\<close>

theorem region_refines_rows:
  assumes "store_idle L (g_env g) xs" "start_task (txn_store L) g tran program c = Some (g', out)"
  shows "\<exists>pre xs'. store_idle L (g_env g') xs' \<and>
    (\<forall>outs. start_task rows_store (ideal_region g xs (pre @ outs)) tran program c =
       Some (ideal_region g' xs' outs, out))"
  by (rule txn_task.start_task_refines [OF assms])

theorem region_refines_rows_witness:
  "\<exists>env pre xs'. demo_open env \<and> store_idle bincode env xs' \<and>
    (\<forall>outs. start_task rows_store (ideal_region (demo_region env) [] (pre @ outs)) ''T'' ''P'' None =
       Some (ideal_region ((demo_region env)\<lparr>g_task_ids := 2\<rparr>) xs' outs, Inl (InvalidRequest ''X'')))"
proof -
  obtain env where e: "demo_open env" by (rule demo_open)
  have "store_idle bincode (g_env (demo_region env)) []" using demo_store(1) [OF e] by (simp add: demo_region_def)
  from region_refines_rows [OF this demo_start_task [OF e]] show ?thesis
    using e by (auto simp: demo_region_def)
qed

text \<open>What a task without syncpoints of its own leaves, whichever way it ends.\<close>

lemma task_rows:
  assumes "store_idle L e xs" "programs_within UNIV False programs"
    "run_task (txn_store L) programs fct num req q e = Some (out, q', e', r)"
  shows "\<exists>ys. run_program_loop rows_store programs fct
      \<lparr>task_id = num, tranid = ps_tranid req, link_level = 1\<rparr> (ps_program req) (ps_commarea req)
      (ideal_task xs [] (Some xs) q) = Some (out, ideal_task xs [] (Some ys) q') \<and>
    store_idle L e' (case (out, r) of (Inr _, Inr _) \<Rightarrow> ys | _ \<Rightarrow> xs)"
proof -
  let ?b = "\<lparr>task_id = num, tranid = ps_tranid req, link_level = 1\<rparr>"
  obtain pre xs' where x: "store_idle L e' xs'" "\<forall>outs.
      run_task rows_store programs fct num req q \<lparr>i_rows = xs, i_outcomes = pre @ outs\<rparr> =
        Some (out, q', \<lparr>i_rows = xs', i_outcomes = outs\<rparr>, r)"
    using txn_task.run_task_refines [OF assms(1,3)] by blast
  obtain w e1 where w: "s_begin (txn_store L) e = Some (w, e1)" "store_busy L e1 w xs xs"
    using txn_task.begin_ok [OF assms(1)] by blast
  let ?t = "\<lparr>k_env = e1, k_txn = Some w, k_starts = q\<rparr>"
  obtain t where t: "run_program_loop (txn_store L) programs fct ?b (ps_program req) (ps_commarea req) ?t = Some (out, t)"
      "end_task (txn_store L) out t = Some (e', r)" "q' = k_starts t"
    using assms(3) w(1) by (auto simp: run_task_def bind_eq_Some_conv)
  obtain pre1 xs1 work1 where 1: "task_ok (store_idle L) (store_busy L) t xs1 work1" "\<forall>outs.
      run_program_loop rows_store programs fct ?b (ps_program req) (ps_commarea req)
        (ideal_task xs (pre1 @ outs) (Some xs) q) = Some (out, ideal_task xs1 outs work1 q')"
    using tracksD [OF txn_task.run_program_loop_tracks _ t(1), of xs "Some xs"] w(2) t(3) by auto
  have "\<lparr>i_rows = xs1, i_outcomes = []\<rparr> = \<lparr>i_rows = xs, i_outcomes = pre1 @ []\<rparr> \<and> work1 \<noteq> None"
    using preservesD [OF unsynced.run_program_loop_keeps [OF assms(2)] _ 1(2) [rule_format, of "[]"]] by simp
  then obtain ys where ys: "xs1 = xs" "pre1 = []" "work1 = Some ys" by auto
  have "store_idle L e' (case (out, r) of (Inr _, Inr _) \<Rightarrow> ys | _ \<Rightarrow> xs)"
    using t(2) 1(1) ys txn_task.commit_ok txn_task.commit_fail txn_task.rollback_ok
    by (cases "k_txn t") (auto simp: end_task_def split: sum.splits)
  then show ?thesis using 1(2) ys by auto
qed

text \<open>C25: A task is all or nothing. When its programs take no syncpoint of their own, a task leaves
  the store with all the rows its programs made when it ends normally and its commit
  succeeds, and with exactly the rows it found when it ABENDs or its commit fails.\<close>

theorem task_atomic:
  assumes "store_idle L e xs" "programs_within UNIV False programs"
    "run_task (txn_store L) programs fct num req q e = Some (out, q', e', r)"
  shows "\<exists>ys. run_program_loop rows_store programs fct
      \<lparr>task_id = num, tranid = ps_tranid req, link_level = 1\<rparr> (ps_program req) (ps_commarea req)
      (ideal_task xs [] (Some xs) q) = Some (out, ideal_task xs [] (Some ys) q') \<and>
    store_idle L e' (case (out, r) of (Inr _, Inr _) \<Rightarrow> ys | _ \<Rightarrow> xs)"
  by (rule task_rows [OF assms])

theorem task_atomic_witness:
  "\<exists>env. demo_open env \<and>
    run_task (txn_store bincode) demo_abend demo_fct 1 demo_request [] env =
      Some (Inl (InvalidRequest ''X''), [], env, Inr ()) \<and> store_idle bincode env []"
proof -
  obtain env where e: "demo_open env" by (rule demo_open)
  from task_atomic [OF demo_store(1) [OF e] demo_within(1) demo_run_task [OF e, of 1 "[]"]]
  show ?thesis using e demo_run_task [OF e] by auto
qed

text \<open>C26: \<open>link_external\<close> takes no syncpoint of its own: when the programs take none, it leaves the
  committed rows alone and the caller's transaction open, whether it succeeds or fails,
  with the rows that the linked programs made of the caller's.\<close>

theorem link_external_open:
  assumes "store_busy L e w xs ys" "programs_within UNIV False programs"
    "link_external (txn_store L) programs fct e (Some w) b program c = Some (out, e', txn')"
  shows "\<exists>w' ys'. txn' = Some w' \<and> store_busy L e' w' xs ys' \<and>
    link_external rows_store programs fct \<lparr>i_rows = xs, i_outcomes = []\<rparr> (Some ys) b program c =
      Some (out, \<lparr>i_rows = xs, i_outcomes = []\<rparr>, Some ys')"
proof -
  have "task_ok (store_idle L) (store_busy L) \<lparr>k_env = e, k_txn = Some w, k_starts = []\<rparr> xs (Some ys)"
    using assms(1) by simp
  from txn_task.link_external_refines [OF this assms(3)] obtain pre xs' work' where
    1: "task_ok (store_idle L) (store_busy L) \<lparr>k_env = e', k_txn = txn', k_starts = []\<rparr> xs' work'" "\<forall>outs.
      link_external rows_store programs fct \<lparr>i_rows = xs, i_outcomes = pre @ outs\<rparr> (Some ys) b program c =
        Some (out, \<lparr>i_rows = xs', i_outcomes = outs\<rparr>, work')"
    by blast
  have "\<lparr>i_rows = xs', i_outcomes = []\<rparr> = \<lparr>i_rows = xs, i_outcomes = pre @ []\<rparr> \<and> work' \<noteq> None"
  proof (cases "MAX_LINK_DEPTH < link_level b + 1")
    case True
    then show ?thesis using 1(2) [rule_format, of "[]"] by (auto simp: link_external_def split: if_splits)
  next
    case False
    then obtain t where t: "run_program_loop rows_store programs fct (b\<lparr>link_level := link_level b + 1\<rparr>) program c
          \<lparr>k_env = \<lparr>i_rows = xs, i_outcomes = pre @ []\<rparr>, k_txn = Some ys, k_starts = []\<rparr> = Some (out, t)"
        "k_env t = \<lparr>i_rows = xs', i_outcomes = []\<rparr>" "k_txn t = work'"
      using 1(2) [rule_format, of "[]"] by (auto simp: link_external_def bind_eq_Some_conv split: if_splits)
    show ?thesis
      using preservesD [OF unsynced.run_program_loop_keeps [OF assms(2)] _ t(1)] t(2,3) by simp
  qed
  then have "xs' = xs" "pre = []" "work' \<noteq> None" by auto
  then show ?thesis using 1 by (cases txn') auto
qed

theorem link_external_open_witness:
  "\<exists>env w' ys'. demo_open env \<and>
    link_external (txn_store bincode) demo_abend demo_fct (env\<lparr>e_writer := True\<rparr>) (Some demo_first)
      \<lparr>task_id = 5, tranid = ''E'', link_level = 0\<rparr> ''P'' None =
        Some (Inl (InvalidRequest ''X''), env\<lparr>e_writer := True\<rparr>, Some w') \<and>
    store_busy bincode (env\<lparr>e_writer := True\<rparr>) w' [] ys'"
proof -
  obtain env where e: "demo_open env" by (rule demo_open)
  have l: "link_external (txn_store bincode) demo_abend demo_fct (env\<lparr>e_writer := True\<rparr>) (Some demo_first)
      \<lparr>task_id = 5, tranid = ''E'', link_level = 0\<rparr> ''P'' None =
        Some (Inl (InvalidRequest ''X''), env\<lparr>e_writer := True\<rparr>, Some (demo_put (storage_key 0 [7]) [9]))"
    using demo_run_program [OF e] by (simp add: link_external_def MAX_LINK_DEPTH_def)
  from link_external_open [OF demo_store(3) [OF e] demo_within(1) l] show ?thesis using e l by blast
qed

text \<open>C27: LINK is bounded. A run at level 64 or above it (that is, at a smaller level) never runs a
  program at a level past 64, so what programs would do there does not matter; at level 64 a
  LINK gives LINKSTACKOVERFLOW to the program and changes nothing, whatever it links to.\<close>

theorem link_bounded:
  assumes "agree P P'" "link_level b \<le> MAX_LINK_DEPTH"
  shows "run_program_loop S P fct b n c t = run_program_loop S P' fct b n c t \<and>
    (link_level b = MAX_LINK_DEPTH \<longrightarrow>
       task_link (run_program_loop S P fct) b program c t = Some (Inl (LinkStackOverflow program), t))"
  using run_program_loop_agree [OF assms] by (auto simp: task_link_def MAX_LINK_DEPTH_def)

definition demo_link :: "bool \<Rightarrow> program_manager" where
  "demo_link deep = [''P'' \<mapsto> \<lambda>b c. if deep \<and> MAX_LINK_DEPTH < link_level b then Panic
     else Link ''P'' None (try_else (\<lambda>_. Finish (Inr (Return None))))]"

theorem link_bounded_witness:
  "run_program_loop rows_store (demo_link False) demo_fct \<lparr>task_id = 1, tranid = ''T'', link_level = 1\<rparr> ''P'' None
      (ideal_task [] [] (Some []) []) =
    run_program_loop rows_store (demo_link True) demo_fct \<lparr>task_id = 1, tranid = ''T'', link_level = 1\<rparr> ''P'' None
      (ideal_task [] [] (Some []) [])"
proof -
  have "agree (demo_link False) (demo_link True)" by (auto simp: agree_def demo_link_def split: if_splits)
  from link_bounded [OF this, of "\<lparr>task_id = 1, tranid = ''T'', link_level = 1\<rparr>"] show ?thesis
    by (simp add: MAX_LINK_DEPTH_def)
qed

text \<open>C28: Programs end. Over rows, with commits that succeed, every run returns when no program panics
  and each XCTL goes to a program of smaller rank: LINK, even of a program to itself, and the
  calls of a program cannot make a run go on for ever, only a cycle of XCTLs can.\<close>

theorem programs_end:
  assumes "fct_ok fct" "ranked rank programs" "link_level b \<le> MAX_LINK_DEPTH" "keyed xs" "keyed ys"
  shows "\<exists>out xs' ys' q'. run_program_loop rows_store programs fct b n c (ideal_task xs [] (Some ys) q) =
    Some (out, ideal_task xs' [] (Some ys') q') \<and> keyed xs' \<and> keyed ys'"
proof -
  have "running (ideal_task xs [] (Some ys) q)" using assms(4,5) by (simp add: running_def)
  then obtain out t where t: "run_program_loop rows_store programs fct b n c (ideal_task xs [] (Some ys) q) = Some (out, t)"
      "running t"
    using run_program_loop_returns [OF assms(1-3), of n c] unfolding returns_def by blast
  obtain ys' where "t = ideal_task (i_rows (k_env t)) [] (Some ys') (k_starts t)" "keyed ys'" "keyed (i_rows (k_env t))"
    using t(2) by (cases t; cases "k_env t") (auto simp: running_def ideal_task_def)
  then show ?thesis using t(1) by metis
qed

theorem programs_end_witness:
  "\<exists>out xs' ys' q'. run_program_loop rows_store (demo_link False) demo_fct
      \<lparr>task_id = 1, tranid = ''T'', link_level = 1\<rparr> ''P'' None (ideal_task [] [] (Some []) []) =
    Some (out, ideal_task xs' [] (Some ys') q') \<and> keyed xs' \<and> keyed ys'"
proof (rule programs_end)
  show "fct_ok demo_fct" using define_files_ok [OF demo_fct] by simp
  show "ranked (\<lambda>_. 0) (demo_link False)"
    by (auto simp: ranked_def demo_link_def try_else_def split: if_splits sum.split)
qed (simp_all add: MAX_LINK_DEPTH_def)

text \<open>C29: First in, first out. The dispatcher runs the tasks that are in the queue, in order, each over
  the store the one before it left, then those they started, in the order they were started;
  whatever is in the queue, a task neither sees nor changes it, but only appends to it.\<close>

theorem tasks_in_order:
  "dispatch S P fct (q @ later) o1 ids e =
     do { (ids', outs, starts, e', r) \<leftarrow> run_all S P fct ids q e;
          case r of
            Inl er \<Rightarrow> Some (ids', e', Inl (Io er))
          | Inr _ \<Rightarrow> dispatch S P fct (later @ starts) (first_of o1 outs) ids' e' }"
  by (rule dispatch_run_all)

text \<open>C31: Files are kept apart. When the programs of a region change only files of \<open>F\<close>, no task of it,
  started or linked, changes a record of any other file in the committed store.\<close>

theorem files_confined:
  assumes "store_idle L (g_env g) xs" "programs_within F True (g_programs g)"
    "start_task (txn_store L) g tran program c = Some (g', out)" "\<forall>file\<in>F. files (g_fct g) file \<noteq> Some fid"
  shows "\<exists>xs'. store_idle L (g_env g') xs' \<and> view xs' fid = view xs fid"
proof -
  obtain pre xs' where 1: "store_idle L (g_env g') xs'"
      "start_task rows_store (ideal_region g xs (pre @ [])) tran program c = Some (ideal_region g' xs' [], out)"
    using txn_task.start_task_refines [OF assms(1,3)] by blast
  have "\<forall>fid \<in> others (g_fct g) F. view xs' fid = view xs fid"
    using confined.start_task_keeps [OF _ _ _ 1(2), of "g_fct g" F "view xs"] assms(2)
    by (simp add: ideal_region_def)
  then show ?thesis using 1(1) assms(4) by (auto simp: others_def)
qed

theorem files_confined_witness:
  "\<exists>env xs'. demo_open env \<and> store_idle bincode env xs' \<and> view xs' 1 = view [] 1"
proof -
  obtain env where e: "demo_open env" by (rule demo_open)
  have i: "store_idle bincode (g_env (demo_region env)) []" "programs_within {''A''} True (g_programs (demo_region env))"
      "\<forall>file\<in>{''A''}. files (g_fct (demo_region env)) file \<noteq> Some 1"
    using demo_store(1) [OF e] demo_within(2) by (simp_all add: demo_region_def demo_fct_def)
  from files_confined [OF i(1,2) demo_start_task [OF e] i(3)] show ?thesis using e by (auto simp: demo_region_def)
qed

text \<open>C33: A SYNCPOINT whose commit fails gives the program the error but leaves the task without a
  transaction: a program that goes on after the error panics at its next file command,
  syncpoint or rollback, instead of getting an error.\<close>

theorem failed_syncpoint_strands:
  assumes "task_syncpoint S t = Some (Inl er, t')"
  shows "k_txn t' = None \<and> task_read S fct t' file key = None \<and> task_write S fct t' file key data = None \<and>
    task_rewrite S fct t' file key data = None \<and> task_delete S fct t' file key = None \<and>
    task_browse S fct t' file start limit = None \<and> task_syncpoint S t' = None \<and> task_rollback S t' = None"
proof -
  obtain w e r where c: "k_txn t = Some w" "s_commit S (k_env t) w = Some (e, r)"
    using assms by (auto simp: task_syncpoint_def bind_eq_Some_conv)
  have "k_txn t' = None"
    using assms c by (cases r) (auto simp: task_syncpoint_def bind_eq_Some_conv)
  then show ?thesis
    by (simp add: task_read_def task_write_def task_rewrite_def task_delete_def task_browse_def
        task_syncpoint_def task_rollback_def)
qed

text \<open>A transaction on a file whose next sync fails.\<close>

definition demo_failing :: environment where
  "demo_failing = \<lparr>e_pager = open_file 50 [False] [], e_committed = initial_meta, e_writer = True, e_readers = []\<rparr>"

theorem failed_syncpoint_strands_witness:
  "\<exists>t'. task_syncpoint (txn_store bincode) \<lparr>k_env = demo_failing, k_txn = Some demo_first, k_starts = []\<rparr> =
      Some (Inl (Io SyncFailed), t') \<and> task_read (txn_store bincode) demo_fct t' ''A'' [7] = None"
proof -
  let ?t = "\<lparr>k_env = demo_failing, k_txn = Some demo_first, k_starts = []\<rparr>"
  obtain e where c: "commit bincode demo_failing demo_first = Some (e, Inl SyncFailed)"
    by (simp add: commit_def commit_pages_def demo_failing_def demo_first_def initial_meta_def freed_entries_def
        store_def chunks.simps store_chunks.simps sync_data_def open_file_def u64_max_def Let_def)
  then have s: "task_syncpoint (txn_store bincode) ?t = Some (Inl (Io SyncFailed), ?t\<lparr>k_env := e, k_txn := None\<rparr>)"
    by (simp add: task_syncpoint_def txn_store_def)
  from failed_syncpoint_strands [OF this] s show ?thesis by blast
qed

text \<open>A program that writes a record and starts two more tasks, the second of which writes another one.\<close>

definition demo_starts :: program_manager where
  "demo_starts = [
     ''P'' \<mapsto> \<lambda>b c. Write ''A'' [1] [1] (try_else (\<lambda>_. Start ''T'' ''Q'' None (Start ''T'' ''R'' None
       (Finish (Inr (Return (Some [7]))))))),
     ''Q'' \<mapsto> \<lambda>b c. Finish (Inr (Return None)),
     ''R'' \<mapsto> \<lambda>b c. Write ''A'' [2] [2] (try_else (\<lambda>_. Finish (Inr (Return None))))]"

end
