(* ===== verification/Region_Total.thy ===== *)
theory Region_Total
  imports Region_Sim Budget Region_Props
begin

text \<open>
  A region over the B-tree store does not panic: the reference is a store that counts. It
  keeps plain sorted lists and a number of puts, deletes and commits left, and takes keys of
  at most 60 bytes and values of at most \<open>V\<close> overflow pages. Whatever a region does over it
  within the count, it does over the B-tree store with enough pages (\<open>budget\<close>).
\<close>

section \<open>A store that counts\<close>

record metered =
  mt_rows :: rows
  mt_left :: nat

definition spend :: "metered \<Rightarrow> metered option" where
  "spend e = (if mt_left e = 0 then None else Some (e\<lparr>mt_left := mt_left e - 1\<rparr>))"

definition metered_store :: "nat \<Rightarrow> (metered, rows) store_ops" where
  "metered_store V =
     \<lparr>s_begin = (\<lambda>e. Some (mt_rows e, e)), s_get = (\<lambda>e w k. Some (map_of w k)),
      s_range = (\<lambda>e w lo hi. Some (select lo hi w)),
      s_put = (\<lambda>e w k v. if length k \<le> KEY_CAP \<and> value_pages v \<le> V
        then do { e' \<leftarrow> spend e; Some (ins k v w, e') } else None),
      s_delete = (\<lambda>e w k. do { e' \<leftarrow> spend e; Some (map_of w k \<noteq> None, del k w, e') }),
      s_commit = (\<lambda>e w. do { e' \<leftarrow> spend e; Some (e'\<lparr>mt_rows := w\<rparr>, Inr ()) }),
      s_rollback = (\<lambda>e w. e)\<rparr>"

lemma spend_Some: "spend e = Some e' \<longleftrightarrow> (\<exists>n. mt_left e = Suc n \<and> e' = e\<lparr>mt_left := n\<rparr>)"
  by (cases "mt_left e") (auto simp: spend_def)

lemma metered_store_simps [simp]:
  "s_begin (metered_store V) e = Some (mt_rows e, e)" "s_get (metered_store V) e w k = Some (map_of w k)"
  "s_range (metered_store V) e w lo hi = Some (select lo hi w)"
  "s_put (metered_store V) e w k v = (if length k \<le> KEY_CAP \<and> value_pages v \<le> V
     then do { e' \<leftarrow> spend e; Some (ins k v w, e') } else None)"
  "s_delete (metered_store V) e w k = do { e' \<leftarrow> spend e; Some (map_of w k \<noteq> None, del k w, e') }"
  "s_commit (metered_store V) e w = do { e' \<leftarrow> spend e; Some (e'\<lparr>mt_rows := w\<rparr>, Inr ()) }"
  "s_rollback (metered_store V) e w = e"
  by (simp_all add: metered_store_def)

text \<open>It is a store as good as any other: the laws of \<open>task_store\<close> hold of it.\<close>

interpretation metered_task: task_store "metered_store V"
  "\<lambda>e xs. mt_rows e = xs \<and> sorted_wrt (<) (map fst xs)"
  "\<lambda>e w xs ys. mt_rows e = xs \<and> w = ys \<and> sorted_wrt (<) (map fst xs) \<and> sorted_wrt (<) (map fst ys)" for V
  by unfold_locales (auto simp: spend_Some sorted_ins sorted_del bind_eq_Some_conv split: if_splits)

section \<open>The B-tree store with pages to spare does as much\<close>

text \<open>The data of the store, none of its syncs having failed, and its writer with its data.\<close>

definition solid :: "lib \<Rightarrow> environment \<Rightarrow> rows \<Rightarrow> (write_txn \<times> rows) option \<Rightarrow> bool" where
  "solid L env xs ow \<longleftrightarrow> lib_ok L \<and>
     (\<exists>rs snaps. sim L \<lparr>y_env = env, y_readers = rs, y_writer = map_option fst ow, y_synced = True\<rparr>
        \<lparr>d_data = xs, d_snaps = snaps, d_work = map_option snd ow\<rparr>)"

lemma solid_idle: "solid L env xs None \<Longrightarrow> store_idle L env xs"
  by (auto simp: solid_def store_idle_def)

lemma solid_busy: "solid L env xs (Some (w, ys)) \<Longrightarrow> store_busy L env w xs ys"
  by (auto simp: solid_def store_busy_def)

lemma solid_step:
  assumes "solid L env xs ow"
    and "\<And>rs. sys_step L \<lparr>y_env = env, y_readers = rs, y_writer = map_option fst ow, y_synced = True\<rparr> a =
      Some (\<lparr>y_env = env', y_readers = rs, y_writer = w', y_synced = True\<rparr>, out)"
    and "\<And>snaps d'. db_step \<lparr>d_data = xs, d_snaps = snaps, d_work = map_option snd ow\<rparr> a out = Some d' \<Longrightarrow>
      d' = \<lparr>d_data = xs', d_snaps = snaps, d_work = map_option snd ow'\<rparr>"
    and "w' = map_option fst ow'"
  shows "solid L env' xs' ow'"
proof -
  obtain rs snaps where L: "lib_ok L" and
      s: "sim L \<lparr>y_env = env, y_readers = rs, y_writer = map_option fst ow, y_synced = True\<rparr>
        \<lparr>d_data = xs, d_snaps = snaps, d_work = map_option snd ow\<rparr>"
    using assms(1) by (auto simp: solid_def)
  from sim_step [OF L s assms(2)] show ?thesis using L assms(3,4) unfolding solid_def by blast
qed

definition at_rest :: "lib \<Rightarrow> nat \<Rightarrow> nat \<Rightarrow> metered \<Rightarrow> environment \<Rightarrow> bool" where
  "at_rest L H V e env \<longleftrightarrow> solid L env (mt_rows e) None \<and> budget L H (V + 2 * H + 1) (mt_left e) env None"

definition at_work :: "lib \<Rightarrow> nat \<Rightarrow> nat \<Rightarrow> metered \<Rightarrow> rows \<Rightarrow> environment \<Rightarrow> write_txn \<Rightarrow> bool" where
  "at_work L H V e ys env w \<longleftrightarrow>
     solid L env (mt_rows e) (Some (w, ys)) \<and> budget L H (V + 2 * H + 1) (mt_left e) env (Some w)"

lemma at_work_put:
  assumes "at_work L H V e ys env w" "s_put (metered_store V) e ys k v = Some (ys', e')"
  shows "\<exists>w' env'. write_put L env w k v = Some (w', env') \<and> at_work L H V e' ys' env' w'"
proof -
  have a: "solid L env (mt_rows e) (Some (w, ys))" "budget L H (V + 2 * H + 1) (mt_left e) env (Some w)"
    using assms(1) by (simp_all add: at_work_def)
  obtain n where n: "length k \<le> KEY_CAP" "value_pages v \<le> V" "mt_left e = Suc n" "e' = e\<lparr>mt_left := n\<rparr>" "ys' = ins k v ys"
    using assms(2) by (auto simp: spend_Some bind_eq_Some_conv split: if_splits)
  have L: "lib_ok L" using a(1) by (simp add: solid_def)
  obtain w' env' where p: "write_put L env w k v = Some (w', env')" "budget L H (V + 2 * H + 1) n env' (Some w')"
    using budget_put [OF L a(2) [unfolded n(3)] n(1), of v] n(2) by auto
  have "solid L env' (mt_rows e) (Some (w', ins k v ys))"
    by (rule solid_step [OF a(1), of "WritePut k v"]) (use p(1) in auto)
  then show ?thesis using p n(4,5) by (simp add: at_work_def)
qed

lemma at_work_delete:
  assumes "at_work L H V e ys env w" "s_delete (metered_store V) e ys k = Some (b, ys', e')"
  shows "\<exists>w' env'. write_delete L env w k = Some (b, w', env') \<and> at_work L H V e' ys' env' w'"
proof -
  have a: "solid L env (mt_rows e) (Some (w, ys))" "budget L H (V + 2 * H + 1) (mt_left e) env (Some w)"
    using assms(1) by (simp_all add: at_work_def)
  obtain n where n: "mt_left e = Suc n" "e' = e\<lparr>mt_left := n\<rparr>" "ys' = del k ys" "b = (map_of ys k \<noteq> None)"
    using assms(2) by (auto simp: spend_Some bind_eq_Some_conv)
  have L: "lib_ok L" using a(1) by (simp add: solid_def)
  obtain x w' env' where p: "write_delete L env w k = Some (x, w', env')" "budget L H (V + 2 * H + 1) n env' (Some w')"
    using budget_delete [OF a(2) [unfolded n(1)] _ L, of k] by auto
  have "x = b" using txn_task.delete_ok [OF solid_busy [OF a(1)], of k x w' env'] p(1) n(4) by (simp add: txn_store_def)
  moreover have "solid L env' (mt_rows e) (Some (w', del k ys))"
    by (rule solid_step [OF a(1), of "WriteDelete k"]) (use p(1) in \<open>auto split: if_splits\<close>)
  ultimately show ?thesis using p n(2,3) by (simp add: at_work_def)
qed

lemma at_work_commit:
  assumes "at_work L H V e ys env w" "s_commit (metered_store V) e ys = Some (e', r)"
  shows "\<exists>env'. commit L env w = Some (env', r) \<and> at_rest L H V e' env'"
proof -
  have a: "solid L env (mt_rows e) (Some (w, ys))" "budget L H (V + 2 * H + 1) (mt_left e) env (Some w)"
    using assms(1) by (simp_all add: at_work_def)
  obtain n where n: "mt_left e = Suc n" "e' = e\<lparr>mt_left := n, mt_rows := ys\<rparr>" "r = Inr ()"
    using assms(2) by (auto simp: spend_Some bind_eq_Some_conv)
  have L: "lib_ok L" using a(1) by (simp add: solid_def)
  obtain env' where c: "commit L env w = Some (env', Inr ())" "budget L H (V + 2 * H + 1) n env' None"
    using budget_commit [OF L a(2) [unfolded n(1)]] by auto
  have "solid L env' ys None"
    by (rule solid_step [OF a(1), of Commit]) (use c(1) in auto)
  then show ?thesis using c n(2,3) by (simp add: at_rest_def)
qed

lemma at_rest_begin:
  assumes "at_rest L H V e env"
  shows "\<exists>w env'. begin_write L env = Some (w, env') \<and> at_work L H V e (mt_rows e) env' w"
proof -
  have a: "solid L env (mt_rows e) None" "budget L H (V + 2 * H + 1) (mt_left e) env None"
    using assms by (simp_all add: at_rest_def)
  obtain w env' where w: "begin_write L env = Some (w, env')"
    using txn_task.begin_ok [OF solid_idle [OF a(1)]] by (auto simp: txn_store_def)
  have "solid L env' (mt_rows e) (Some (w, mt_rows e))"
    by (rule solid_step [OF a(1), of BeginWrite]) (use w in auto)
  then show ?thesis using w budget_begin [OF a(2) w] by (simp add: at_work_def)
qed

lemma at_work_rollback: "at_work L H V e ys env w \<Longrightarrow> at_rest L H V e (rollback env w)"
  by (auto simp: at_work_def at_rest_def budget_rollback intro: solid_step [of _ _ _ _ Rollback])

interpretation txn_total: store_simulation "metered_store V" "txn_store L" "at_rest L H V" "at_work L H V" for V L H
proof
  fix e ys env w k lo hi
  assume "at_work L H V e ys env w"
  then have b: "store_busy L env w (mt_rows e) ys" by (simp add: at_work_def solid_busy)
  show "s_get (metered_store V) e ys k = s_get (txn_store L) env w k"
    "s_range (metered_store V) e ys lo hi = s_range (txn_store L) env w lo hi"
    using txn_task.get_ok [OF b] txn_task.range_ok [OF b] by simp_all
qed (use at_work_put at_work_delete at_work_commit at_rest_begin at_work_rollback
  in \<open>auto simp: txn_store_def\<close>)

lemma at_rest_fresh:
  assumes "lib_ok L" "lib_sizes L" "open_env L lim [] None = Some (Inr env)" "lim \<le> 2 ^ 52" "n \<le> H"
    "pages_after (V + 2 * H + 1) n 2 \<le> lim"
  shows "at_rest L H V \<lparr>mt_rows = [], mt_left = n\<rparr> env"
proof -
  have "solid L env [] None"
    using open_new_sim [OF assms(1,3)] assms(1) by (auto simp: solid_def fresh_sys_def fresh_db_def)
  then show ?thesis using budget_fresh [OF assms] by (simp add: at_rest_def)
qed

text \<open>An idle store that is dropped and opened again, with no crash, on the same disk.\<close>

lemma at_rest_reopen:
  assumes "at_rest L H V e env"
  obtains env' where "open_env L (p_limit (e_pager env)) (p_syncs (e_pager env)) (Some (p_file (e_pager env))) = Some (Inr env')"
    "at_rest L H V e env'"
proof -
  let ?p = "e_pager env" and ?m = "e_committed env"
  let ?q = "(open_file (p_limit ?p) (p_syncs ?p) (p_file ?p))\<lparr>active_meta_slot := active_meta_slot ?p\<rparr>"
  let ?env = "\<lparr>e_pager = ?q, e_committed = ?m, e_writer = False, e_readers = []\<rparr>"
  have a: "solid L env (mt_rows e) None" "budget L H (V + 2 * H + 1) (mt_left e) env None"
    using assms by (simp_all add: at_rest_def)
  obtain rs snaps where L: "lib_ok L" and s: "sim L \<lparr>y_env = env, y_readers = rs, y_writer = None, y_synced = True\<rparr>
      \<lparr>d_data = mt_rows e, d_snaps = snaps, d_work = None\<rparr>"
    using a(1) by (auto simp: solid_def)
  obtain ot "is" es where d: "contents ot = mt_rows e" "durable L ?p ?m ot is es"
    by (rule simE [OF s]) auto
  have "crash L ?p (p_file ?p)"
    using d(2) torn_all by (auto simp: crash_def durable_def)
  note c = durable_crash [OF d(2) this, of "p_limit ?p" "p_syncs ?p"]
  have "open_env L (p_limit ?p) (p_syncs ?p) (Some (p_file ?p)) = Some (Inr ?env)"
    by (simp add: open_env_def c(1))
  moreover have "solid L ?env (mt_rows e) None"
    using sim_fresh [of L ?env ot "is" es "mt_rows e"] c(2) d(1) L by (auto simp: solid_def fresh_sys_def fresh_db_def)
  moreover have "trees L Q ?env None" if "trees L Q env None" for Q
    using that committed_same_file [of L ?p ?m _ _ _ ?q] by (fastforce simp: trees_None slot_ok_def open_file_def)
  then have "budget L H (V + 2 * H + 1) (mt_left e) ?env None"
    using a(2) by (simp add: budget_def pages_used_def open_file_def)
  ultimately show thesis by (intro that) (simp_all add: at_rest_def)
qed

section \<open>Regions\<close>

text \<open>C39: A region does not panic and always ends when a run over plain sorted lists does: if a task, with
  all it starts, returns over a list that counts its puts, deletes and commits, and allows no
  more than the disk has pages for, keys of at most 60 bytes and values of at most V pages, then it
  returns over the B-tree store with the same result, the same task numbers and the same
  rows, and what is left of the count is still good for what comes next.\<close>

theorem region_total:
  assumes "at_rest L H V (g_env r) (g_env g)"
    "start_task (metered_store V) r tran program c = Some (r', out)" "region_over (g_env g) r = g"
  shows "\<exists>g'. start_task (txn_store L) g tran program c = Some (g', out) \<and> region_over (g_env g') r' = g' \<and>
    at_rest L H V (g_env r') (g_env g') \<and> store_idle L (g_env g') (mt_rows (g_env r'))"
proof -
  obtain env' where "start_task (txn_store L) g tran program c = Some (region_over env' r', out)"
      "at_rest L H V (g_env r') env'"
    using txn_total.start_task_sim [OF assms(1,2)] assms(3) by auto
  then show ?thesis by (auto simp: at_rest_def solid_idle)
qed

text \<open>A program that writes a record and starts two more, on a new store of 100 pages.\<close>

definition demo_counted :: "'e \<Rightarrow> 'e region" where
  "demo_counted e = \<lparr>g_env = e, g_programs = demo_starts, g_fct = demo_fct, g_task_ids = 1\<rparr>"

lemma region_over_counted [simp]: "region_over f (demo_counted e) = demo_counted f"
  by (simp add: region_over_def demo_counted_def)

lemma demo_counted_run:
  "start_task (metered_store 0) (demo_counted \<lparr>mt_rows = [], mt_left = 5\<rparr>) ''T'' ''P'' None =
    Some ((demo_counted \<lparr>mt_rows = [(storage_key 0 [1], [1]), (storage_key 0 [2], [2])], mt_left = 0\<rparr>)\<lparr>g_task_ids := 4\<rparr>,
      Inr (Some [7]))"
proof -
  let ?k = "\<lambda>i. storage_key 0 [i]"
  have lt: "?k 1 < ?k 2" by (simp add: storage_key_less)
  have short: "length (?k i) \<le> KEY_CAP" "value_pages [i] \<le> 0" for i
    by (simp_all add: storage_key_def value_pages_def INLINE_VALUE_LIMIT_def)
  have p: "run_task (metered_store 0) demo_starts demo_fct 1 \<lparr>ps_tranid = ''T'', ps_program = ''P'', ps_commarea = None\<rparr> []
      \<lparr>mt_rows = [], mt_left = 5\<rparr> =
    Some (Inr (Some [7]), [\<lparr>ps_tranid = ''T'', ps_program = ''Q'', ps_commarea = None\<rparr>,
        \<lparr>ps_tranid = ''T'', ps_program = ''R'', ps_commarea = None\<rparr>], \<lparr>mt_rows = [(?k 1, [1])], mt_left = 3\<rparr>, Inr ())"
    using short
    by (simp add: run_task_def run_program_loop.simps demo_starts_def resolve_program_def task_write_def
        exec_write_def demo_resolve task_start_def end_task_def ins_def spend_def)
  have q: "run_task (metered_store 0) demo_starts demo_fct 2 \<lparr>ps_tranid = ''T'', ps_program = ''Q'', ps_commarea = None\<rparr>
      [\<lparr>ps_tranid = ''T'', ps_program = ''R'', ps_commarea = None\<rparr>] \<lparr>mt_rows = [(?k 1, [1])], mt_left = 3\<rparr> =
    Some (Inr None, [\<lparr>ps_tranid = ''T'', ps_program = ''R'', ps_commarea = None\<rparr>],
      \<lparr>mt_rows = [(?k 1, [1])], mt_left = 2\<rparr>, Inr ())"
    by (simp add: run_task_def run_program_loop.simps demo_starts_def resolve_program_def end_task_def
        spend_def)
  have r: "run_task (metered_store 0) demo_starts demo_fct 3 \<lparr>ps_tranid = ''T'', ps_program = ''R'', ps_commarea = None\<rparr>
      [] \<lparr>mt_rows = [(?k 1, [1])], mt_left = 2\<rparr> =
    Some (Inr None, [], \<lparr>mt_rows = [(?k 1, [1]), (?k 2, [2])], mt_left = 0\<rparr>, Inr ())"
    using short lt not_less_iff_gr_or_eq [of "?k 2" "?k 1"]
    by (simp add: Let_def run_task_def run_program_loop.simps demo_starts_def resolve_program_def task_write_def
        exec_write_def demo_resolve end_task_def ins_def spend_def)
  show ?thesis
    by (simp add: start_task_def demo_counted_def dispatch.simps next_task_id_def p q r)
qed

text \<open>The same over the B-tree store.\<close>

lemma demo_counted_start:
  obtains env env' where "open_env bincode 100 [] None = Some (Inr env)"
    "start_task (txn_store bincode) (demo_counted env) ''T'' ''P'' None =
      Some ((demo_counted env')\<lparr>g_task_ids := 4\<rparr>, Inr (Some [7]))"
    "store_idle bincode env []" "store_idle bincode env' [(storage_key 0 [1], [1]), (storage_key 0 [2], [2])]"
proof -
  obtain env where e: "open_env bincode 100 [] None = Some (Inr env)"
    by (rule open_new_total [OF lib_ok_bincode lib_sizes_bincode, of 100]) auto
  let ?e = "\<lparr>mt_rows = [], mt_left = 5\<rparr>"
  have "pages_after (0 + 2 * 5 + 1) 5 2 \<le> 100" by simp
  then have r: "at_rest bincode 5 0 (g_env (demo_counted ?e)) env"
    using at_rest_fresh [OF lib_ok_bincode lib_sizes_bincode e, of 5 5 0] by (simp add: demo_counted_def)
  obtain env' where "start_task (txn_store bincode) (demo_counted env) ''T'' ''P'' None =
      Some ((demo_counted env')\<lparr>g_task_ids := 4\<rparr>, Inr (Some [7]))"
      "at_rest bincode 5 0 \<lparr>mt_rows = [(storage_key 0 [1], [1]), (storage_key 0 [2], [2])], mt_left = 0\<rparr> env'"
    using txn_total.start_task_sim [OF r demo_counted_run] by (auto simp: region_over_def demo_counted_def)
  then show thesis using that e r by (auto simp: at_rest_def solid_idle demo_counted_def dest: solid_idle)
qed

theorem region_total_witness:
  "\<exists>env env'. open_env bincode 100 [] None = Some (Inr env) \<and>
    start_task (txn_store bincode) (demo_counted env) ''T'' ''P'' None =
      Some ((demo_counted env')\<lparr>g_task_ids := 4\<rparr>, Inr (Some [7])) \<and>
    store_idle bincode env' [(storage_key 0 [1], [1]), (storage_key 0 [2], [2])]"
proof -
  obtain env where e: "open_env bincode 100 [] None = Some (Inr env)"
    by (rule open_new_total [OF lib_ok_bincode lib_sizes_bincode, of 100]) auto
  let ?e = "\<lparr>mt_rows = [], mt_left = 5\<rparr>"
  have "pages_after (0 + 2 * 5 + 1) 5 2 \<le> 100" by simp
  then have "at_rest bincode 5 0 (g_env (demo_counted ?e)) (g_env (demo_counted env))"
    using at_rest_fresh [OF lib_ok_bincode lib_sizes_bincode e, of 5 5 0] by (simp add: demo_counted_def)
  from region_total [OF this demo_counted_run] have
    "\<exists>g'. start_task (txn_store bincode) (demo_counted env) ''T'' ''P'' None = Some (g', Inr (Some [7])) \<and>
      region_over (g_env g') ((demo_counted \<lparr>mt_rows = [(storage_key 0 [1], [1]), (storage_key 0 [2], [2])], mt_left = 0\<rparr>)
        \<lparr>g_task_ids := 4\<rparr>) = g' \<and>
      store_idle bincode (g_env g') [(storage_key 0 [1], [1]), (storage_key 0 [2], [2])]"
    by (simp add: demo_counted_def region_over_def) blast
  then obtain g' where
    g: "start_task (txn_store bincode) (demo_counted env) ''T'' ''P'' None = Some (g', Inr (Some [7]))"
      "region_over (g_env g') ((demo_counted \<lparr>mt_rows = [(storage_key 0 [1], [1]), (storage_key 0 [2], [2])], mt_left = 0\<rparr>)
        \<lparr>g_task_ids := 4\<rparr>) = g'"
      "store_idle bincode (g_env g') [(storage_key 0 [1], [1]), (storage_key 0 [2], [2])]"
    by blast
  have "g' = (demo_counted (g_env g'))\<lparr>g_task_ids := 4\<rparr>"
    by (subst g(2) [symmetric]) (simp add: region_over_def demo_counted_def)
  with e g show ?thesis by metis
qed

end
