(* ===== verification/Sync_Fault.thy ===== *)
theory Sync_Fault
  imports File_Props
begin

text \<open>
  What a failed sync of the meta page leaves. \<open>write_meta_slot\<close> has written the page when the
  sync fails, so \<open>commit\<close> reports an error while the file has the new meta page, in memory
  and perhaps on the disk; the committed meta page of the environment is still the old one,
  and the next writer hands out the pages of the tree that the new one points to.
\<close>

section \<open>A store whose fourth sync fails\<close>

definition fault_pager :: "bytes list \<Rightarrow> bytes list \<Rightarrow> (page_id \<times> bytes) list \<Rightarrow> bool list \<Rightarrow> pager" where
  "fault_pager f g ws syncs = \<lparr>p_file = f, p_durable = g, p_pending = ws, p_limit = 50, p_syncs = syncs, active_meta_slot = 0\<rparr>"

definition fault_env :: "pager \<Rightarrow> environment" where
  "fault_env p = \<lparr>e_pager = p, e_committed = initial_meta, e_writer = False, e_readers = []\<rparr>"

abbreviation new_meta :: meta where
  "new_meta \<equiv> advance initial_meta (Some 2) 3 None"

abbreviation one_record :: "byte \<Rightarrow> node" where
  "one_record v \<equiv> Leaf [[1]] [Inline [v]]"

lemma fault_bufs:
  obtains m0 m1 b where "encode_meta bincode initial_meta = Some m0" "encode_meta bincode new_meta = Some m1"
    "\<And>v. encode_node bincode (one_record v) = Some (b v)"
proof -
  have "\<exists>buf. encode_node bincode (one_record v) = Some buf" for v
    using encode_fits(2) [OF lib_ok_bincode lib_sizes_bincode, of "one_record v"] by (simp add: encode_node_def)
  then obtain b where "\<And>v. encode_node bincode (one_record v) = Some (b v)" by metis
  then show thesis
    using that encode_meta_page [OF lib_ok_bincode lib_sizes_bincode] unfolding encode_meta_def by metis
qed

lemma fault_open:
  assumes "encode_meta bincode initial_meta = Some m0"
  shows "open_env bincode 50 [True, True, True, False] None =
    Some (Inr (fault_env (fault_pager [m0, m0] [m0, m0] [] [True, False])))"
  using assms
  by (simp add: open_env_def open_pager_def write_meta_slot_def write_page_def sync_data_def open_file_def Let_def
      file_write_def fault_env_def fault_pager_def)

text \<open>A transaction on it that puts the record, up to its commit.\<close>

lemma fault_put:
  assumes "p = fault_pager f g ws syncs"
  shows "run (sys_step bincode) \<lparr>y_env = fault_env p, y_readers = [], y_writer = None, y_synced = b\<rparr>
      [BeginWrite, WritePut [1] [v]] =
    Some (\<lparr>y_env = (fault_env p)\<lparr>e_writer := True\<rparr>, y_readers = [], y_writer = Some (demo_put [1] [v]), y_synced = b\<rparr>,
      [Done, Done])"
proof -
  have "begin_write bincode (fault_env p) = Some (demo_first, (fault_env p)\<lparr>e_writer := True\<rparr>)"
    by (simp add: fault_env_def begin_write_def initial_meta_def META_PAGE_COUNT_def load_def demo_first_def
        load_loop.simps oldest_reader_txn_id_def Let_def)
  moreover have "write_put bincode ((fault_env p)\<lparr>e_writer := True\<rparr>) demo_first [1] [v] =
      Some (demo_put [1] [v], (fault_env p)\<lparr>e_writer := True\<rparr>)"
    by (simp add: write_put_def btree_put_def store_value_def INLINE_VALUE_LIMIT_def alloc_def
        txn_ctx_def put_node_def put_ctx_def demo_first_def demo_put_def u64_max_def)
  ultimately show ?thesis by simp
qed

lemma fault_commit_pages:
  assumes "encode_node bincode (one_record v) = Some nb"
  shows "commit_pages bincode ((fault_env (fault_pager f g ws syncs))\<lparr>e_writer := True\<rparr>) (demo_put [1] [v]) =
    Some (fault_pager (file_write f 2 nb) g (ws @ [(2, nb)]) syncs, Inr new_meta)"
  using assms
  by (simp add: commit_pages_def demo_put_def demo_first_def write_page_def fault_pager_def fault_env_def Let_def
      initial_meta_def u64_max_def store_def freed_entries_def chunks.simps store_chunks.simps)

lemma fault_commit:
  assumes "encode_node bincode (one_record v) = Some nb" "encode_meta bincode new_meta = Some m1"
  shows "commit bincode ((fault_env (fault_pager f g ws [True, False]))\<lparr>e_writer := True\<rparr>) (demo_put [1] [v]) =
    Some (fault_env (fault_pager (file_write (file_write f 2 nb) 1 m1) (file_write f 2 nb) [(1, m1)] []), Inl SyncFailed)"
  using fault_commit_pages [OF assms(1), of f g ws "[True, False]"] assms(2)
  by (simp add: commit_def commit_meta_def write_meta_slot_def write_page_def sync_data_def fault_pager_def fault_env_def Let_def)

lemma fault_reopen:
  assumes "encode_meta bincode initial_meta = Some m0" "encode_meta bincode new_meta = Some m1"
    "encode_node bincode (one_record v) = Some nb"
  shows "\<exists>env. open_env bincode 50 [] (Some [m0, m1, nb]) = Some (Inr env) \<and> txn_id (e_committed env) = 1 \<and>
    first_rows bincode env = Some [([1], [v])]"
proof -
  have m: "magic initial_meta = MAGIC" "magic new_meta = MAGIC" by (simp_all add: initial_meta_def advance_def)
  have "read_meta_slot bincode [m0, m1, nb] 0 = Some initial_meta"
    using read_meta_slot_write [OF lib_ok_bincode assms(1) m(1), of "[m1, m1, nb]" 0] by (simp add: file_write_def)
  moreover have "read_meta_slot bincode [m0, m1, nb] 1 = Some new_meta"
    using read_meta_slot_write [OF lib_ok_bincode assms(2) m(2), of "[m0, m0, nb]" 1] by (simp add: file_write_def)
  ultimately have o: "open_env bincode 50 [] (Some [m0, m1, nb]) =
      Some (Inr \<lparr>e_pager = (open_file 50 [] [m0, m1, nb])\<lparr>active_meta_slot := 1\<rparr>, e_committed = new_meta,
        e_writer = False, e_readers = []\<rparr>)"
    by (simp add: open_env_def open_pager_def choose_meta_def advance_def initial_meta_def)
  have "read_node bincode ((open_file 50 [] [m0, m1, nb])\<lparr>active_meta_slot := 1\<rparr>) [] 2 = Some (one_record v)"
    using decode_encode_laws(2) [OF lib_ok_bincode assms(3) [unfolded encode_node_def]]
    by (simp add: read_node_def read_page_def file_read_def get_at_def open_file_def)
  then show ?thesis
    using o by (simp add: first_rows_def begin_read_def register_reader_def read_range_def btree_range_def
        collect.simps in_range_def advance_def initial_meta_def)
qed

text \<open>C15: A failed sync can break atomicity. The first transaction's commit fails: its meta page is
  written and the sync reports an error. The second transaction reuses the page of the
  first one's tree. When the system stops inside the second commit, before that writes its
  own meta page, the file opens with the meta page of the first transaction over the data
  of the second: data that was never committed, and that no state of the store ever had.\<close>

theorem failed_sync_exposes:
  "\<exists>env s1 s2 w q env'. open_env bincode 50 [True, True, True, False] None = Some (Inr env) \<and>
    run (sys_step bincode) (fresh_sys env) [BeginWrite, WritePut [1] [10], Commit] =
      Some (s1, [Done, Done, Failed SyncFailed]) \<and>
    run (sys_step bincode) s1 [BeginWrite, WritePut [1] [20]] = Some (s2, [Done, Done]) \<and>
    y_writer s2 = Some w \<and> q \<in> set (commit_points bincode (y_env s2) w) \<and> crash bincode q (p_durable q) \<and>
    encode_meta bincode (e_committed (y_env s2)) = Some (p_durable q ! 0) \<and> txn_id (e_committed (y_env s2)) = 0 \<and>
    open_env bincode 50 [] (Some (p_durable q)) = Some (Inr env') \<and> txn_id (e_committed env') = 1 \<and>
    first_rows bincode env' = Some [([1], [20])]"
proof -
  obtain m0 m1 b where enc: "encode_meta bincode initial_meta = Some m0" "encode_meta bincode new_meta = Some m1"
      "\<And>v. encode_node bincode (one_record v) = Some (b v)"
    by (rule fault_bufs) blast
  let ?p0 = "fault_pager [m0, m0] [m0, m0] [] [True, False]"
  let ?p1 = "fault_pager [m0, m1, b 10] [m0, m0, b 10] [(1, m1)] []"
  let ?s1 = "\<lparr>y_env = fault_env ?p1, y_readers = [], y_writer = None, y_synced = False\<rparr>"
  let ?e2 = "(fault_env ?p1)\<lparr>e_writer := True\<rparr>" and ?w = "demo_put [1] [20]"
  let ?q = "fault_pager [m0, m1, b 20] [m0, m1, b 20] [] []"
  have c: "commit bincode ((fault_env ?p0)\<lparr>e_writer := True\<rparr>) (demo_put [1] [10]) = Some (fault_env ?p1, Inl SyncFailed)"
    using fault_commit [OF enc(3) [of 10] enc(2), of "[m0, m0]" "[m0, m0]" "[]"] by (simp add: file_write_def)
  note put = fault_put [OF refl, of "[m0, m0]" "[m0, m0]" "[]" "[True, False]" True 10]
  have step: "sys_step bincode \<lparr>y_env = (fault_env ?p0)\<lparr>e_writer := True\<rparr>, y_readers = [],
      y_writer = Some (demo_put [1] [10]), y_synced = True\<rparr> Commit = Some (?s1, Failed SyncFailed)"
    using c by simp
  have 1: "run (sys_step bincode) (fresh_sys (fault_env ?p0)) [BeginWrite, WritePut [1] [10], Commit] =
      Some (?s1, [Done, Done, Failed SyncFailed])"
    using run_append [OF put run_single, OF step] unfolding fresh_sys_def by (simp only: append_Cons append_Nil)
  note 2 = fault_put [OF refl, of "[m0, m1, b 10]" "[m0, m0, b 10]" "[(1, m1)]" "[]" False 20]
  have "sync_data (fault_pager (file_write [m0, m1, b 10] 2 (b 20)) [m0, m0, b 10] ([(1, m1)] @ [(2, b 20)]) []) = (?q, Inr ())"
    by (simp add: sync_data_def fault_pager_def file_write_def Let_def)
  then have 3: "?q \<in> set (commit_points bincode ?e2 ?w)"
    using fault_commit_pages [OF enc(3) [of 20], of "[m0, m1, b 10]" "[m0, m0, b 10]" "[(1, m1)]" "[]"] enc(2)
    by (simp add: commit_points_def split: option.split)
  obtain env' where 4: "open_env bincode 50 [] (Some [m0, m1, b 20]) = Some (Inr env')"
      "txn_id (e_committed env') = 1" "first_rows bincode env' = Some [([1], [20])]"
    using fault_reopen [OF enc(1,2) enc(3) [of 20]] by blast
  have 5: "crash bincode ?q (p_durable ?q)"
    unfolding crash_def by (rule exI [of _ "[]"]) (simp add: fault_pager_def torn_Nil)
  have 6: "p_durable ?q = [m0, m1, b 20]" "e_committed ?e2 = initial_meta" "txn_id initial_meta = 0"
    by (simp_all add: fault_pager_def fault_env_def initial_meta_def)
  show ?thesis
    by (rule exI [of _ "fault_env ?p0"], rule exI [of _ ?s1],
        rule exI [of _ "\<lparr>y_env = ?e2, y_readers = [], y_writer = Some ?w, y_synced = False\<rparr>"],
        rule exI [of _ ?w], rule exI [of _ ?q], rule exI [of _ env'], intro conjI)
      (use fault_open [OF enc(1)] 1 2 3 4 5 6 enc(1) in \<open>simp_all del: run.simps\<close>)
qed

end
