(* ===== verification/Task_Queue.thy ===== *)
theory Task_Queue
  imports Region_Total Sync_Fault
begin

text \<open>
  The queue of a region, task by task: what \<open>start_task\<close> returns and leaves, in terms of the
  tasks that have run and of the one whose commit failed, if any.
\<close>

section \<open>Tasks that went through\<close>

text \<open>From a queue, a next task number and a store, some tasks run one after the other, each taken
from the front of the queue, over the store the one before left; none of their commits
fails. The results are listed.\<close>

inductive tasks_run :: "('e, 'w) store_ops \<Rightarrow> program_manager \<Rightarrow> file_control_table \<Rightarrow>
    pending_start list \<Rightarrow> task_id_generator \<Rightarrow> 'e \<Rightarrow> (cics_error + commarea) list \<Rightarrow>
    pending_start list \<Rightarrow> task_id_generator \<Rightarrow> 'e \<Rightarrow> bool" for S P fct where
  NoTask: "tasks_run S P fct q ids e [] q ids e"
| Task: "run_task S P fct ids req rest e = Some (out, q1, e1, Inr ()) \<Longrightarrow>
    tasks_run S P fct q1 (ids + 1) e1 outs q ids' e' \<Longrightarrow>
    tasks_run S P fct (req # rest) ids e (out # outs) q ids' e'"

inductive_cases tasks_run_ConsE: "tasks_run S P fct q ids e (out # outs) q' ids' e'"

inductive_simps tasks_run_Nil: "tasks_run S P fct q ids e [] q' ids' e'"

lemma tasks_run_count: "tasks_run S P fct q ids e outs q' ids' e' \<Longrightarrow> ids' = ids + of_nat (length outs)"
  by (induction rule: tasks_run.induct) simp_all

text \<open>How the dispatcher ends: the queue is empty, or a commit fails.\<close>

definition drained :: "(cics_error + commarea) option \<Rightarrow> (cics_error + commarea) list \<Rightarrow> pending_start list \<Rightarrow>
    task_id_generator \<Rightarrow> 'e \<Rightarrow> task_id_generator \<times> 'e \<times> (cics_error + commarea) \<Rightarrow> bool" where
  "drained o1 outs q ids e y \<longleftrightarrow> q = [] \<and> (\<exists>out. first_of o1 outs = Some out \<and> y = (ids, e, out))"

definition stopped :: "('e, 'w) store_ops \<Rightarrow> program_manager \<Rightarrow> file_control_table \<Rightarrow> pending_start list \<Rightarrow>
    task_id_generator \<Rightarrow> 'e \<Rightarrow> task_id_generator \<times> 'e \<times> (cics_error + commarea) \<Rightarrow> bool" where
  "stopped S P fct q ids e y \<longleftrightarrow>
     (\<exists>req rest out q' e' er. q = req # rest \<and> run_task S P fct ids req rest e = Some (out, q', e', Inl er) \<and>
        y = (ids + 1, e', Inl (Io er)))"

lemma dispatch_ends:
  assumes "tasks_run S P fct q ids e outs q' ids' e'"
    "drained o1 outs q' ids' e' y \<or> stopped S P fct q' ids' e' y"
  shows "dispatch S P fct q o1 ids e = Some y"
  using assms
proof (induction arbitrary: o1 rule: tasks_run.induct)
  case (NoTask q ids e)
  then show ?case
  proof
    assume "drained o1 [] q ids e y"
    then show ?thesis by (auto simp: drained_def dispatch.simps [of S P fct "[]"])
  next
    assume "stopped S P fct q ids e y"
    then show ?thesis by (auto simp: stopped_def dispatch.simps [of S P fct "_ # _"] next_task_id_def)
  qed
next
  case (Task ids req rest e out q1 e1 outs q ids' e')
  have "first_of (first_of o1 [out]) outs = first_of o1 (out # outs)" by simp
  then have "dispatch S P fct q1 (first_of o1 [out]) (ids + 1) e1 = Some y"
    using Task.IH [of "first_of o1 [out]"] Task.prems unfolding drained_def by simp
  then show ?case
    using Task.hyps(1)
    by (auto simp: dispatch.simps [of S P fct "_ # _"] next_task_id_def first_of_def split: option.splits)
qed

lemma dispatch_tasks:
  assumes "dispatch S P fct q o1 ids e = Some y"
  shows "\<exists>outs q' ids' e'. tasks_run S P fct q ids e outs q' ids' e' \<and>
    (drained o1 outs q' ids' e' y \<or> stopped S P fct q' ids' e' y)"
proof (rule dispatch.raw_induct [OF _ assms])
  fix f S P fct q o1 ids e y
  assume IH: "\<And>S P fct q o1 ids e y. f S P fct q o1 ids e = Some y \<Longrightarrow>
      \<exists>outs q' ids' e'. tasks_run S P fct q ids e outs q' ids' e' \<and>
        (drained o1 outs q' ids' e' y \<or> stopped S P fct q' ids' e' y)"
    and s: "(case q of [] \<Rightarrow> do { out \<leftarrow> o1; Some (ids, e, out) }
      | req # rest \<Rightarrow> do {
          let (num, ids') = next_task_id ids;
          (out, queue', e', r) \<leftarrow> run_task S P fct num req rest e;
          case r of Inl er \<Rightarrow> Some (ids', e', Inl (Io er))
          | Inr _ \<Rightarrow> f S P fct queue'
              (case o1 of None \<Rightarrow> Some out | Some first \<Rightarrow> Some first) ids' e' }) = Some y"
  show "\<exists>outs q' ids' e'. tasks_run S P fct q ids e outs q' ids' e' \<and>
      (drained o1 outs q' ids' e' y \<or> stopped S P fct q' ids' e' y)"
  proof (cases q)
    case Nil
    then have "drained o1 [] q ids e y" using s by (auto simp: drained_def bind_eq_Some_conv)
    then show ?thesis
      using tasks_run.NoTask by (intro exI [of _ "[]"] exI [of _ q] exI [of _ ids] exI [of _ e]) auto
  next
    case (Cons req rest)
    then obtain out q1 e1 r where t: "run_task S P fct ids req rest e = Some (out, q1, e1, r)"
      using s by (auto simp: next_task_id_def bind_eq_Some_conv)
    show ?thesis
    proof (cases r)
      case (Inl er)
      then have "stopped S P fct q ids e y" using s t Cons by (auto simp: stopped_def next_task_id_def)
      then show ?thesis
        using tasks_run.NoTask by (intro exI [of _ "[]"] exI [of _ q] exI [of _ ids] exI [of _ e]) auto
    next
      case (Inr u)
      have o: "(case o1 of None \<Rightarrow> Some out | Some first \<Rightarrow> Some first) = first_of o1 [out]"
        by (simp add: first_of_def split: option.split)
      have "f S P fct q1 (first_of o1 [out]) (ids + 1) e1 = Some y"
        using s t Cons Inr by (simp add: next_task_id_def o)
      from IH [OF this] obtain outs q' ids' e' where
        r: "tasks_run S P fct q1 (ids + 1) e1 outs q' ids' e'"
          "drained (first_of o1 [out]) outs q' ids' e' y \<or> stopped S P fct q' ids' e' y"
        by blast
      have "tasks_run S P fct q ids e (out # outs) q' ids' e'"
        unfolding Cons by (rule tasks_run.Task [OF _ r(1)]) (use t Inr in simp)
      moreover have "drained o1 (out # outs) q' ids' e' y \<or> stopped S P fct q' ids' e' y"
        using r(2) by (simp add: drained_def)
      ultimately show ?thesis by blast
    qed
  qed
qed

lemma dispatch_iff:
  "dispatch S P fct q o1 ids e = Some y \<longleftrightarrow>
     (\<exists>outs q' ids' e'. tasks_run S P fct q ids e outs q' ids' e' \<and>
        (drained o1 outs q' ids' e' y \<or> stopped S P fct q' ids' e' y))"
  using dispatch_tasks dispatch_ends by metis

text \<open>A task fails only by its commit, and only when it has ended normally.\<close>

lemma run_task_fails:
  assumes "run_task S P fct ids req q e = Some (out, q', e', Inl er)"
  shows "\<exists>c e2 w. out = Inr c \<and> s_commit S e2 w = Some (e', Inl er)"
proof -
  obtain t where "end_task S out t = Some (e', Inl er)"
    using assms by (auto simp: run_task_def bind_eq_Some_conv)
  then show ?thesis by (cases out; cases "k_txn t") (auto simp: end_task_def)
qed

lemma stopped_fails:
  "stopped S P fct q ids e (ids1, e1, out) \<longleftrightarrow>
     (\<exists>req rest c q' e2 w er. q = req # rest \<and> run_task S P fct ids req rest e = Some (Inr c, q', e1, Inl er) \<and>
        s_commit S e2 w = Some (e1, Inl er) \<and> out = Inl (Io er) \<and> ids1 = ids + 1)"
proof
  assume "stopped S P fct q ids e (ids1, e1, out)"
  then obtain req rest o1 q' er where s: "q = req # rest" "run_task S P fct ids req rest e = Some (o1, q', e1, Inl er)"
      "out = Inl (Io er)" "ids1 = ids + 1"
    by (auto simp: stopped_def)
  from run_task_fails [OF s(2)] s show "\<exists>req rest c q' e2 w er. q = req # rest \<and>
      run_task S P fct ids req rest e = Some (Inr c, q', e1, Inl er) \<and>
      s_commit S e2 w = Some (e1, Inl er) \<and> out = Inl (Io er) \<and> ids1 = ids + 1"
    by blast
qed (auto simp: stopped_def)

lemma drained_None:
  "drained None outs q ids e (ids1, e1, out) \<longleftrightarrow> q = [] \<and> outs \<noteq> [] \<and> out = hd outs \<and> ids1 = ids \<and> e1 = e"
  by (cases outs) (auto simp: drained_def first_of_def)

section \<open>The result of a region\<close>

text \<open>C30: What \<open>start_task\<close> returns and leaves. Tasks run from the front of the queue, the originating
  one first, until the queue is empty: then the result is that of the originating task,
  however the others ended. Or until the commit of a task that ended normally fails: then
  its error is the result, and the rest of the queue is dropped. There is no other way.\<close>

theorem originating_result:
  "start_task S g tran program c = Some (g', out) \<longleftrightarrow>
     (\<exists>outs q ids e. tasks_run S (g_programs g) (g_fct g) [\<lparr>ps_tranid = tran, ps_program = program, ps_commarea = c\<rparr>]
        (g_task_ids g) (g_env g) outs q ids e \<and>
      (q = [] \<and> outs \<noteq> [] \<and> out = hd outs \<and> g' = g\<lparr>g_env := e, g_task_ids := ids\<rparr> \<or>
       (\<exists>req rest c' q' e' e2 w er. q = req # rest \<and>
          run_task S (g_programs g) (g_fct g) ids req rest e = Some (Inr c', q', e', Inl er) \<and>
          s_commit S e2 w = Some (e', Inl er) \<and>
          out = Inl (Io er) \<and> g' = g\<lparr>g_env := e', g_task_ids := ids + 1\<rparr>)))"
  (is "?l = (\<exists>outs q ids e. ?run outs q ids e \<and> (?all outs q ids e \<or> ?fail q ids e))")
proof
  assume ?l
  then obtain ids1 e1 where d: "dispatch S (g_programs g) (g_fct g)
        [\<lparr>ps_tranid = tran, ps_program = program, ps_commarea = c\<rparr>] None (g_task_ids g) (g_env g) = Some (ids1, e1, out)"
      "g' = g\<lparr>g_env := e1, g_task_ids := ids1\<rparr>"
    by (auto simp: start_task_def bind_eq_Some_conv)
  obtain outs q ids e where t: "?run outs q ids e"
      "drained None outs q ids e (ids1, e1, out) \<or> stopped S (g_programs g) (g_fct g) q ids e (ids1, e1, out)"
    using dispatch_tasks [OF d(1)] by blast
  have "?all outs q ids e \<or> ?fail q ids e"
    using t(2) d(2) unfolding drained_None stopped_fails by blast
  with t(1) show "\<exists>outs q ids e. ?run outs q ids e \<and> (?all outs q ids e \<or> ?fail q ids e)" by blast
next
  assume "\<exists>outs q ids e. ?run outs q ids e \<and> (?all outs q ids e \<or> ?fail q ids e)"
  then obtain outs q ids e where t: "?run outs q ids e" "?all outs q ids e \<or> ?fail q ids e" by blast
  from t(2) have "\<exists>ids1 e1. (drained None outs q ids e (ids1, e1, out) \<or>
      stopped S (g_programs g) (g_fct g) q ids e (ids1, e1, out)) \<and> g' = g\<lparr>g_env := e1, g_task_ids := ids1\<rparr>"
    unfolding drained_None stopped_fails by blast
  then obtain ids1 e1 where d: "drained None outs q ids e (ids1, e1, out) \<or>
      stopped S (g_programs g) (g_fct g) q ids e (ids1, e1, out)" "g' = g\<lparr>g_env := e1, g_task_ids := ids1\<rparr>"
    by blast
  from dispatch_ends [OF t(1) d(1)] d(2) show ?l by (simp add: start_task_def)
qed

section \<open>A failed commit of a started task\<close>

text \<open>Tasks that go through over the B-tree store go through over a sorted list.\<close>

lemma tasks_run_rows:
  "tasks_run (txn_store L) P fct q ids e outs q' ids' e' \<Longrightarrow> store_idle L e xs \<Longrightarrow>
    \<exists>pre ys. store_idle L e' ys \<and> (\<forall>more. tasks_run rows_store P fct q ids
      \<lparr>i_rows = xs, i_outcomes = pre @ more\<rparr> outs q' ids' \<lparr>i_rows = ys, i_outcomes = more\<rparr>)"
proof (induction arbitrary: xs rule: tasks_run.induct)
  case (NoTask q ids e)
  then show ?case by (intro exI [of _ "[]"] exI [of _ xs]) (simp add: tasks_run.NoTask)
next
  case (Task ids req rest e out q1 e1 outs q ids' e')
  obtain pre1 xs1 where 1: "store_idle L e1 xs1" "\<forall>more.
      run_task rows_store P fct ids req rest \<lparr>i_rows = xs, i_outcomes = pre1 @ more\<rparr> =
        Some (out, q1, \<lparr>i_rows = xs1, i_outcomes = more\<rparr>, Inr ())"
    using txn_task.run_task_refines [OF Task.prems Task.hyps(1)] by blast
  obtain pre ys where 2: "store_idle L e' ys" "\<forall>more. tasks_run rows_store P fct q1 (ids + 1)
      \<lparr>i_rows = xs1, i_outcomes = pre @ more\<rparr> outs q ids' \<lparr>i_rows = ys, i_outcomes = more\<rparr>"
    using Task.IH [OF 1(1)] by blast
  have "tasks_run rows_store P fct (req # rest) ids \<lparr>i_rows = xs, i_outcomes = (pre1 @ pre) @ more\<rparr> (out # outs)
      q ids' \<lparr>i_rows = ys, i_outcomes = more\<rparr>" for more
    by (rule tasks_run.Task [OF _ 2(2) [rule_format]]) (use 1(2) [rule_format, of "pre @ more"] in simp)
  then show ?case using 2(1) by blast
qed

text \<open>C34: When the commit of a task in the queue fails, after the originating task and any others
  went through, \<open>start_task\<close> gives that error instead of the originating task's result; the
  tasks still in the queue and those the failed task started never run (they get no number);
  and the store holds exactly the rows that the tasks before it made, run over a sorted
  list. The programs take no syncpoint of their own.\<close>

theorem started_commit_failure:
  assumes "store_idle L (g_env g) xs" "programs_within UNIV False (g_programs g)"
    "tasks_run (txn_store L) (g_programs g) (g_fct g) [\<lparr>ps_tranid = tran, ps_program = program, ps_commarea = c\<rparr>]
       (g_task_ids g) (g_env g) (first # outs) (req # rest) ids e"
    "run_task (txn_store L) (g_programs g) (g_fct g) ids req rest e = Some (out, q, e', Inl er)"
  shows "start_task (txn_store L) g tran program c = Some (g\<lparr>g_env := e', g_task_ids := ids + 1\<rparr>, Inl (Io er)) \<and>
    ids = g_task_ids g + of_nat (length (first # outs)) \<and>
    (\<exists>pre ys. store_idle L e' ys \<and>
       (\<forall>more. tasks_run rows_store (g_programs g) (g_fct g) [\<lparr>ps_tranid = tran, ps_program = program, ps_commarea = c\<rparr>]
          (g_task_ids g) \<lparr>i_rows = xs, i_outcomes = pre @ more\<rparr> (first # outs) (req # rest) ids
          \<lparr>i_rows = ys, i_outcomes = more\<rparr>))"
proof -
  have "stopped (txn_store L) (g_programs g) (g_fct g) (req # rest) ids e (ids + 1, e', Inl (Io er))"
    using assms(4) by (auto simp: stopped_def)
  then have "start_task (txn_store L) g tran program c = Some (g\<lparr>g_env := e', g_task_ids := ids + 1\<rparr>, Inl (Io er))"
    using dispatch_ends [OF assms(3) disjI2, of _ None] by (simp add: start_task_def)
  moreover have "ids = g_task_ids g + of_nat (length (first # outs))" by (rule tasks_run_count [OF assms(3)])
  moreover obtain pre ys where r: "store_idle L e ys"
      "\<forall>more. tasks_run rows_store (g_programs g) (g_fct g) [\<lparr>ps_tranid = tran, ps_program = program, ps_commarea = c\<rparr>]
          (g_task_ids g) \<lparr>i_rows = xs, i_outcomes = pre @ more\<rparr> (first # outs) (req # rest) ids
          \<lparr>i_rows = ys, i_outcomes = more\<rparr>"
    using tasks_run_rows [OF assms(3,1)] by blast
  moreover have "store_idle L e' ys"
    using task_rows [OF r(1) assms(2,4)] by (cases out) auto
  ultimately show ?thesis by blast
qed

text \<open>The disk of Sync_Fault with one more sync that goes through: the originating task writes a record
and is committed, and the commit of the second task fails; the third never runs.\<close>

abbreviation queue_request :: "string \<Rightarrow> pending_start" where
  "queue_request n \<equiv> \<lparr>ps_tranid = ''T'', ps_program = n, ps_commarea = None\<rparr>"

abbreviation stored_record :: node where
  "stored_record \<equiv> Leaf [storage_key 0 [1]] [Inline [1]]"

lemma queue_first:
  assumes "encode_node bincode stored_record = Some nb" "encode_meta bincode new_meta = Some m1"
  shows "run_task (txn_store bincode) demo_starts demo_fct 1 (queue_request ''P'') []
      (fault_env (fault_pager f g ws [True, True, False])) =
    Some (Inr (Some [7]), [queue_request ''Q'', queue_request ''R''],
      (fault_env ((fault_pager (file_write (file_write f 2 nb) 1 m1) (file_write (file_write f 2 nb) 1 m1) [] [False])
        \<lparr>active_meta_slot := 1\<rparr>))\<lparr>e_committed := new_meta\<rparr>, Inr ())"
proof -
  let ?e = "fault_env (fault_pager f g ws [True, True, False])" and ?k = "storage_key 0 [1]"
  have b: "begin_write bincode ?e = Some (demo_first, ?e\<lparr>e_writer := True\<rparr>)"
    by (simp add: fault_env_def begin_write_def initial_meta_def META_PAGE_COUNT_def load_def demo_first_def
        load_loop.simps oldest_reader_txn_id_def Let_def)
  have g: "write_get bincode (?e\<lparr>e_writer := True\<rparr>) demo_first ?k = Some None"
    by (simp add: write_get_def btree_get_def demo_first_def)
  have p: "write_put bincode (?e\<lparr>e_writer := True\<rparr>) demo_first ?k [1] = Some (demo_put ?k [1], ?e\<lparr>e_writer := True\<rparr>)"
    by (simp add: write_put_def btree_put_def store_value_def INLINE_VALUE_LIMIT_def alloc_def
        txn_ctx_def put_node_def put_ctx_def demo_first_def demo_put_def u64_max_def)
  have "commit_pages bincode (?e\<lparr>e_writer := True\<rparr>) (demo_put ?k [1]) =
      Some (fault_pager (file_write f 2 nb) g (ws @ [(2, nb)]) [True, True, False], Inr new_meta)"
    using assms(1) by (simp add: commit_pages_def demo_put_def demo_first_def write_page_def fault_pager_def fault_env_def
        Let_def initial_meta_def u64_max_def store_def freed_entries_def chunks.simps store_chunks.simps)
  then have c: "commit bincode (?e\<lparr>e_writer := True\<rparr>) (demo_put ?k [1]) =
      Some ((fault_env ((fault_pager (file_write (file_write f 2 nb) 1 m1) (file_write (file_write f 2 nb) 1 m1) [] [False])
        \<lparr>active_meta_slot := 1\<rparr>))\<lparr>e_committed := new_meta\<rparr>, Inr ())"
    using assms(2) by (simp add: commit_def commit_meta_def write_meta_slot_def write_page_def sync_data_def
        fault_pager_def fault_env_def Let_def)
  show ?thesis
    by (simp add: run_task_def run_program_loop.simps demo_starts_def resolve_program_def task_write_def exec_write_def
        demo_resolve task_start_def end_task_def txn_store_def b g p c)
qed

lemma queue_second:
  assumes "e = (fault_env p)\<lparr>e_committed := new_meta\<rparr>" "p_syncs p = [False]"
  shows "run_task (txn_store bincode) demo_starts demo_fct 2 (queue_request ''Q'') [queue_request ''R''] e =
    Some (Inr None, [queue_request ''R''], e\<lparr>e_pager := p\<lparr>p_syncs := []\<rparr>\<rparr>, Inl SyncFailed)"
proof -
  let ?w = "\<lparr>w_base_txn_id = 1, w_root = Some 2, w_next_page = 3, w_overlay = [], w_free_list = [],
     w_obsolete = [], w_scratch_pool = [], w_watermark = u64_max\<rparr>"
  have b: "begin_write bincode e = Some (?w, e\<lparr>e_writer := True\<rparr>)"
    by (simp add: assms(1) fault_env_def begin_write_def initial_meta_def advance_def load_def
        load_loop.simps oldest_reader_txn_id_def Let_def)
  have "commit_pages bincode (e\<lparr>e_writer := True\<rparr>) ?w = Some (p, Inr (advance new_meta (Some 2) 3 None))"
    by (simp add: assms(1) commit_pages_def fault_env_def Let_def initial_meta_def advance_def u64_max_def store_def
        freed_entries_def chunks.simps store_chunks.simps)
  then have c: "commit bincode (e\<lparr>e_writer := True\<rparr>) ?w = Some (e\<lparr>e_pager := p\<lparr>p_syncs := []\<rparr>\<rparr>, Inl SyncFailed)"
    using assms by (simp add: commit_def sync_data_def fault_env_def Let_def)
  show ?thesis
    by (simp add: run_task_def run_program_loop.simps demo_starts_def resolve_program_def end_task_def txn_store_def b c)
qed

theorem started_commit_failure_witness:
  "\<exists>env e'. open_env bincode 50 [True, True, True, True, False] None = Some (Inr env) \<and>
    start_task (txn_store bincode) (demo_counted env) ''T'' ''P'' None =
      Some ((demo_counted e')\<lparr>g_task_ids := 3\<rparr>, Inl (Io SyncFailed)) \<and>
    (\<exists>pre ys. store_idle bincode e' ys \<and>
       (\<forall>more. tasks_run rows_store demo_starts demo_fct [queue_request ''P''] 1 \<lparr>i_rows = [], i_outcomes = pre @ more\<rparr>
          [Inr (Some [7])] [queue_request ''Q'', queue_request ''R''] 2 \<lparr>i_rows = ys, i_outcomes = more\<rparr>))"
proof -
  obtain m0 m1 where enc: "encode_meta bincode initial_meta = Some m0" "encode_meta bincode new_meta = Some m1"
    by (rule fault_bufs) blast
  obtain nb where nb: "encode_node bincode stored_record = Some nb"
    using encode_fits(2) [OF lib_ok_bincode lib_sizes_bincode, of stored_record]
    by (auto simp: encode_node_def storage_key_def)
  let ?env = "fault_env (fault_pager [m0, m0] [m0, m0] [] [True, True, False])"
  let ?p = "(fault_pager [m0, m1, nb] [m0, m1, nb] [] [False])\<lparr>active_meta_slot := 1\<rparr>"
  let ?e = "(fault_env ?p)\<lparr>e_committed := new_meta\<rparr>" and ?e' = "(fault_env (?p\<lparr>p_syncs := []\<rparr>))\<lparr>e_committed := new_meta\<rparr>"
  have o: "open_env bincode 50 [True, True, True, True, False] None = Some (Inr ?env)"
    using enc(1) by (simp add: open_env_def open_pager_def write_meta_slot_def write_page_def sync_data_def open_file_def
        Let_def file_write_def fault_env_def fault_pager_def)
  have i: "store_idle bincode (g_env (demo_counted ?env)) []"
    using open_new_sim [OF lib_ok_bincode o]
    by (auto simp: store_idle_def fresh_sys_def fresh_db_def lib_ok_bincode demo_counted_def)
  have w: "programs_within UNIV False (g_programs (demo_counted ?env))"
    by (auto simp: programs_within_def demo_counted_def demo_starts_def split: if_splits)
  have "run_task (txn_store bincode) demo_starts demo_fct 1 (queue_request ''P'') [] ?env =
      Some (Inr (Some [7]), [queue_request ''Q'', queue_request ''R''], ?e, Inr ())"
    using queue_first [OF nb enc(2), of "[m0, m0]" "[m0, m0]" "[]"] by (simp add: file_write_def)
  from tasks_run.Task [OF this tasks_run.NoTask] have
    t: "tasks_run (txn_store bincode) (g_programs (demo_counted ?env)) (g_fct (demo_counted ?env)) [queue_request ''P'']
      (g_task_ids (demo_counted ?env)) (g_env (demo_counted ?env)) [Inr (Some [7])] [queue_request ''Q'', queue_request ''R''] 2 ?e"
    by (simp add: demo_counted_def)
  have r: "run_task (txn_store bincode) (g_programs (demo_counted ?env)) (g_fct (demo_counted ?env)) 2 (queue_request ''Q'')
      [queue_request ''R''] ?e = Some (Inr None, [queue_request ''R''], ?e', Inl SyncFailed)"
    using queue_second [of ?e ?p] by (simp add: demo_counted_def fault_pager_def fault_env_def)
  from started_commit_failure [OF i w t r] o show ?thesis
    by (intro exI [of _ ?env] exI [of _ ?e']) (simp add: demo_counted_def)
qed

section \<open>Every key belongs to a file\<close>

text \<open>C32: Every record that a region commits belongs to exactly one of its files: its key begins with
  the four bytes, big-endian, of the identifier of one file that is defined, and of no other.
  If that holds of the committed keys, it still does after any task, with all it starts and
  links; and every new key is one of a file that the programs write to. So a browse, which
  cuts the four bytes off, cannot panic.\<close>

theorem keys_carry_files:
  assumes "store_idle L (g_env g) xs" "\<forall>k\<in>fst ` set xs. \<exists>name. of_file (g_fct g) name k"
    "define_files new_fct names = Some (g_fct g)" "programs_within F True (g_programs g)"
    "start_task (txn_store L) g tran program c = Some (g', out)"
  shows "\<exists>xs'. store_idle L (g_env g') xs' \<and> g_fct g' = g_fct g \<and>
    (\<forall>k\<in>fst ` set xs'. \<exists>!name. of_file (g_fct g) name k) \<and>
    (\<forall>k\<in>fst ` set xs' - fst ` set xs. \<exists>name\<in>F. of_file (g_fct g) name k) \<and>
    strip_rows xs' = Some (map (\<lambda>(k, v). (drop 4 k, v)) xs')"
proof -
  obtain pre xs' where 1: "store_idle L (g_env g') xs'"
      "start_task rows_store (ideal_region g xs (pre @ [])) tran program c = Some (ideal_region g' xs' [], out)"
    using txn_task.start_task_refines [OF assms(1,5)] by blast
  have kept: "filed (g_fct g) F (fst ` set xs) xs'"
    using filed_rows.start_task_keeps [OF _ _ _ 1(2), of "g_fct g" F "fst ` set xs"] assms(4)
    by (simp add: ideal_region_def filed_def)
  then have new: "\<forall>k\<in>fst ` set xs' - fst ` set xs. \<exists>name\<in>F. of_file (g_fct g) name k"
    unfolding filed_def by blast
  have f: "\<forall>k\<in>fst ` set xs'. \<exists>name. of_file (g_fct g) name k"
    using kept assms(2) unfolding filed_def by blast
  have "inj_on (files (g_fct g)) (dom (files (g_fct g)))"
    using define_files_ok(1) [OF assms(3) fct_ok_new] unfolding fct_ok_def by blast
  then have one: "name = other" if "of_file (g_fct g) name k" "of_file (g_fct g) other k" for name other k
    using that by (auto simp: of_file_def dest: append_eq_append_conv [THEN iffD1, rotated]
      elim!: inj_onD intro: domI)
  have "\<exists>!name. of_file (g_fct g) name k" if "k \<in> fst ` set xs'" for k
    using f one that by blast
  moreover have "keyed xs'" using f by (fastforce simp: keyed_def of_file_def)
  moreover have "g_fct g' = g_fct g" using assms(5) by (auto simp: start_task_def bind_eq_Some_conv)
  ultimately show ?thesis
    using 1(1) new strip_rows_keyed [of xs'] by (intro exI [of _ xs'] conjI) simp_all
qed

text \<open>Two records written by a task and one that it started.\<close>

theorem keys_carry_files_witness:
  "\<exists>env env' xs'. start_task (txn_store bincode) (demo_counted env) ''T'' ''P'' None =
      Some ((demo_counted env')\<lparr>g_task_ids := 4\<rparr>, Inr (Some [7])) \<and>
    store_idle bincode env' [(storage_key 0 [1], [1]), (storage_key 0 [2], [2])] \<and> store_idle bincode env' xs' \<and>
    (\<forall>k\<in>fst ` set xs' - {}. \<exists>name\<in>{''A''}. of_file demo_fct name k)"
proof -
  obtain env env' where s: "start_task (txn_store bincode) (demo_counted env) ''T'' ''P'' None =
        Some ((demo_counted env')\<lparr>g_task_ids := 4\<rparr>, Inr (Some [7]))"
      "store_idle bincode env []" "store_idle bincode env' [(storage_key 0 [1], [1]), (storage_key 0 [2], [2])]"
    by (rule demo_counted_start)
  have h: "store_idle bincode (g_env (demo_counted env)) []"
      "\<forall>k\<in>fst ` set ([] :: rows). \<exists>name. of_file (g_fct (demo_counted env)) name k"
      "define_files new_fct [''A'', ''B''] = Some (g_fct (demo_counted env))"
      "programs_within {''A''} True (g_programs (demo_counted env))"
    using s(2) demo_fct by (simp_all add: demo_counted_def)
      (auto simp: programs_within_def demo_starts_def split: if_splits)
  have sel: "g_env ((demo_counted env')\<lparr>g_task_ids := 4\<rparr>) = env'" "g_fct (demo_counted env) = demo_fct"
    by (simp_all add: demo_counted_def)
  have "\<exists>xs'. store_idle bincode env' xs' \<and> (\<forall>k\<in>fst ` set xs' - {}. \<exists>name\<in>{''A''}. of_file demo_fct name k)"
    using keys_carry_files [OF h s(1)] unfolding sel by simp blast
  then obtain xs' where "store_idle bincode env' xs'" "\<forall>k\<in>fst ` set xs' - {}. \<exists>name\<in>{''A''}. of_file demo_fct name k"
    by blast
  with s(1,3) show ?thesis by (intro exI [of _ env] exI [of _ env'] exI [of _ xs'] conjI) simp_all
qed

end
