(* ===== verification/Late_Reader.thy ===== *)
theory Late_Reader
  imports Reader_Race
begin

text \<open>
  When the race of Reader_Race is harmless: a reader may register long after it cloned the
  committed meta page, as long as no transaction begins after another's commit in between.
  It then has the snapshot of the moment it cloned the meta page, for good.
\<close>

section \<open>A reader that is not registered yet\<close>

text \<open>\<open>shadow L s r xs\<close>: the reader \<open>r\<close> could register now, with the snapshot \<open>xs\<close>.\<close>

definition shadow :: "lib \<Rightarrow> sys \<Rightarrow> read_txn \<Rightarrow> rows \<Rightarrow> bool" where
  "shadow L s r xs \<longleftrightarrow>
     (\<exists>ot is es. committed L (e_pager (y_env s)) (e_committed (y_env s)) ot is es \<and>
        reader_ok L (e_pager (y_env s)) (e_committed (y_env s)) (concat es)
          (MVCC.reach (e_committed (y_env s)) (concat es) (y_writer s)) r xs)"

definition add_reader :: "read_txn \<Rightarrow> sys \<Rightarrow> sys" where
  "add_reader r s = s\<lparr>y_env := (y_env s)\<lparr>e_readers := e_readers (y_env s) @ [r_txn_id r]\<rparr>, y_readers := y_readers s @ [r]\<rparr>"

lemma committed_load: "committed L p m ot is es \<Longrightarrow> load L p (free_list_head m) = Some (concat es)"
  by (simp add: committed_def load_ok)

lemma committed_free_list:
  "committed L p m ot is es \<Longrightarrow> committed L p m ot' js fs \<Longrightarrow> concat es = concat fs"
  by (drule committed_load, drule committed_load) simp

lemma sim_add_reader:
  assumes "sim L s d" "shadow L s r xs"
  shows "sim L (add_reader r s) (d\<lparr>d_snaps := d_snaps d @ [xs]\<rparr>)"
proof -
  obtain ot "is" es where st: "committed L (e_pager (y_env s)) (e_committed (y_env s)) ot is es" "contents ot = d_data d"
    "slot_ok (e_pager (y_env s))" "mset (e_readers (y_env s)) = mset (map r_txn_id (y_readers s))"
    "list_all2 (reader_ok L (e_pager (y_env s)) (e_committed (y_env s)) (concat es)
       (MVCC.reach (e_committed (y_env s)) (concat es) (y_writer s))) (y_readers s) (d_snaps d)"
    "work_ok L (y_env s) (concat es) (outside (e_committed (y_env s)) ot es) (y_writer s) (d_work d)"
    "y_synced s \<longrightarrow> durable L (e_pager (y_env s)) (e_committed (y_env s)) ot is es"
    by (rule simE [OF assms(1)])
  obtain ot' js fs where sh: "committed L (e_pager (y_env s)) (e_committed (y_env s)) ot' js fs"
      "reader_ok L (e_pager (y_env s)) (e_committed (y_env s)) (concat fs)
        (MVCC.reach (e_committed (y_env s)) (concat fs) (y_writer s)) r xs"
    using assms(2) by (auto simp: shadow_def)
  have "work_ok L ((y_env s)\<lparr>e_readers := e_readers (y_env s) @ [r_txn_id r]\<rparr>) (concat es) (outside (e_committed (y_env s)) ot es) (y_writer s) (d_work d)"
    by (rule work_ok_env [OF st(6)]) simp_all
  then show ?thesis
    using st sh(2) committed_free_list [OF st(1) sh(1)]
    by (intro simI [of L _ ot "is" es]) (auto simp: add_reader_def intro!: list_all2_appendI)
qed

lemma sim_last_reader:
  assumes "sim L s d" "y_readers s = rs @ [r]" "d_snaps d = xss @ [xs]"
  shows "shadow L s r xs"
proof -
  obtain ot "is" es where "committed L (e_pager (y_env s)) (e_committed (y_env s)) ot is es"
    "list_all2 (reader_ok L (e_pager (y_env s)) (e_committed (y_env s)) (concat es)
       (MVCC.reach (e_committed (y_env s)) (concat es) (y_writer s))) (rs @ [r]) (xss @ [xs])"
    using simE [OF assms(1)] assms(2,3) by metis
  moreover from this(2) have "length rs = length xss" by (auto dest: list_all2_lengthD)
  ultimately show ?thesis unfolding shadow_def by (auto simp: list_all2_append)
qed

section \<open>What keeps the snapshot of such a reader\<close>

lemma shadow_begin:
  assumes "sim L s d" "register_reader env (e_committed (y_env s)) = (r, env')"
  shows "shadow L s r (d_data d)"
proof -
  obtain ot "is" es where st: "committed L (e_pager (y_env s)) (e_committed (y_env s)) ot is es" "contents ot = d_data d"
    using simE [OF assms(1)] by metis
  have b: "begin_read (y_env s) = (r, (y_env s)\<lparr>e_readers := e_readers (y_env s) @ [r_txn_id r]\<rparr>)"
    using assms(2) by (auto simp: begin_read_def register_reader_def)
  show ?thesis
    using begin_read_ok(1,2) [OF st(1) b] st unfolding shadow_def
    by (intro exI [of _ ot] exI [of _ "is"] exI [of _ es]) (cases "y_writer s"; auto)
qed

lemma commit_readers:
  "commit L (env\<lparr>e_readers := R\<rparr>) w = map_option (map_prod (\<lambda>e. e\<lparr>e_readers := R\<rparr>) id) (commit L env w)"
  by (simp add: commit_def commit_pages_def Let_def split: option.split sum.split prod.split)

lemma shadow_commit:
  assumes "lib_ok L" "sim L s d" "shadow L s r xs" "sys_step L s Commit = Some (s', out)"
  shows "shadow L s' r xs" "y_writer s' = None"
proof -
  obtain w where w: "y_writer s = Some w" using assms(4) by (auto simp: bind_Some_iff)
  have st: "sys_step L (add_reader r s) Commit =
      Some (s'\<lparr>y_env := (y_env s')\<lparr>e_readers := e_readers (y_env s) @ [r_txn_id r]\<rparr>, y_readers := y_readers s @ [r]\<rparr>, out)"
    using assms(4) w by (auto simp: add_reader_def commit_readers bind_Some_iff)
  obtain d' where d': "db_step (d\<lparr>d_snaps := d_snaps d @ [xs]\<rparr>) Commit out = Some d'"
      "sim L (s'\<lparr>y_env := (y_env s')\<lparr>e_readers := e_readers (y_env s) @ [r_txn_id r]\<rparr>, y_readers := y_readers s @ [r]\<rparr>) d'"
    using sim_step [OF assms(1) sim_add_reader [OF assms(2,3)] st] by blast
  have "d_snaps d' = d_snaps d @ [xs]" using d'(1) by (cases out) (auto simp: bind_Some_iff)
  from sim_last_reader [OF d'(2) _ this] show "shadow L s' r xs" by (simp add: shadow_def)
  show "y_writer s' = None" using assms(4) by (auto simp: bind_Some_iff)
qed

lemma shadow_idle:
  assumes "y_writer s = None" "sys_step L s a = Some (s', out)" "a \<noteq> BeginWrite" "shadow L s r xs"
  shows "shadow L s' r xs" "y_writer s' = None"
proof -
  have "e_pager (y_env s') = e_pager (y_env s) \<and> e_committed (y_env s') = e_committed (y_env s) \<and> y_writer s' = None"
    using assms(1-3) by (cases a) (auto simp: bind_Some_iff begin_read_def register_reader_def)
  then show "shadow L s' r xs" "y_writer s' = None" using assms(1,4) by (simp_all add: shadow_def)
qed

lemma no_commit_step:
  assumes "sys_step L s a = Some (s', out)" "db_step d a out = Some d'" "a \<noteq> Commit"
  shows "e_committed (y_env s') = e_committed (y_env s)" "d_data d' = d_data d"
proof -
  show "e_committed (y_env s') = e_committed (y_env s)"
    using assms(1,3)
    by (cases a) (auto simp: bind_Some_iff begin_read_def register_reader_def begin_write_def rollback_def Let_def
        write_put_def write_delete_def split: option.splits if_splits)
  show "d_data d' = d_data d" using assms(2,3) by (cases a) (auto simp: bind_Some_iff)
qed

section \<open>The window\<close>

text \<open>No transaction begins after a commit.\<close>

fun window :: "bool \<Rightarrow> action list \<Rightarrow> bool" where
  "window c [] = True"
| "window c (a # acts) = ((c \<longrightarrow> a \<noteq> BeginWrite) \<and> window (c \<or> a = Commit) acts)"

lemma window_run:
  assumes L: "lib_ok L"
  shows "window c acts \<Longrightarrow> run (sys_step L) s acts = Some (s', answers) \<Longrightarrow> sim L s d \<Longrightarrow> shadow L s r xs \<Longrightarrow>
    (if c then y_writer s = None else e_committed (y_env s) = m \<and> d_data d = xs \<and> r = fst (register_reader env m)) \<Longrightarrow>
    \<exists>d'. allows db_step d acts answers = Some d' \<and> sim L s' d' \<and> shadow L s' r xs"
proof (induction acts arbitrary: c s d answers)
  case Nil
  then show ?case by simp
next
  case (Cons a acts)
  obtain s1 out outs where st: "sys_step L s a = Some (s1, out)" and rest: "run (sys_step L) s1 acts = Some (s', outs)"
      and ans: "answers = out # outs"
    using Cons.prems(2) by (auto simp: bind_Some_iff)
  obtain d1 where d1: "db_step d a out = Some d1" "sim L s1 d1" using sim_step [OF L Cons.prems(3) st] by blast
  have "shadow L s1 r xs \<and> (if c \<or> a = Commit then y_writer s1 = None
      else e_committed (y_env s1) = m \<and> d_data d1 = xs \<and> r = fst (register_reader env m))"
  proof (cases "a = Commit")
    case True
    then show ?thesis using shadow_commit [OF L Cons.prems(3,4)] st by simp
  next
    case no: False
    show ?thesis
    proof (cases c)
      case True
      then show ?thesis using shadow_idle [OF _ st] Cons.prems no by simp
    next
      case False
      note same = no_commit_step [OF st d1(1) no]
      have m: "e_committed (y_env s1) = m" "d_data d1 = xs" "r = fst (register_reader env m)"
        using same Cons.prems(5) False by auto
      have "shadow L s1 r (d_data d1)"
        by (rule shadow_begin [OF d1(2), of env _ "snd (register_reader env m)"]) (simp add: m)
      then show ?thesis using m no False by simp
    qed
  qed
  then obtain d' where "allows db_step d1 acts outs = Some d'" "sim L s' d'" "shadow L s' r xs"
    using Cons.IH [OF _ rest d1(2), of "c \<or> a = Commit"] Cons.prems(1) by auto
  then show ?case using d1(1) ans by auto
qed

text \<open>C16: A late registration is harmless unless a transaction begins after another's commit in the
  window. A reader clones the meta page in state \<open>s\<close>, any steps of readers and writers follow,
  with that exception, then it registers; from then on every run is one that the
  specification allows with the reader's snapshot being the data of \<open>s\<close>.\<close>

theorem late_registration:
  assumes "lib_ok L" "open_env L lim syncs None = Some (Inr env)"
    "run (sys_step L) (fresh_sys env) acts = Some (s, answers)"
    "run (sys_step L) s acts' = Some (s', answers')" "window False acts'"
    "register_reader (y_env s') (e_committed (y_env s)) = (r, env')"
    "run (sys_step L) (s'\<lparr>y_env := env', y_readers := y_readers s' @ [r]\<rparr>) acts'' = Some (s'', answers'')"
  shows "\<exists>d d' d''. allows db_step (fresh_db []) acts answers = Some d \<and> allows db_step d acts' answers' = Some d' \<and>
    allows db_step (d'\<lparr>d_snaps := d_snaps d' @ [d_data d]\<rparr>) acts'' answers'' = Some d''"
proof -
  obtain d where d: "allows db_step (fresh_db []) acts answers = Some d" "sim L s d"
    by (rule reachable_sim [OF assms(1-3)])
  have r: "r = fst (register_reader (y_env s') (e_committed (y_env s)))"
      "s'\<lparr>y_env := env', y_readers := y_readers s' @ [r]\<rparr> = add_reader r s'"
    using assms(6) by (auto simp: register_reader_def add_reader_def)
  obtain d' where d': "allows db_step d acts' answers' = Some d'" "sim L s' d'" "shadow L s' r (d_data d)"
    using window_run [OF assms(1,5,4) d(2) shadow_begin [OF d(2) assms(6)], of "e_committed (y_env s)" "y_env s'"] r(1)
    by auto
  show ?thesis
    using mvcc.run_ok [OF conjI [OF assms(1) sim_add_reader [OF d'(2,3)]] assms(7) [unfolded r(2)]] d(1) d'(1) by blast
qed

text \<open>The reader of the race, when it registers after the first of the two commits.\<close>

theorem late_registration_witness:
  "\<exists>env s s' r env' s''. demo_open env \<and>
    run (sys_step bincode) (fresh_sys env) [BeginWrite, WritePut [1] [10], Commit] = Some (s, [Done, Done, Done]) \<and>
    run (sys_step bincode) s [BeginWrite, WritePut [1] [20], Commit] = Some (s', [Done, Done, Done]) \<and>
    register_reader (y_env s') (e_committed (y_env s)) = (r, env') \<and>
    run (sys_step bincode) (s'\<lparr>y_env := env', y_readers := y_readers s' @ [r]\<rparr>) [ReadGet 0 [1]] =
      Some (s'', [Value (Some [10])])"
proof -
  obtain env where e: "demo_open env" by (rule demo_open)
  then have o: "open_env bincode 50 [] None = Some (Inr env)" by (simp add: demo_open_def)
  obtain s where 1: "run (sys_step bincode) (fresh_sys env) [BeginWrite, WritePut [1] [10], Commit] =
      Some (s, [Done, Done, Done])" "one_leaf s 1 2 10 3 []"
    by (rule race_first [OF e])
  let ?c = "(txn_ctx ((y_env s)\<lparr>e_writer := True\<rparr>) (leaf_writer 1 2 3 []))\<lparr>c_obsolete := [2], c_next_page := 4\<rparr>"
  obtain s' fl np where 2: "run (sys_step bincode) s [BeginWrite, WritePut [1] [20], Commit] = Some (s', [Done, Done, Done])"
      "one_leaf s' 2 3 20 np fl"
    by (rule race_update [OF 1(2), of 3 ?c _ 20, OF _ _ _ _ _ _ refl]) (simp_all add: race_alloc)
  obtain r env' where r: "register_reader (y_env s') (e_committed (y_env s)) = (r, env')" by fastforce
  let ?s = "s'\<lparr>y_env := env', y_readers := y_readers s' @ [r]\<rparr>"
  have w: "window False [BeginWrite, WritePut [1] [20], Commit]" by simp
  note late = late_registration [OF lib_ok_bincode o 1(1) 2(1) w r]
  have "y_readers ?s = [r]" using 2(2) by (simp add: one_leaf_def calm_def)
  obtain d where d: "sim bincode s d" by (rule reachable_sim [OF lib_ok_bincode o 1(1)])
  obtain d' where "sim bincode s' d'" "shadow bincode s' r (d_data d)"
    using window_run [OF lib_ok_bincode w 2(1) d shadow_begin [OF d r], of "e_committed (y_env s)" "y_env s'"] r by auto
  then have "sim bincode (add_reader r s') (d'\<lparr>d_snaps := d_snaps d' @ [d_data d]\<rparr>)" by (rule sim_add_reader)
  moreover have "add_reader r s' = ?s" using r by (auto simp: register_reader_def add_reader_def)
  ultimately have "sim bincode ?s (d'\<lparr>d_snaps := d_snaps d' @ [d_data d]\<rparr>)" by simp
  from readers_return [OF this, of 0 "[1]"] have "sys_step bincode ?s (ReadGet 0 [1]) \<noteq> None"
    unfolding \<open>y_readers ?s = [r]\<close> by blast
  then obtain s'' out where st: "sys_step bincode ?s (ReadGet 0 [1]) = Some (s'', out)"
    by (metis not_None_eq surj_pair)
  have rd: "run (sys_step bincode) ?s [ReadGet 0 [1]] = Some (s'', [out])" by (rule run_single) (rule st)
  have "out = Value (Some [10])"
    using late [OF rd] by (auto simp: fresh_db_def ins_def get_at_def)
  then show ?thesis using e 1(1) 2(1) r rd by blast
qed

end
