(* ===== verification/Interleaving.thy ===== *)
theory Interleaving
  imports Reader_Race
begin

text \<open>
  Readers take no lock: while one descends its tree or walks the chain of a value, a writer
  may put, delete and commit. The steps of MVCC are whole operations; here they are taken
  apart into the states of the file between the page writes of an operation (\<open>moments\<close>),
  and a reader gets each page it reads from whatever moment it happens to read it at
  (\<open>mixed\<close>). It still reads its snapshot.
\<close>

section \<open>The moments of a run\<close>

text \<open>The states from one pager to another that has more writes pending, one write at a time.\<close>

definition states_between :: "pager \<Rightarrow> pager \<Rightarrow> pager list" where
  "states_between p p' =
     (let ws = drop (length (p_pending p)) (p_pending p')
      in map (\<lambda>n. p\<lparr>p_file := apply_writes (take n ws) (p_file p), p_pending := p_pending p @ take n ws\<rparr>)
           [0..<Suc (length ws)])"

text \<open>The states of the pager during a step: a put writes its overflow pages, a commit the staged
nodes, the free list and the meta page; the other steps write nothing.\<close>

fun moments :: "lib \<Rightarrow> sys \<Rightarrow> action \<Rightarrow> pager list" where
  "moments L s (WritePut key value) =
     (case do { w \<leftarrow> y_writer s; write_put L (y_env s) w key value } of None \<Rightarrow> [e_pager (y_env s)]
      | Some (w', env) \<Rightarrow> states_between (e_pager (y_env s)) (e_pager env))"
| "moments L s (WriteDelete key) =
     (case do { w \<leftarrow> y_writer s; write_delete L (y_env s) w key } of None \<Rightarrow> [e_pager (y_env s)]
      | Some (b, w', env) \<Rightarrow> states_between (e_pager (y_env s)) (e_pager env))"
| "moments L s Commit =
     (case y_writer s of None \<Rightarrow> [e_pager (y_env s)]
      | Some w \<Rightarrow>
          (case commit_pages L (y_env s) w of None \<Rightarrow> [e_pager (y_env s)]
           | Some (p, r) \<Rightarrow> states_between (e_pager (y_env s)) p @ commit_points L (y_env s) w))"
| "moments L s _ = [e_pager (y_env s)]"

fun run_moments :: "lib \<Rightarrow> sys \<Rightarrow> action list \<Rightarrow> pager list" where
  "run_moments L s [] = [e_pager (y_env s)]"
| "run_moments L s (a # acts) =
     moments L s a @ (case sys_step L s a of None \<Rightarrow> [] | Some (s', out) \<Rightarrow> run_moments L s' acts)"

text \<open>What a reader sees whose page reads fall at different moments.\<close>

definition mixed :: "pager list \<Rightarrow> pager \<Rightarrow> bool" where
  "mixed ps q \<longleftrightarrow> (\<forall>i. \<exists>p\<in>set ps. read_page q i = read_page p i)"

lemma mixed_keeps: "mixed ps q \<Longrightarrow> (\<And>m. m \<in> set ps \<Longrightarrow> keeps p m i) \<Longrightarrow> keeps p q i"
  by (metis mixed_def keeps_def)

lemma mixed_last: "ps \<noteq> [] \<Longrightarrow> mixed ps (last ps)"
  unfolding mixed_def using last_in_set by blast

section \<open>A root has one tree\<close>

lemma over_chain_unique:
  "over_chain L p is ds \<Longrightarrow> over_chain L p js es \<Longrightarrow> hd_opt is = hd_opt js \<Longrightarrow> is = js \<and> ds = es"
proof (induction "is" arbitrary: ds js es)
  case Nil
  then show ?case by (cases js; cases ds; cases es) simp_all
next
  case (Cons i "is")
  then obtain d ds' j js' e es' where eq: "ds = d # ds'" "js = j # js'" "es = e # es'"
    by (cases ds; cases js; cases es) simp_all
  then have "j = i" "d = e" "hd_opt is = hd_opt js'" using Cons.prems by simp_all
  moreover have "is = js' \<and> ds' = es'"
    by (rule Cons.IH) (use Cons.prems eq in simp_all)
  ultimately show ?case using eq by simp
qed

lemma gval_unique:
  assumes "gval_ok L p g" "gval_ok L p g'" "gstored g = gstored g'"
  shows "g = g'"
proof (cases g)
  case (GIn b)
  then show ?thesis using assms by (cases g') simp_all
next
  case (GOv "is" ds)
  then obtain js es where g': "g' = GOv js es" using assms(3) by (cases g') simp_all
  then have "hd_opt is = hd_opt js" using assms GOv by (simp add: hd_opt_not_Nil)
  then show ?thesis using over_chain_unique [of L p "is" ds js es] assms GOv g' by simp
qed

lemma vals_unique:
  "vals_ok L p kvs \<Longrightarrow> vals_ok L p kvs' \<Longrightarrow> map fst kvs = map fst kvs' \<Longrightarrow>
    map (gstored \<circ> snd) kvs = map (gstored \<circ> snd) kvs' \<Longrightarrow> kvs = kvs'"
proof (induction kvs arbitrary: kvs')
  case (Cons e kvs)
  then obtain e' r where r: "kvs' = e' # r" by (cases kvs') simp_all
  have "kvs = r" by (rule Cons.IH) (use Cons.prems r in \<open>simp_all add: vals_ok_def\<close>)
  moreover have "snd e = snd e'"
    by (rule gval_unique [of L p]) (use Cons.prems r in \<open>simp_all add: vals_ok_def split_beta\<close>)
  moreover have "fst e = fst e'" using Cons.prems r by simp
  ultimately show ?case using r by (simp add: prod_eq_iff)
qed simp

lemma tree_unique:
  "shape h t \<Longrightarrow> rep rd t \<Longrightarrow> vals_ok L p (entries t) \<Longrightarrow>
   shape h' t' \<Longrightarrow> rep rd t' \<Longrightarrow> vals_ok L p (entries t') \<Longrightarrow> gid t = gid t' \<Longrightarrow> t = t'"
proof (induction t arbitrary: t' h h')
  case (GLeaf i kvs)
  then obtain kvs' where t': "t' = GLeaf i kvs'" by (cases t') auto
  then show ?case using GLeaf vals_unique [of L p kvs kvs'] by (simp add: entries_def)
next
  case (GNode i ks ts)
  then obtain ks' ts' where t': "t' = GNode i ks' ts'" by (cases t') auto
  have eq: "ks' = ks" "map gid ts = map gid ts'" using GNode.prems t' by auto
  obtain n m where h: "h = Suc n" "h' = Suc m" using GNode.prems t' by (cases h; cases h') auto
  have len: "length ts = Suc (length ks)" "length ts' = Suc (length ks)"
    using GNode.prems t' eq h by auto
  have v: "vals_ok L p (concat (map entries ts))" "vals_ok L p (concat (map entries ts'))"
    using GNode.prems(3,6) t' eq len by (simp_all add: entries_GNode)
  have "ts = ts'"
  proof (rule nth_equalityI)
    show "length ts = length ts'" using len by simp
    fix j assume j: "j < length ts"
    then have mem: "ts ! j \<in> set ts" "ts' ! j \<in> set ts'" using len by auto
    then have "vals_ok L p (entries (ts ! j))" "vals_ok L p (entries (ts' ! j))"
      using v by (auto simp: vals_ok_def)
    moreover have "gid (ts ! j) = gid (ts' ! j)" using eq(2) j len by (metis nth_map)
    ultimately show "ts ! j = ts' ! j"
      using GNode.IH [OF mem(1), of n m "ts' ! j"] GNode.prems t' h mem by auto
  qed
  then show ?case by (simp add: t' eq)
qed

lemma wf_tree_unique:
  assumes "wf_tree L c ot" "wf_tree L c ot'" "root_of ot = root_of ot'"
  shows "ot = ot'"
proof (cases ot)
  case None
  then show ?thesis using assms(3) by (cases ot') (auto simp: root_of_def)
next
  case (Some t)
  then obtain t' where t': "ot' = Some t'" "gid t = gid t'" using assms(3) by (cases ot') (auto simp: root_of_def)
  obtain h h' where "forest L c h [] [t]" "forest L c h' [] [t']" using assms(1,2) Some t' by auto
  then show ?thesis
    using Some t' tree_unique [of h t "ctx_read L c" L "c_pager c" h' t'] by (simp add: forest_def)
qed

section \<open>No moment touches a reader's tree\<close>

lemma states_between_keeps:
  assumes "wrote X p p'" "q \<in> set (states_between p p')" "i \<notin> X"
  shows "keeps p q i"
proof -
  obtain ws where ws: "fst ` set ws \<subseteq> X" "p_pending p' = p_pending p @ ws" using assms(1) by (auto simp: wrote_def)
  then obtain n where "p_file q = apply_writes (take n ws) (p_file p)"
    using assms(2) by (auto simp: states_between_def Let_def simp del: upt_Suc)
  moreover have "i \<notin> fst ` set (take n ws)" using ws(1) assms(3) by (auto dest: in_set_takeD)
  ultimately show ?thesis by (simp add: keeps_def read_page_def file_read_apply_writes)
qed

lemma commit_points_keeps:
  assumes w: "writer_ok L env fl K w ot" and s: "slot_ok (e_pager env)"
    and q: "q \<in> set (commit_points L env w)" and i: "2 \<le> i" "i \<notin> spare (e_committed env) fl (w_watermark w)"
  shows "keeps (e_pager env) q i"
  using q
proof (cases rule: commit_pointsE)
  case start
  then show ?thesis by simp
next
  case (pages r)
  then show ?thesis using wrote_keeps [OF commit_pages_wrote [OF w]] i(2) by blast
next
  case (synced p m' r)
  then have "keeps (e_pager env) p i" using wrote_keeps [OF commit_pages_wrote [OF w]] i(2) by blast
  then show ?thesis using sync_keeps [OF synced(2)] by (simp add: keeps_def read_page_def)
next
  case (published p m' p1 u buf p2)
  have wr: "wrote (spare (e_committed env) fl (w_watermark w)) (e_pager env) p"
    by (rule commit_pages_wrote [OF w published(1)])
  have k: "keeps (e_pager env) p1 i"
    using wrote_keeps [OF wr i(2)] sync_keeps [OF published(2)] by (simp add: keeps_def read_page_def)
  have "active_meta_slot p1 = active_meta_slot (e_pager env)"
    using wrote_fields [OF wr] sync_keeps [OF published(2)] by simp
  then have "1 - active_meta_slot p1 = 0 \<or> 1 - active_meta_slot p1 = 1" using s by (auto simp: slot_ok_def)
  then have "keeps p1 p2 i" using keeps_write [OF published(4), of i] not_meta_page [OF i(1)] by auto
  then show ?thesis
    using k published(5) by (auto simp: keeps_def read_page_def)
qed

text \<open>What holds of the tree of a reader: every moment of every step keeps its pages.\<close>

lemma work_keeps:
  assumes "wrote X p p'" "i \<notin> X"
  shows "keeps p p' i" "m \<in> set (states_between p p') \<Longrightarrow> keeps p m i"
  using wrote_keeps [OF assms] states_between_keeps [OF assms(1) _ assms(2)] by auto

lemma writer_step_keeps:
  assumes L: "lib_ok L" and sim: "sim L s d" and w: "y_writer s = Some w" and fl: "writer_ok L (y_env s) fl K w ot"
    and i: "2 \<le> i" "i \<notin> spare (e_committed (y_env s)) fl (w_watermark w)"
  shows "m \<in> set (moments L s a) \<Longrightarrow> keeps (e_pager (y_env s)) m i"
    "sys_step L s a = Some (s', out) \<Longrightarrow> keeps (e_pager (y_env s)) (e_pager (y_env s')) i"
proof -
  have slot: "slot_ok (e_pager (y_env s))" by (rule simE [OF sim])
  show "keeps (e_pager (y_env s)) m i" if m: "m \<in> set (moments L s a)"
  proof (cases a)
    case (WritePut key v)
    then show ?thesis
      using m w write_put_ok [OF L fl] work_keeps [OF _ i(2)]
      by (cases "write_put L (y_env s) w key v") (auto elim!: write_put_ok [OF L fl])
  next
    case (WriteDelete key)
    then show ?thesis
      using m w work_keeps [OF _ i(2)]
      by (cases "write_delete L (y_env s) w key") (auto elim!: write_delete_ok [OF fl])
  next
    case Commit
    then show ?thesis
      using m w work_keeps [OF commit_pages_wrote [OF fl] i(2)] commit_points_keeps [OF fl slot _ i]
      by (auto split: option.splits)
  qed (use m in simp_all)
  show "keeps (e_pager (y_env s)) (e_pager (y_env s')) i" if st: "sys_step L s a = Some (s', out)"
  proof (cases a)
    case (WritePut key v)
    then show ?thesis
      using st w work_keeps(1) [OF _ i(2)] by (auto simp: bind_Some_iff elim!: write_put_ok [OF L fl])
  next
    case (WriteDelete key)
    then show ?thesis
      using st w work_keeps(1) [OF _ i(2)] by (auto simp: bind_Some_iff elim!: write_delete_ok [OF fl])
  next
    case Commit
    then show ?thesis
      using st w commit_keeps(5) [OF fl slot _ i] by (auto simp: bind_Some_iff)
  qed (use st w in \<open>auto simp: bind_Some_iff begin_read_def register_reader_def rollback_def\<close>)
qed

lemma idle_step_keeps:
  assumes "y_writer s = None"
  shows "m \<in> set (moments L s a) \<Longrightarrow> m = e_pager (y_env s)"
    "sys_step L s a = Some (s', out) \<Longrightarrow> e_pager (y_env s') = e_pager (y_env s)"
proof -
  show "m = e_pager (y_env s)" if "m \<in> set (moments L s a)" using that assms by (cases a) auto
  show "e_pager (y_env s') = e_pager (y_env s)" if "sys_step L s a = Some (s', out)"
    using that assms
    by (cases a) (auto simp: bind_Some_iff begin_read_def register_reader_def begin_write_def Let_def split: if_splits)
qed

lemma reader_tree:
  assumes L: "lib_ok L" and sim: "sim L s d" and k: "k < length (y_readers s)"
  obtains ot where "root_of ot = r_root (y_readers s ! k)" "wf_tree L (read_ctx (e_pager (y_env s))) ot"
    "contents ot = d_snaps d ! k"
    "\<And>a m i. m \<in> set (moments L s a) \<Longrightarrow> i \<in># tree_pages ot \<Longrightarrow> keeps (e_pager (y_env s)) m i"
    "\<And>a s' out i. sys_step L s a = Some (s', out) \<Longrightarrow> i \<in># tree_pages ot \<Longrightarrow>
       keeps (e_pager (y_env s)) (e_pager (y_env s')) i"
proof -
  let ?env = "y_env s"
  obtain ot0 es where st: "list_all2 (reader_ok L (e_pager ?env) (e_committed ?env) (concat es)
       (MVCC.reach (e_committed ?env) (concat es) (y_writer s))) (y_readers s) (d_snaps d)"
    "work_ok L ?env (concat es) (outside (e_committed ?env) ot0 es) (y_writer s) (d_work d)"
    using simE [OF sim] by metis
  then obtain ot where ot: "r_root (y_readers s ! k) = root_of ot" "wf_tree L (read_ctx (e_pager ?env)) ot"
      "contents ot = d_snaps d ! k" "\<forall>i\<in>#tree_pages ot. 2 \<le> i"
      "set_mset (tree_pages ot) \<inter> MVCC.reach (e_committed ?env) (concat es) (y_writer s) = {}"
    using k by (auto simp: list_all2_conv_all_nth reader_ok_def)
  have "(\<forall>a m. m \<in> set (moments L s a) \<longrightarrow> keeps (e_pager ?env) m i) \<and>
      (\<forall>a s' out. sys_step L s a = Some (s', out) \<longrightarrow> keeps (e_pager ?env) (e_pager (y_env s')) i)"
    if i: "i \<in># tree_pages ot" for i
  proof (cases "y_writer s")
    case None
    then show ?thesis using idle_step_keeps [OF None] by (metis keeps_refl)
  next
    case (Some w)
    then obtain wt where fl: "writer_ok L ?env (concat es) (outside (e_committed ?env) ot0 es) w wt" using st(2) by auto
    have "2 \<le> i" "i \<notin> spare (e_committed ?env) (concat es) (w_watermark w)" using ot(4,5) i Some by auto
    then show ?thesis using writer_step_keeps [OF L sim Some fl] by blast
  qed
  then show thesis using that ot(1-3) by metis
qed

section \<open>Lock-free reads\<close>

lemma reader_stays:
  assumes "sys_step L s a = Some (s', out)" "k < length (y_readers s)" "\<forall>j\<le>k. a \<noteq> EndRead j"
  shows "k < length (y_readers s')" "y_readers s' ! k = y_readers s ! k"
proof -
  have "k < length (y_readers s') \<and> y_readers s' ! k = y_readers s ! k"
  proof (cases a)
    case (EndRead j)
    then have "k < j" using assms(3) not_less by blast
    then show ?thesis using EndRead assms(1,2) by (auto simp: remove_at_def nth_append split: if_splits)
  qed (use assms in \<open>auto simp: bind_Some_iff nth_append split: prod.splits option.splits\<close>)
  then show "k < length (y_readers s')" "y_readers s' ! k = y_readers s ! k" by auto
qed

lemma run_moments_keep:
  assumes L: "lib_ok L"
  shows "sim L s d \<Longrightarrow> k < length (y_readers s) \<Longrightarrow> \<forall>j\<le>k. EndRead j \<notin> set acts \<Longrightarrow>
    root_of ot = r_root (y_readers s ! k) \<Longrightarrow> wf_tree L (read_ctx (e_pager (y_env s))) ot \<Longrightarrow>
    m \<in> set (run_moments L s acts) \<Longrightarrow> i \<in># tree_pages ot \<Longrightarrow> keeps (e_pager (y_env s)) m i"
proof (induction acts arbitrary: s d)
  case Nil
  then show ?case by simp
next
  case (Cons a acts)
  note prems = Cons.prems
  obtain ot' where ot': "root_of ot' = r_root (y_readers s ! k)" "wf_tree L (read_ctx (e_pager (y_env s))) ot'"
      "\<And>a m i. m \<in> set (moments L s a) \<Longrightarrow> i \<in># tree_pages ot' \<Longrightarrow> keeps (e_pager (y_env s)) m i"
      "\<And>a s' out i. sys_step L s a = Some (s', out) \<Longrightarrow> i \<in># tree_pages ot' \<Longrightarrow>
         keeps (e_pager (y_env s)) (e_pager (y_env s')) i"
    by (rule reader_tree [OF L prems(1,2)]) blast
  have eq: "ot' = ot" by (rule wf_tree_unique [OF ot'(2) prems(5)]) (simp add: ot'(1) prems(4))
  show ?case
  proof (cases "m \<in> set (moments L s a)")
    case True
    then show ?thesis using ot'(3) prems(7) eq by blast
  next
    case False
    then obtain s' out where st: "sys_step L s a = Some (s', out)" and m: "m \<in> set (run_moments L s' acts)"
      using prems(6) by (cases "sys_step L s a") auto
    note keep = ot'(4) [OF st, unfolded eq]
    obtain d' where d': "sim L s' d'" using sim_step [OF L prems(1) st] by blast
    have "\<forall>j\<le>k. a \<noteq> EndRead j" using prems(3) by auto
    note stay = reader_stays [OF st prems(2) this]
    have "keeps (e_pager (y_env s')) m i"
      by (rule Cons.IH [OF d' stay(1) _ _ _ m prems(7)])
        (use prems(3,4) stay(2) wf_tree_keeps [OF prems(5) keep] in auto)
    then show ?thesis using keep [OF prems(7)] keeps_trans by blast
  qed
qed

text \<open>C5: Lock-free reads. A reader reads its tree while any number of puts, deletes, commits and
  whole transactions of the writers go on: each page it reads may come from any moment of
  the file between their page writes. As long as it is registered, a get or a range gives
  exactly the data of its snapshot, and does not panic on a half-made change.\<close>

theorem reads_undisturbed:
  assumes "lib_ok L" "open_env L lim syncs None = Some (Inr env)"
    "run (sys_step L) (fresh_sys env) acts = Some (s, answers)"
    "k < length (y_readers s)" "\<forall>j\<le>k. EndRead j \<notin> set acts'" "mixed (run_moments L s acts') q"
  shows "\<exists>d. allows db_step (fresh_db []) acts answers = Some d \<and>
    read_get L ((y_env s)\<lparr>e_pager := q\<rparr>) (y_readers s ! k) key = Some (map_of (d_snaps d ! k) key) \<and>
    read_range L ((y_env s)\<lparr>e_pager := q\<rparr>) (y_readers s ! k) lo hi = Some (select lo hi (d_snaps d ! k))"
proof -
  obtain d where d: "allows db_step (fresh_db []) acts answers = Some d" "sim L s d"
    by (rule reachable_sim [OF assms(1-3)])
  obtain ot where ot: "root_of ot = r_root (y_readers s ! k)" "wf_tree L (read_ctx (e_pager (y_env s))) ot"
      "contents ot = d_snaps d ! k"
    by (rule reader_tree [OF assms(1) d(2) assms(4)]) blast
  have "wf_tree L (read_ctx q) ot"
    by (rule wf_tree_keeps [OF ot(2)])
      (rule mixed_keeps [OF assms(6)], rule run_moments_keep [OF assms(1) d(2) assms(4,5) ot(1,2)])
  then show ?thesis
    using d(1) ot btree_get_ok [of L "read_ctx q" ot key] btree_range_ok [of L "read_ctx q" ot lo hi]
    by (simp add: read_get_def read_range_def BTree_Store.view_def select_def)
qed

theorem reads_undisturbed_witness:
  "\<exists>env s. demo_open env \<and>
    run (sys_step bincode) (fresh_sys env) [BeginWrite, WritePut [1] [10], Commit, BeginRead] =
      Some (s, [Done, Done, Done, Done]) \<and>
    read_get bincode ((y_env s)\<lparr>e_pager := last (run_moments bincode s [BeginWrite, WritePut [1] [20], Commit])\<rparr>)
      (y_readers s ! 0) [1] = Some (Some [10])"
proof -
  obtain env where e: "demo_open env" by (rule demo_open)
  obtain s1 where 1: "run (sys_step bincode) (fresh_sys env) [BeginWrite, WritePut [1] [10], Commit] =
      Some (s1, [Done, Done, Done])" "one_leaf s1 1 2 10 3 []"
    by (rule race_first [OF e])
  let ?acts = "[BeginWrite, WritePut [1] [20], Commit]"
  obtain s where s: "sys_step bincode s1 BeginRead = Some (s, Done)" "length (y_readers s) = 1"
    using 1(2) by (cases "begin_read (y_env s1)") (simp add: one_leaf_def calm_def)
  have r: "run (sys_step bincode) (fresh_sys env) [BeginWrite, WritePut [1] [10], Commit, BeginRead] =
      Some (s, [Done, Done, Done, Done])"
    using run_append [OF 1(1) run_single, OF s(1)] by simp
  define q where "q = last (run_moments bincode s ?acts)"
  have o: "open_env bincode 50 [] None = Some (Inr env)" using e by (simp add: demo_open_def)
  have k: "0 < length (y_readers s)" "\<forall>j\<le>(0 :: nat). EndRead j \<notin> set ?acts" using s(2) by simp_all
  have "mixed (run_moments bincode s ?acts) q" unfolding q_def by (rule mixed_last) simp
  from reads_undisturbed [OF lib_ok_bincode o r k this, of "[1]" None None]
  have "read_get bincode ((y_env s)\<lparr>e_pager := q\<rparr>) (y_readers s ! 0) [1] = Some (Some [10])"
    by (auto simp: fresh_db_def ins_def)
  then show ?thesis using e r unfolding q_def by blast
qed

end
