(* ===== verification/Panics.thy ===== *)
theory Panics
  imports File_Props
begin

text \<open>
  A put, a delete or a commit may panic: the disk is full when an overflow page is written, a node
  does not fit in its page, a page number or transaction id is used up. Unwinding drops the
  transaction, which discards the overlay and releases the writer lock, and nothing else: the
  pages already written stay written. The steps of MVCC are extended here by the panics of the
  writer, with the states of the file in which they may happen, and a panic is a rollback.
\<close>

section \<open>Where an operation may stop\<close>

text \<open>The states of the file in \<open>store_value\<close>'s loop, in \<open>commit\<close>'s loop over the staged nodes and in
\<open>freelist::store\<close>'s loop, up to the page write or the panic that ends it.\<close>

fun chunk_states :: "lib \<Rightarrow> ctx \<Rightarrow> page_id option \<Rightarrow> bytes list \<Rightarrow> pager list" where
  "chunk_states L c next [] = [c_pager c]"
| "chunk_states L c next (chunk # rest) =
     c_pager c #
       (case do { (i, c1) \<leftarrow> alloc c;
                  buf \<leftarrow> encode_page L (sd_over L) \<lparr>op_next = next, op_data = chunk\<rparr>;
                  p \<leftarrow> write_page (c_pager c1) i buf;
                  Some (i, c1\<lparr>c_pager := p\<rparr>) } of
          None \<Rightarrow> []
        | Some (i, c2) \<Rightarrow> chunk_states L c2 (Some i) rest)"

fun flush_states :: "lib \<Rightarrow> pager \<Rightarrow> overlay \<Rightarrow> pager list" where
  "flush_states L p [] = [p]"
| "flush_states L p ((i, n) # rest) =
     p # (case do { buf \<leftarrow> encode_node L n; write_page p i buf } of
            None \<Rightarrow> [] | Some p' \<Rightarrow> flush_states L p' rest)"

fun store_states :: "lib \<Rightarrow> pager \<Rightarrow> page_id \<Rightarrow> page_id option \<Rightarrow> (u64 \<times> page_id) list list \<Rightarrow> pager list" where
  "store_states L p np next [] = [p]"
| "store_states L p np next (chunk # rest) =
     p # (case do { (i, np') \<leftarrow> bump np;
                    buf \<leftarrow> encode_page L (sd_free L) \<lparr>fp_next = next, fp_entries = chunk\<rparr>;
                    p' \<leftarrow> write_page p i buf;
                    Some (p', np', i) } of
            None \<Rightarrow> [] | Some (p', np', i) \<Rightarrow> store_states L p' np' (Some i) rest)"

definition value_states :: "lib \<Rightarrow> ctx \<Rightarrow> bytes \<Rightarrow> pager list" where
  "value_states L c value =
     (if length value \<le> INLINE_VALUE_LIMIT then [c_pager c]
      else chunk_states L c None (rev (chunks OVERFLOW_CHUNK value)))"

definition commit_states :: "lib \<Rightarrow> environment \<Rightarrow> write_txn \<Rightarrow> pager list" where
  "commit_states L env w =
     flush_states L (e_pager env) (w_overlay w) @
     (case flush L (e_pager env) (w_overlay w) of
        Some (p, Inr u) \<Rightarrow> store_states L p (w_next_page w) None
          (chunks FREELIST_CHUNK (freed_entries (txn_id (e_committed env) + 1) w))
      | _ \<Rightarrow> [])"

section \<open>These are the writes of the operations\<close>

lemma chunk_states_first: "c_pager c \<in> set (chunk_states L c next cs)"
  by (cases cs) simp_all

lemma chunk_states_last:
  "write_chunks L c next cs = Some (next', c') \<Longrightarrow> c_pager c' \<in> set (chunk_states L c next cs)"
  by (induction L c "next" cs rule: write_chunks.induct) (auto simp: bind_Some_iff)

lemma alloc_obsolete:
  "alloc (c\<lparr>c_obsolete := l\<rparr>) = map_option (map_prod id (\<lambda>c. c\<lparr>c_obsolete := l\<rparr>)) (alloc c)"
  by (simp add: alloc_def split: option.split)

lemma chunk_states_obsolete:
  "chunk_states L (c\<lparr>c_obsolete := l\<rparr>) next cs = chunk_states L c next cs"
proof (induction cs arbitrary: c "next")
  case (Cons chunk rest)
  show ?case
  proof (cases "alloc c")
    case None
    then show ?thesis by (simp add: alloc_obsolete)
  next
    case (Some r)
    obtain i c1 where r: "r = (i, c1)" by fastforce
    show ?thesis
    proof (cases "encode_page L (sd_over L) \<lparr>op_next = next, op_data = chunk\<rparr>")
      case None
      then show ?thesis using Some r by (simp add: alloc_obsolete)
    next
      case buf: (Some buf)
      have "chunk_states L (c1\<lparr>c_obsolete := l, c_pager := p\<rparr>) next rest = chunk_states L (c1\<lparr>c_pager := p\<rparr>) next rest"
        for p "next"
      proof -
        have "c1\<lparr>c_obsolete := l, c_pager := p\<rparr> = c1\<lparr>c_pager := p, c_obsolete := l\<rparr>" by simp
        then show ?thesis using Cons.IH [of "c1\<lparr>c_pager := p\<rparr>" "next"] by (simp only:)
      qed
      then show ?thesis
        using Some r buf by (cases "write_page (c_pager c1) i buf") (simp_all add: alloc_obsolete)
    qed
  qed
qed simp

lemma value_states_obsolete: "value_states L (c\<lparr>c_obsolete := l\<rparr>) value = value_states L c value"
  by (simp add: value_states_def chunk_states_obsolete)

lemma value_states_first: "c_pager c \<in> set (value_states L c value)"
  by (simp add: value_states_def chunk_states_first)

lemma store_value_states: "store_value L c value = Some (sv, c') \<Longrightarrow> c_pager c' \<in> set (value_states L c value)"
  by (auto simp: store_value_def value_states_def bind_Some_iff chunk_states_last split: if_splits)

lemma retire_chain_obsolete:
  assumes "retire_chain L c cur = Some c'"
  shows "\<exists>l. c' = c\<lparr>c_obsolete := l\<rparr>"
proof (rule retire_chain.raw_induct [where P = "\<lambda>L c cur c'. \<exists>l. c' = c\<lparr>c_obsolete := l\<rparr>", OF _ assms])
  fix f :: "lib \<Rightarrow> ctx \<Rightarrow> page_id option \<Rightarrow> ctx option" and L c cur c'
  assume IH: "\<And>L c cur c'. f L c cur = Some c' \<Longrightarrow> \<exists>l. c' = c\<lparr>c_obsolete := l\<rparr>"
    and r: "(case cur of None \<Rightarrow> Some c
      | Some i \<Rightarrow> do { page \<leftarrow> over_at L (c_pager c) i;
                      f L (c\<lparr>c_obsolete := c_obsolete c @ [i]\<rparr>) (op_next page) }) = Some c'"
  show "\<exists>l. c' = c\<lparr>c_obsolete := l\<rparr>"
  proof (cases cur)
    case None
    then show ?thesis using r by (intro exI [of _ "c_obsolete c"]) simp
  next
    case (Some i)
    then show ?thesis using r by (auto simp: bind_Some_iff dest!: IH)
  qed
qed

lemma retire_value_obsolete: "retire_value L c sv = Some c' \<Longrightarrow> \<exists>l. c' = c\<lparr>c_obsolete := l\<rparr>"
  by (cases sv) (auto intro: exI [of _ "c_obsolete c"] dest: retire_chain_obsolete)

lemma insert_leaf_states:
  "insert_leaf L c key value keys values = Some (r, c') \<Longrightarrow> c_pager c' \<in> set (value_states L c value)"
  by (auto simp: insert_leaf_def bind_Some_iff value_states_obsolete split: search.splits
      dest!: retire_value_obsolete store_value_states)

lemma cow_page_pager: "cow_page c scratch i = Some (j, c') \<Longrightarrow> c_pager c' = c_pager c"
  by (auto simp: cow_page_def mark_obsolete_def dest: alloc_fields(1) split: if_splits)

lemma finish_pager:
  "finish_leaf L c scratch i keys values = Some (res, c') \<Longrightarrow> c_pager c' = c_pager c"
  "finish_internal L c scratch i keys children = Some (res, c') \<Longrightarrow> c_pager c' = c_pager c"
  by (auto simp: finish_leaf_def finish_internal_def bind_Some_iff Let_def cow_page_pager
      dest!: alloc_fields(1) split: if_splits)

lemma insert_rec_states:
  "insert_rec L key value c i = Some (res, c') \<Longrightarrow> c_pager c' \<in> set (value_states L c value)"
proof -
  let ?P = "\<lambda>L key value c i y. c_pager (snd y) \<in> set (value_states L c value)"
  assume "insert_rec L key value c i = Some (res, c')"
  then have "?P L key value c i (res, c')"
  proof (rule insert_rec.raw_induct [where P = ?P, rotated])
    fix f L key "value" c i y
    assume IH: "\<And>L key value c i y. f L key value c i = Some y \<Longrightarrow> ?P L key value c i y"
      and y: "(do { n \<leftarrow> ctx_read L c i;
          case n of
            Leaf keys values \<Rightarrow>
              do { ((keys', values'), c1) \<leftarrow> insert_leaf L c key value keys values;
                   finish_leaf L c1 (is_scratch c i) i keys' values' }
          | Internal keys children \<Rightarrow>
              do { child \<leftarrow> get_at children (child_index keys key);
                   (res, c1) \<leftarrow> f L key value c child;
                   (keys', children') \<leftarrow> absorb_split keys children (child_index keys key) res;
                   finish_internal L c1 (is_scratch c i) i keys' children' } }) = Some y"
    obtain res c' where eq: "y = (res, c')" by fastforce
    from y obtain n where n: "ctx_read L c i = Some n" by (auto simp: bind_Some_iff)
    show "?P L key value c i y"
    proof (cases n)
      case (Leaf ks vs)
      then show ?thesis
        using y n eq by (auto simp: bind_Some_iff dest!: finish_pager(1) insert_leaf_states)
    next
      case (Internal ks cs)
      then show ?thesis
        using y n eq by (auto simp: bind_Some_iff dest!: finish_pager(2) IH)
    qed
  qed
  then show ?thesis by simp
qed

lemma write_put_states:
  assumes "write_put L env w key value = Some (w', env')"
  shows "e_pager env' \<in> set (value_states L (txn_ctx env w) value)"
proof -
  obtain i c where p: "btree_put L (txn_ctx env w) (w_root w) key value = Some (i, c)" "e_pager env' = c_pager c"
    using assms by (auto simp: write_put_def bind_Some_iff)
  then show ?thesis
    by (auto simp: btree_put_def bind_Some_iff dest!: store_value_states insert_rec_states alloc_fields(1)
        split: option.splits)
qed

lemma flush_states_last: "flush L p ov = Some (p', r) \<Longrightarrow> p' \<in> set (flush_states L p ov)"
  by (induction L p ov rule: flush.induct) (auto split: option.splits)

lemma store_states_last:
  "store_chunks L bump p np next cs = Some (p', r) \<Longrightarrow> p' \<in> set (store_states L p np next cs)"
proof (induction cs arbitrary: p np "next")
  case (Cons c cs)
  then show ?case by (auto split: option.splits prod.splits)
qed simp

lemma commit_states_last: "commit_pages L env w = Some (p, r) \<Longrightarrow> p \<in> set (commit_states L env w)"
  by (auto simp: commit_pages_def commit_states_def store_def Let_def
      split: option.splits sum.splits if_splits prod.splits dest!: flush_states_last store_states_last)

section \<open>They touch spare pages only\<close>

lemma chunk_states_wrote:
  "p \<in> set (chunk_states L c next cs) \<Longrightarrow> wrote (allocable c) (c_pager c) p"
proof (induction cs arbitrary: c "next")
  case (Cons chunk rest)
  show ?case
  proof (cases "p = c_pager c")
    case False
    then obtain i c1 buf q where a: "alloc c = Some (i, c1)" and w: "write_page (c_pager c1) i buf = Some q"
        and p: "p \<in> set (chunk_states L (c1\<lparr>c_pager := q\<rparr>) (Some i) rest)"
      using Cons.prems by (auto simp: bind_Some_iff split: option.splits dest!: sym [of "Some _"])
    have "wrote (allocable (c1\<lparr>c_pager := q\<rparr>)) q p" using Cons.IH [OF p] by simp
    with wrote_write [OF w] have "wrote ({i} \<union> allocable (c1\<lparr>c_pager := q\<rparr>)) (c_pager c1) p" by (rule wrote_trans)
    then show ?thesis
      using alloc_allocable [OF a] alloc_fields(1) [OF a] by (auto elim!: wrote_mono simp: allocable_def)
  qed simp
qed simp

lemma value_states_wrote: "p \<in> set (value_states L c value) \<Longrightarrow> wrote (allocable c) (c_pager c) p"
  by (auto simp: value_states_def chunk_states_wrote split: if_splits)

lemma flush_states_wrote: "p \<in> set (flush_states L q ov) \<Longrightarrow> wrote (fst ` set ov) q p"
proof (induction L q ov rule: flush_states.induct)
  case (2 L q i n rest)
  show ?case
  proof (cases "p = q")
    case False
    then obtain buf q' where w: "write_page q i buf = Some q'" and p: "wrote (fst ` set rest) q' p"
      using 2 by (auto simp: bind_Some_iff split: option.splits dest!: sym [of "Some _"])
    from wrote_trans [OF wrote_write [OF w] p] show ?thesis by simp
  qed simp
qed simp

lemma store_states_wrote: "p \<in> set (store_states L q np next cs) \<Longrightarrow> wrote {i. np \<le> i} q p"
proof (induction cs arbitrary: q np "next")
  case (Cons c cs)
  show ?case
  proof (cases "p = q")
    case False
    then obtain buf q' where np: "np \<noteq> u64_max" and w: "write_page q np buf = Some q'"
        and p: "p \<in> set (store_states L q' (np + 1) (Some np) cs)"
      using Cons.prems by (auto simp: bind_Some_iff bump_Some split: option.splits dest!: sym [of "Some _"])
    from wrote_trans [OF wrote_write [OF w] Cons.IH [OF p]] show ?thesis
      by (rule wrote_mono) (use less_plus_one [OF np] in auto)
  qed simp
qed simp

lemma panic_states_wrote:
  assumes "writer_ok L env fl K w ot"
  shows "p \<in> set (value_states L (txn_ctx env w) value) \<Longrightarrow> wrote (spare (e_committed env) fl (w_watermark w)) (e_pager env) p"
    "p \<in> set (commit_states L env w) \<Longrightarrow> wrote (spare (e_committed env) fl (w_watermark w)) (e_pager env) p"
proof -
  let ?S = "spare (e_committed env) fl (w_watermark w)"
  have al: "allocable (txn_ctx env w) \<subseteq> ?S" using assms by (auto simp: writer_ok_def)
  have "fst ` set (w_overlay w) = staged (txn_ctx env w)"
    by (simp add: staged_def dom_map_of_conv_image_fst)
  then have ov: "fst ` set (w_overlay w) \<subseteq> ?S" using assms by (auto simp: writer_ok_def)
  have np: "{i. w_next_page w \<le> i} \<subseteq> ?S" using assms by (auto simp: writer_ok_def spare_def)
  show "wrote ?S (e_pager env) p" if "p \<in> set (value_states L (txn_ctx env w) value)"
    using wrote_mono [OF value_states_wrote [OF that] al] by simp
  show "wrote ?S (e_pager env) p" if p: "p \<in> set (commit_states L env w)"
  proof (cases "p \<in> set (flush_states L (e_pager env) (w_overlay w))")
    case True
    then show ?thesis using wrote_mono [OF flush_states_wrote ov] by blast
  next
    case False
    then obtain q u cs where f: "flush L (e_pager env) (w_overlay w) = Some (q, Inr u)"
        and st: "p \<in> set (store_states L q (w_next_page w) None cs)"
      using p by (auto simp: commit_states_def split: option.splits sum.splits dest!: sym [of "Some _"])
    have "wrote ?S (e_pager env) q" by (rule wrote_mono [OF flush_wrote [OF f] ov])
    moreover have "wrote ?S q p" by (rule wrote_mono [OF store_states_wrote [OF st] np])
    ultimately show ?thesis using wrote_trans by fastforce
  qed
qed

section \<open>Unwinding\<close>

text \<open>The meta page always fits in its page, so a commit that panics does so before the first sync.\<close>

lemma commit_panics:
  assumes "lib_ok L" "lib_sizes L"
  shows "commit L env w = None \<longleftrightarrow> commit_pages L env w = None"
proof -
  have "encode_meta L m = None \<Longrightarrow> False" for m
    using encode_meta_page [OF assms, of m] by (auto simp: encode_meta_def)
  then show ?thesis
    by (auto simp: commit_def commit_meta_def write_meta_slot_def Let_def
        split: option.splits sum.splits prod.splits)
qed

text \<open>A panic of the writer: the file as it is then, the lock released, the transaction gone.\<close>

definition unwind :: "pager \<Rightarrow> sys \<Rightarrow> sys" where
  "unwind p s = s\<lparr>y_env := (y_env s)\<lparr>e_pager := p, e_writer := False\<rparr>, y_writer := None\<rparr>"

inductive panic_step :: "lib \<Rightarrow> sys \<Rightarrow> action \<Rightarrow> sys \<Rightarrow> bool" for L where
  put: "y_writer s = Some w \<Longrightarrow> write_put L (y_env s) w key value = None \<Longrightarrow>
    p \<in> set (value_states L (txn_ctx (y_env s) w) value) \<Longrightarrow> panic_step L s (WritePut key value) (unwind p s)"
| delete: "y_writer s = Some w \<Longrightarrow> write_delete L (y_env s) w key = None \<Longrightarrow>
    panic_step L s (WriteDelete key) (unwind (e_pager (y_env s)) s)"
| commit: "y_writer s = Some w \<Longrightarrow> commit_pages L (y_env s) w = None \<Longrightarrow>
    p \<in> set (commit_states L (y_env s) w) \<Longrightarrow> panic_step L s Commit (unwind p s)"

text \<open>Runs of steps with their answers and of panics, which have none; what the specification says.\<close>

inductive panicky_run :: "lib \<Rightarrow> sys \<Rightarrow> (action \<times> answer option) list \<Rightarrow> sys \<Rightarrow> bool" for L where
  Done: "panicky_run L s [] s"
| Step: "sys_step L s a = Some (s1, out) \<Longrightarrow> panicky_run L s1 tr s2 \<Longrightarrow> panicky_run L s ((a, Some out) # tr) s2"
| Panic: "panic_step L s a s1 \<Longrightarrow> panicky_run L s1 tr s2 \<Longrightarrow> panicky_run L s ((a, None) # tr) s2"

fun allows_panics :: "db \<Rightarrow> (action \<times> answer option) list \<Rightarrow> db option" where
  "allows_panics d [] = Some d"
| "allows_panics d ((a, Some out) # tr) = do { d1 \<leftarrow> db_step d a out; allows_panics d1 tr }"
| "allows_panics d ((a, None) # tr) = allows_panics (d\<lparr>d_work := None\<rparr>) tr"

inductive_cases panic_stepE: "panic_step L s a s'"

lemma panic_step_cases:
  assumes "panic_step L s a s'"
  obtains w p where "y_writer s = Some w" "s' = unwind p s"
    "p = e_pager (y_env s) \<or> p \<in> set (commit_states L (y_env s) w) \<or>
     (\<exists>value. p \<in> set (value_states L (txn_ctx (y_env s) w) value))"
  using assms by (auto elim!: panic_stepE)

lemma sim_panic:
  assumes sim: "sim L s d" and pn: "panic_step L s a s'"
  shows "sim L s' (d\<lparr>d_work := None\<rparr>)"
proof -
  obtain ot "is" es where st: "committed L (e_pager (y_env s)) (e_committed (y_env s)) ot is es"
    "contents ot = d_data d"
    "slot_ok (e_pager (y_env s))" "mset (e_readers (y_env s)) = mset (map r_txn_id (y_readers s))"
    "list_all2 (reader_ok L (e_pager (y_env s)) (e_committed (y_env s)) (concat es)
       (MVCC.reach (e_committed (y_env s)) (concat es) (y_writer s))) (y_readers s) (d_snaps d)"
    "work_ok L (y_env s) (concat es) (outside (e_committed (y_env s)) ot es) (y_writer s) (d_work d)"
    "y_synced s \<longrightarrow> durable L (e_pager (y_env s)) (e_committed (y_env s)) ot is es"
    by (rule simE [OF sim])
  obtain w p where w: "y_writer s = Some w" and s': "s' = unwind p s"
      and p: "p = e_pager (y_env s) \<or> p \<in> set (commit_states L (y_env s) w) \<or>
        (\<exists>value. p \<in> set (value_states L (txn_ctx (y_env s) w) value))"
    by (rule panic_step_cases [OF pn])
  let ?S = "spare (e_committed (y_env s)) (concat es) (w_watermark w)"
  obtain wt where "writer_ok L (y_env s) (concat es) (outside (e_committed (y_env s)) ot es) w wt" using st(6) w by auto
  then have wr: "wrote ?S (e_pager (y_env s)) p" using p panic_states_wrote by auto
  have "reader_ok L p (e_committed (y_env s)) (concat es) {} r xs"
    if "reader_ok L (e_pager (y_env s)) (e_committed (y_env s)) (concat es) ?S r xs" for r xs
    using reader_ok_wrote [OF that wr order.refl] by (auto simp: reader_ok_def)
  then have "list_all2 (reader_ok L p (e_committed (y_env s)) (concat es) {}) (y_readers s) (d_snaps d)"
    using st(5) w by (auto elim: list_all2_mono)
  moreover have "committed L p (e_committed (y_env s)) ot is es" by (rule committed_wrote [OF st(1) wr order.refl])
  moreover have "y_synced s \<longrightarrow> durable L p (e_committed (y_env s)) ot is es"
    using st(7) durable_wrote [OF _ wr order.refl] by blast
  ultimately show ?thesis
    using st(2,4) wrote_slot [OF wr st(3)] by (intro simI [of L _ ot "is" es]) (simp_all add: s' unwind_def)
qed

lemma panicky_run_sim:
  assumes "lib_ok L"
  shows "panicky_run L s tr s' \<Longrightarrow> sim L s d \<Longrightarrow> \<exists>d'. allows_panics d tr = Some d' \<and> sim L s' d'"
proof (induction arbitrary: d rule: panicky_run.induct)
  case (Done s)
  then show ?case by simp
next
  case (Step s a s1 out tr s2)
  obtain d1 where "db_step d a out = Some d1" "sim L s1 d1" using sim_step [OF assms Step.prems Step.hyps(1)] by blast
  then show ?case using Step.IH by simp
next
  case (Panic s a s1 tr s2)
  then show ?case using sim_panic by simp
qed

text \<open>C14: A panic is a rollback. However often puts, deletes and commits panic (at a page write, with
  whatever they have written by then left in the file), every run of readers and writers is
  one the specification allows with a panic discarding the changes of its transaction and
  nothing else; and if no sync failed, a crash at any time leaves a file that opens with
  exactly the data of the transactions that committed.\<close>

theorem panics_roll_back:
  assumes "lib_ok L" "open_env L lim syncs None = Some (Inr env)" "panicky_run L (fresh_sys env) tr s"
  shows "\<exists>d. allows_panics (fresh_db []) tr = Some d \<and>
    (y_synced s \<and> crash L (e_pager (y_env s)) f \<longrightarrow>
       (\<exists>env'. open_env L lim' syncs' (Some f) = Some (Inr env') \<and> first_rows L env' = Some (d_data d)))"
proof -
  have "sim L (fresh_sys env) (fresh_db [])" using open_new_sim [OF assms(1,2)] by blast
  then obtain d where d: "allows_panics (fresh_db []) tr = Some d" "sim L s d"
    using panicky_run_sim [OF assms(1,3)] by blast
  moreover have "\<exists>env'. open_env L lim' syncs' (Some f) = Some (Inr env') \<and> first_rows L env' = Some (d_data d)"
    if "y_synced s" "crash L (e_pager (y_env s)) f"
    using crash_reopen [OF d(2) that] sim_first_rows by metis
  ultimately show ?thesis by blast
qed

text \<open>A disk with room for the meta pages only: the put of a large value panics, and the next
transaction begins as if there had been none.\<close>

theorem panics_roll_back_witness:
  "\<exists>env s. open_env bincode 2 [] None = Some (Inr env) \<and>
    panicky_run bincode (fresh_sys env)
      [(BeginWrite, Some Done), (WritePut [1] (replicate 600 7), None), (BeginWrite, Some Done)] s \<and>
    (\<exists>d. allows_panics (fresh_db [])
      [(BeginWrite, Some Done), (WritePut [1] (replicate 600 7), None), (BeginWrite, Some Done)] = Some d)"
proof -
  obtain env where e: "open_env bincode 2 [] None = Some (Inr env)" "p_limit (e_pager env) = 2"
      "e_committed env = initial_meta"
    using open_new_total [OF lib_ok_bincode lib_sizes_bincode, of 2] by auto
  note n = open_new_durable(2,3) [OF lib_ok_bincode e(1)]
  let ?s1 = "\<lparr>y_env = env\<lparr>e_writer := True\<rparr>, y_readers = [], y_writer = Some demo_first, y_synced = True\<rparr>"
  have b: "begin_write bincode env = Some (demo_first, env\<lparr>e_writer := True\<rparr>)"
    using e n by (simp add: begin_write_def initial_meta_def META_PAGE_COUNT_def load_def demo_first_def
        load_loop.simps oldest_reader_txn_id_def Let_def)
  then have 1: "sys_step bincode (fresh_sys env) BeginWrite = Some (?s1, Done)" by (simp add: fresh_sys_def)
  have "chunks OVERFLOW_CHUNK (replicate 600 (7 :: byte)) = [replicate 600 7]"
    by (simp add: chunks.simps OVERFLOW_CHUNK_def)
  then have "write_put bincode (env\<lparr>e_writer := True\<rparr>) demo_first [1] (replicate 600 7) = None"
    using e(2) by (simp add: write_put_def btree_put_def store_value_def INLINE_VALUE_LIMIT_def alloc_def txn_ctx_def
        demo_first_def write_page_def u64_max_def bind_eq_None_conv)
  then have "panic_step bincode ?s1 (WritePut [1] (replicate 600 7)) (unwind (e_pager env) ?s1)"
    using panic_step.put [of ?s1 demo_first bincode "[1]" "replicate 600 7" "e_pager env"]
      value_states_first [of "txn_ctx (env\<lparr>e_writer := True\<rparr>) demo_first" bincode "replicate 600 7"] by simp
  moreover have u: "unwind (e_pager env) ?s1 = fresh_sys env" using n by (simp add: unwind_def fresh_sys_def)
  ultimately have r: "panicky_run bincode (fresh_sys env)
      [(BeginWrite, Some Done), (WritePut [1] (replicate 600 7), None), (BeginWrite, Some Done)] ?s1"
    using 1 by (auto intro!: panicky_run.intros)
  show ?thesis using e(1) r panics_roll_back [OF lib_ok_bincode e(1) r] by blast
qed

end
