(* ===== verification/Leaf_Split.thy ===== *)
theory Leaf_Split
  imports Reader_Race
begin

text \<open>
  A leaf over the split threshold is halved by the number of its entries, not by their size,
  and once only. Entries of very different sizes can therefore end up in a half that does not
  fit in a page, which the commit finds out when it encodes the node: a panic.
\<close>

section \<open>Appending to a leaf\<close>

lemma search_append:
  assumes "\<forall>x\<in>set ks. x < k"
  shows "binary_search_by (\<lambda>x. cmp x k) ks = Missing (length ks)"
proof -
  have l: "cmp (ks ! j) k = Less" if "j < length ks" for j using assms that by (simp add: cmp_def)
  then have s: "search_sorted (\<lambda>x. cmp x k) ks" by (auto simp: search_sorted_def)
  show ?thesis
  proof (cases "binary_search_by (\<lambda>x. cmp x k) ks")
    case (Found i)
    then show ?thesis using binary_search_Found [OF s Found] l by auto
  next
    case (Missing i)
    have "\<not> i < length ks" using binary_search_Missing(3) [OF s Missing, of i] l by auto
    then show ?thesis using binary_search_Missing(1) [OF s Missing] Missing by simp
  qed
qed

lemma insert_rec_append:
  assumes c: "map_of (c_overlay c) i = Some (Leaf ks vs)" and k: "\<forall>x\<in>set ks. x < k" "length vs = length ks"
    and v: "length v \<le> 512"
  defines "n \<equiv> Leaf (ks @ [k]) (vs @ [Inline v])" and "mid \<equiv> Suc (length ks) div 2"
  shows "node_size n \<le> 3068 \<Longrightarrow> insert_rec bincode k v c i = Some ((i, None), put_node c i n)"
    "3068 < node_size n \<Longrightarrow> alloc c = Some (j, c1) \<Longrightarrow> insert_rec bincode k v c i =
      Some ((i, Some ((ks @ [k]) ! mid, j)),
        put_node (put_node c1 i (Leaf (take mid (ks @ [k])) (take mid (vs @ [Inline v])))) j
          (Leaf (drop mid (ks @ [k])) (drop mid (vs @ [Inline v]))))"
proof -
  have i: "insert_leaf bincode c k v ks vs = Some ((ks @ [k], vs @ [Inline v]), c)"
    using search_append [OF k(1)] k(2) v
    by (simp add: insert_leaf_def insert_at_def store_value_def INLINE_VALUE_LIMIT_def)
  have rec: "insert_rec bincode k v c i = finish_leaf bincode c True i (ks @ [k]) (vs @ [Inline v])"
    using c i by (subst insert_rec.simps) (simp add: ctx_read_def read_node_def is_scratch_def)
  have len: "encoded_len (sd_node bincode) n = node_size n + 4"
    using lib_sizes_bincode by (simp add: encoded_len_def lib_sizes_def)
  show "insert_rec bincode k v c i = Some ((i, None), put_node c i n)" if "node_size n \<le> 3068"
    unfolding rec using that len by (simp add: finish_leaf_def SPLIT_THRESHOLD_def cow_page_def n_def)
  show "insert_rec bincode k v c i =
      Some ((i, Some ((ks @ [k]) ! mid, j)),
        put_node (put_node c1 i (Leaf (take mid (ks @ [k])) (take mid (vs @ [Inline v])))) j
          (Leaf (drop mid (ks @ [k])) (drop mid (vs @ [Inline v]))))"
    if "3068 < node_size n" "alloc c = Some (j, c1)"
  proof -
    have m: "mid \<le> length ks" by (simp add: mid_def)
    have "get_at (drop mid (ks @ [k])) 0 = Some ((ks @ [k]) ! mid)" using m by (simp add: get_at_def del: drop_append)
    then show ?thesis
      unfolding rec using that len m k(2)
      by (simp add: finish_leaf_def SPLIT_THRESHOLD_def cow_page_def n_def slice_from_def slice_to_def
          Let_def mid_def)
  qed
qed

section \<open>Thirty-four puts into one leaf\<close>

definition leaf_of :: "rows \<Rightarrow> node" where
  "leaf_of es = Leaf (map fst es) (map (Inline \<circ> snd) es)"

definition leaf_writer :: "rows \<Rightarrow> write_txn" where
  "leaf_writer es = demo_first\<lparr>w_root := Some 2, w_next_page := 3, w_overlay := [(2, leaf_of es)]\<rparr>"

lemma node_size_leaf_of:
  "node_size (leaf_of es) = 20 + sum_list (map (\<lambda>(k, v). 20 + length k + length v) es)"
  by (induction es) (auto simp: leaf_of_def)

lemma put_leaf_writer:
  assumes "\<forall>x\<in>set (map fst es). x < k" "length v \<le> 512" "node_size (leaf_of (es @ [(k, v)])) \<le> 3068"
  shows "write_put bincode env (leaf_writer es) k v = Some (leaf_writer (es @ [(k, v)]), env)"
proof -
  let ?c = "txn_ctx env (leaf_writer es)"
  have "insert_rec bincode k v ?c 2 = Some ((2, None), put_node ?c 2 (leaf_of (es @ [(k, v)])))"
    using insert_rec_append(1) [of ?c 2 "map fst es" "map (Inline \<circ> snd) es" k v] assms
    by (simp add: leaf_writer_def leaf_of_def)
  then show ?thesis
    by (simp add: write_put_def btree_put_def leaf_writer_def put_node_def put_ctx_def txn_ctx_def demo_first_def)
qed

definition puts :: "rows \<Rightarrow> action list" where
  "puts es = map (\<lambda>(k, v). WritePut k v) es"

lemma run_puts:
  assumes env: "demo_open env"
  shows "es \<noteq> [] \<Longrightarrow> sorted_wrt (<) (map fst es) \<Longrightarrow> \<forall>(k, v)\<in>set es. length v \<le> 512 \<Longrightarrow>
    node_size (leaf_of es) \<le> 3068 \<Longrightarrow>
    run (sys_step bincode) (fresh_sys env) (BeginWrite # puts es) =
      Some ((fresh_sys env)\<lparr>y_env := env\<lparr>e_writer := True\<rparr>, y_writer := Some (leaf_writer es)\<rparr>, replicate (Suc (length es)) Done)"
proof (induction es rule: rev_induct)
  case (snoc kv es)
  obtain k v where kv: "kv = (k, v)" by fastforce
  let ?env = "env\<lparr>e_writer := True\<rparr>"
  show ?case
  proof (cases "es = []")
    case True
    have "leaf_writer [(k, v)] = demo_put k v" by (simp add: leaf_writer_def demo_put_def leaf_of_def)
    then show ?thesis
      using demo_store(2,4) [OF env] snoc.prems(3) True kv
      by (simp add: puts_def fresh_sys_def)
  next
    case False
    have "node_size (leaf_of es) \<le> 3068" using snoc.prems(4) by (simp add: node_size_leaf_of split_beta)
    then have IH: "run (sys_step bincode) (fresh_sys env) (BeginWrite # puts es) =
        Some ((fresh_sys env)\<lparr>y_env := ?env, y_writer := Some (leaf_writer es)\<rparr>, replicate (Suc (length es)) Done)"
      using snoc.IH False snoc.prems by (auto simp: sorted_wrt_append)
    have "\<forall>x\<in>set (map fst es). x < k" using snoc.prems(2) by (auto simp: sorted_wrt_append kv)
    then have "write_put bincode ?env (leaf_writer es) k v = Some (leaf_writer (es @ [kv]), ?env)"
      using put_leaf_writer [of es k v ?env] snoc.prems kv by auto
    then have "sys_step bincode ((fresh_sys env)\<lparr>y_env := ?env, y_writer := Some (leaf_writer es)\<rparr>) (WritePut k v) =
        Some ((fresh_sys env)\<lparr>y_env := ?env, y_writer := Some (leaf_writer (es @ [kv]))\<rparr>, Done)" by simp
    from run_append [OF IH run_single, OF this] show ?thesis
      by (simp add: puts_def kv replicate_append_same)
  qed
qed simp

section \<open>Splitting the rightmost leaf\<close>

lemma alloc_grow:
  "c_scratch_pool c = [] \<Longrightarrow> c_free_list c = [] \<Longrightarrow> c_next_page c \<noteq> u64_max \<Longrightarrow>
    alloc c = Some (c_next_page c, c\<lparr>c_next_page := c_next_page c + 1\<rparr>)"
  by (simp add: alloc_def)

lemma split_rightmost:
  assumes i: "map_of (c_overlay c) i = Some (leaf_of es)" "\<forall>x\<in>set (map fst es). x < k" "length v \<le> 512"
    and halves: "es @ [(k, v)] = l @ r" "length l = Suc (length es) div 2"
    and size: "3068 < node_size (leaf_of (l @ r))"
    and new: "c_scratch_pool c = []" "c_free_list c = []" "c_next_page c \<noteq> u64_max"
  shows "insert_rec bincode k v c i = Some ((i, Some (fst (hd r), c_next_page c)),
    c\<lparr>c_next_page := c_next_page c + 1,
      c_overlay := AList.update (c_next_page c) (leaf_of r) (AList.update i (leaf_of l) (c_overlay c))\<rparr>)"
proof -
  let ?ks = "map fst es @ [k]" and ?vs = "map (Inline \<circ> snd) es @ [Inline v]"
  have cut: "?ks = map fst l @ map fst r" "?vs = map (Inline \<circ> snd) l @ map (Inline \<circ> snd) r"
    using arg_cong [OF halves(1), of "map fst"] arg_cong [OF halves(1), of "map (Inline \<circ> snd)"] by simp_all
  have "r \<noteq> []" using arg_cong [OF halves(1), of length] halves(2) by auto
  then have sep: "(map fst l @ map fst r) ! length l = fst (hd r)" by (simp add: nth_append hd_conv_nth)
  show ?thesis
    using insert_rec_append(2) [of c i "map fst es" "map (Inline \<circ> snd) es" k v, OF _ _ _ i(3) _ alloc_grow [OF new]]
      i(1,2) size
    unfolding cut by (simp add: leaf_of_def put_node_def sep flip: halves(2))
qed

lemma child_index_last:
  assumes "sorted ks" "\<forall>x\<in>set ks. x \<le> k"
  shows "child_index ks k = length ks"
proof -
  let ?i = "partition_point (\<lambda>x. x \<le> k) ks"
  note pp = partition_point_le [OF assms(1), of k]
  have "drop ?i ks = []"
  proof (rule ccontr)
    assume "drop ?i ks \<noteq> []"
    then have "hd (drop ?i ks) \<in> set (drop ?i ks)" by simp
    then have "k < hd (drop ?i ks)" "hd (drop ?i ks) \<in> set ks" using pp by (blast, meson in_set_dropD)
    then show False using assms(2) leD by blast
  qed
  then have "length ks \<le> ?i" by (metis drop_eq_Nil)
  then show ?thesis unfolding child_index_def using pp by (metis le_antisym)
qed

lemma put_rightmost:
  assumes w: "w_root w = Some t" "map_of (w_overlay w) t = Some (Internal seps (cs @ [i]))" "t \<noteq> i"
      "w_next_page w \<noteq> t" "length cs = length seps"
    and seps: "sorted seps" "\<forall>x\<in>set seps. x \<le> k"
    and i: "map_of (w_overlay w) i = Some (leaf_of es)" "\<forall>x\<in>set (map fst es). x < k" "length v \<le> 512"
    and halves: "es @ [(k, v)] = l @ r" "length l = Suc (length es) div 2"
    and size: "3068 < node_size (leaf_of (l @ r))"
      "node_size (Internal (seps @ [fst (hd r)]) (cs @ [i, w_next_page w])) \<le> 3068"
    and new: "w_scratch_pool w = []" "w_free_list w = []" "w_next_page w \<noteq> u64_max"
  shows "write_put bincode env w k v = Some (w\<lparr>w_next_page := w_next_page w + 1,
    w_overlay := AList.update t (Internal (seps @ [fst (hd r)]) (cs @ [i, w_next_page w]))
      (AList.update (w_next_page w) (leaf_of r) (AList.update i (leaf_of l) (w_overlay w)))\<rparr>, env)"
proof -
  let ?c = "txn_ctx env w" and ?s = "fst (hd r)" and ?j = "w_next_page w"
  let ?c1 = "?c\<lparr>c_next_page := ?j + 1,
      c_overlay := AList.update ?j (leaf_of r) (AList.update i (leaf_of l) (w_overlay w))\<rparr>"
  have ins: "insert_rec bincode k v ?c i = Some ((i, Some (?s, ?j)), ?c1)"
    using split_rightmost [OF _ i(2,3) halves size(1), of ?c i] i(1) new by simp
  have ci: "child_index seps k = length seps" by (rule child_index_last [OF seps])
  have ab: "absorb_split seps (cs @ [i]) (length seps) (i, Some (?s, ?j)) = Some (seps @ [?s], cs @ [i, ?j])"
    using w(5) by (simp add: absorb_split_def set_at_def insert_at_def list_update_append flip: w(5))
  have len: "encoded_len (sd_node bincode) (Internal (seps @ [?s]) (cs @ [i, ?j])) \<le> SPLIT_THRESHOLD"
    using size(2) lib_sizes_bincode by (simp add: encoded_len_def lib_sizes_def SPLIT_THRESHOLD_def)
  have "insert_rec bincode k v ?c t =
      Some ((t, None), put_node ?c1 t (Internal (seps @ [?s]) (cs @ [i, ?j])))"
    using w ins ci ab len
    by (subst insert_rec.simps)
      (simp add: ctx_read_def read_node_def is_scratch_def finish_internal_def cow_page_def get_at_def nth_append)
  then show ?thesis using w(1) by (simp add: write_put_def btree_put_def put_node_def put_ctx_def txn_ctx_def)
qed

section \<open>A half that does not fit in a page\<close>

lemma flush_panics:
  assumes "(i, n) \<in> set ov" "4092 < node_size n" "\<forall>j\<in>fst ` set ov. unat j < p_limit p"
  shows "flush bincode p ov = None"
  using assms
proof (induction ov arbitrary: p)
  case (Cons jm rest)
  obtain j m where jm: "jm = (j, m)" by fastforce
  show ?case
  proof (cases "encode_node bincode m")
    case (Some buf)
    then have "encoded_len (sd_node bincode) m \<le> PAGE_SIZE"
      using bincode_node.encode_page_iff [of bincode m] by (auto simp: encode_node_def)
    then have "node_size m \<le> 4092"
      using lib_sizes_bincode by (simp add: encoded_len_def lib_sizes_def PAGE_SIZE_def)
    then have rest: "(i, n) \<in> set rest" using Cons.prems(1,2) jm by auto
    obtain p1 where p1: "write_page p j buf = Some p1"
      using Cons.prems(3) by (auto simp: write_page_def jm)
    have "flush bincode p1 rest = None"
      using Cons.IH [OF rest Cons.prems(2), of p1] Cons.prems(3) write_page_fields [OF p1] by simp
    then show ?thesis using Some p1 by (simp add: jm)
  qed (simp add: jm)
qed simp

definition smalls :: "nat \<Rightarrow> nat \<Rightarrow> rows" where
  "smalls a b = map (\<lambda>i. ([of_nat i], [])) [a..<b]"

definition large :: "nat \<Rightarrow> bytes \<times> bytes" where
  "large i = (replicate 254 255 @ [of_nat i], replicate 512 0)"

definition larges :: "nat \<Rightarrow> rows" where
  "larges n = map large [0..<n]"

lemma larges_Suc: "larges (Suc n) = larges n @ [large n]"
  by (simp add: larges_def)

lemma byte_less: "i < j \<Longrightarrow> j < 256 \<Longrightarrow> (of_nat i :: byte) < of_nat j"
  by (simp add: word_less_nat_alt unat_of_nat)

lemma less_larges:
  assumes "b \<le> 255" "n < 256"
  shows "\<forall>x\<in>set (map fst (smalls a b @ larges n)). x < fst (large n)"
proof -
  have large_eq: "fst (large i) = 255 # replicate 253 255 @ [of_nat i]" for i
    by (simp add: large_def numeral_eq_Suc)
  have "[of_nat i] < fst (large n)" if "i < b" for i
    using byte_less [of i 255] that assms(1) by (simp add: large_eq)
  moreover have "fst (large i) < fst (large n)" if "i < n" for i
    using byte_less [OF that assms(2)] by (simp add: large_def less_same_length_append)
  ultimately show ?thesis by (auto simp: smalls_def larges_def)
qed

lemma sorted_smalls_larges:
  "b \<le> 255 \<Longrightarrow> n < 256 \<Longrightarrow> sorted_wrt (<) (map fst (smalls a b @ larges n))"
proof (induction n)
  case 0
  have "sorted_wrt (\<lambda>i j. ([of_nat i :: byte]) < [of_nat j]) [a..<b]"
    by (rule sorted_wrt_mono_rel [OF _ sorted_wrt_upt [of a b]]) (use 0 byte_less in auto)
  then show ?case by (simp add: smalls_def larges_def sorted_wrt_map comp_def)
next
  case (Suc n)
  then show ?case using less_larges [of b n a] by (auto simp: larges_Suc sorted_wrt_append)
qed

lemma node_size_smalls_larges:
  "node_size (leaf_of (smalls a b @ larges n)) = 20 + 21 * (b - a) + 787 * n"
  by (simp add: node_size_leaf_of smalls_def larges_def large_def comp_def sum_list_triv split_beta)

text \<open>The seven puts at the end: three that fit, and three that split the rightmost leaf.\<close>

definition split_writer :: "page_id \<Rightarrow> page_id \<Rightarrow> overlay \<Rightarrow> write_txn" where
  "split_writer r np ov = demo_first\<lparr>w_root := Some r, w_next_page := np, w_overlay := ov\<rparr>"

lemma larges_snoc: "xs @ larges n @ [(fst (large n), snd (large n))] = xs @ larges (Suc n)"
  by (simp add: larges_Suc)

lemma smalls_cut: "a \<le> b \<Longrightarrow> b \<le> c \<Longrightarrow> smalls a b @ smalls b c = smalls a c"
  using upt_add_eq_append [of a b "c - b"] by (simp add: smalls_def flip: map_append)

lemma length_smalls_larges: "length (smalls a b) = b - a" "length (larges n) = n"
  by (simp_all add: smalls_def larges_def)

lemma hd_smalls: "a < b \<Longrightarrow> hd (smalls a b @ xs) = ([of_nat a], [])"
  by (simp add: smalls_def upt_conv_Cons)

lemma split_root:
  "write_put bincode env (leaf_writer (smalls 0 31 @ larges 3)) (fst (large 3)) (snd (large 3)) =
    Some (split_writer 4 5 [(2, leaf_of (smalls 0 17)), (3, leaf_of (smalls 17 31 @ larges 4)),
      (4, Internal [[17]] [2, 3])], env)"
proof -
  let ?c = "txn_ctx env (leaf_writer (smalls 0 31 @ larges 3))"
  have halves: "(smalls 0 31 @ larges 3) @ [(fst (large 3), snd (large 3))] = smalls 0 17 @ smalls 17 31 @ larges 4"
    using larges_snoc [of "smalls 0 31" 3] smalls_cut [of 0 17 31] by simp
  have "insert_rec bincode (fst (large 3)) (snd (large 3)) ?c 2 = Some ((2, Some (fst (hd (smalls 17 31 @ larges 4)), 3)),
      ?c\<lparr>c_next_page := 4, c_overlay := [(2, leaf_of (smalls 0 17)), (3, leaf_of (smalls 17 31 @ larges 4))]\<rparr>)"
    using split_rightmost [OF _ less_larges _ halves, of ?c 2] node_size_smalls_larges [of 0 31 4]
    by (simp add: leaf_writer_def demo_first_def length_smalls_larges large_def u64_max_def smalls_cut flip: append_assoc)
  then show ?thesis
    by (simp add: write_put_def btree_put_def leaf_writer_def split_writer_def put_node_def put_ctx_def txn_ctx_def
        demo_first_def alloc_grow u64_max_def hd_smalls)
qed

lemma small_below: "[x] \<le> replicate 254 255 @ [y :: byte]"
proof -
  have "x \<le> 255" using unsigned_less [of x, where ?'a = nat] by (simp add: word_le_nat_alt)
  then have "x < 255 \<or> x = 255" by (simp add: order_le_less)
  then show ?thesis by (auto simp: numeral_eq_Suc)
qed

lemma split_again:
  "write_put bincode env (split_writer 4 5 [(2, leaf_of (smalls 0 17)), (3, leaf_of (smalls 17 31 @ larges 4)),
      (4, Internal [[17]] [2, 3])]) (fst (large 4)) (snd (large 4)) =
    Some (split_writer 4 6 [(2, leaf_of (smalls 0 17)), (3, leaf_of (smalls 17 26)),
      (4, Internal [[17], [26]] [2, 3, 5]), (5, leaf_of (smalls 26 31 @ larges 5))], env)" (is "write_put _ _ ?w _ _ = _")
proof -
  have halves: "(smalls 17 31 @ larges 4) @ [(fst (large 4), snd (large 4))] = smalls 17 26 @ smalls 26 31 @ larges 5"
    using larges_snoc [of "smalls 17 31" 4] smalls_cut [of 17 26 31] by simp
  show ?thesis
    using put_rightmost [OF _ _ _ _ _ _ _ _ less_larges _ halves, of ?w 4 "[[17]]" "[2]" 3 env]
      node_size_smalls_larges [of 17 31 5]
    by (simp add: split_writer_def demo_first_def length_smalls_larges large_def u64_max_def smalls_cut hd_smalls small_below
        flip: append_assoc)
qed

lemma split_last:
  "write_put bincode env (split_writer 4 6 [(2, leaf_of (smalls 0 17)), (3, leaf_of (smalls 17 26)),
      (4, Internal [[17], [26]] [2, 3, 5]), (5, leaf_of (smalls 26 31 @ larges 5))]) (fst (large 5)) (snd (large 5)) =
    Some (split_writer 4 7 [(2, leaf_of (smalls 0 17)), (3, leaf_of (smalls 17 26)),
      (4, Internal [[17], [26], fst (large 0)] [2, 3, 5, 6]), (5, leaf_of (smalls 26 31)), (6, leaf_of (larges 6))], env)"
    (is "write_put _ _ ?w _ _ = _")
proof -
  have halves: "(smalls 26 31 @ larges 5) @ [(fst (large 5), snd (large 5))] = smalls 26 31 @ larges 6"
    using larges_snoc [of "smalls 26 31" 5] by simp
  have hd: "hd (larges 6) = large 0" by (simp add: larges_def upt_rec)
  show ?thesis
    using put_rightmost [OF _ _ _ _ _ _ _ _ less_larges _ halves, of ?w 4 "[[17], [26]]" "[2, 3]" 5 env]
      node_size_smalls_larges [of 26 31 6]
    by (simp add: split_writer_def demo_first_def length_smalls_larges large_def u64_max_def hd small_below)
qed

text \<open>C37: Leaves are split at the middle of their entries, whatever their sizes. Thirty-seven
  puts in one transaction, thirty-one of tiny entries and then six of a 255-byte key with a
  512-byte value, all succeed; the last of three splits leaves the six large entries in a half
  of 4742 bytes, and the commit panics when it encodes that page.\<close>

theorem split_overflow_panics:
  "\<exists>env s. demo_open env \<and>
    run (sys_step bincode) (fresh_sys env) (BeginWrite # puts (smalls 0 31 @ larges 6)) = Some (s, replicate 38 Done) \<and>
    sys_step bincode s Commit = None"
proof -
  obtain env where e: "demo_open env" by (rule demo_open)
  let ?env = "env\<lparr>e_writer := True\<rparr>"
  let ?s = "\<lambda>w. (fresh_sys env)\<lparr>y_env := ?env, y_writer := Some w\<rparr>"
  let ?w = "split_writer 4 7 [(2, leaf_of (smalls 0 17)), (3, leaf_of (smalls 17 26)),
      (4, Internal [[17], [26], fst (large 0)] [2, 3, 5, 6]), (5, leaf_of (smalls 26 31)), (6, leaf_of (larges 6))]"
  have short: "\<forall>(k, v)\<in>set (smalls 0 31 @ larges 3). length v \<le> 512"
    by (auto simp: smalls_def larges_def large_def)
  have "run (sys_step bincode) (fresh_sys env) (BeginWrite # puts (smalls 0 31 @ larges 3)) =
      Some (?s (leaf_writer (smalls 0 31 @ larges 3)), replicate 35 Done)"
    using run_puts [OF e _ sorted_smalls_larges short] node_size_smalls_larges [of 0 31 3]
    by (simp add: length_smalls_larges larges_def)
  moreover have "run (sys_step bincode) (?s (leaf_writer (smalls 0 31 @ larges 3))) (puts [large 3, large 4, large 5]) =
      Some (?s ?w, [Done, Done, Done])"
    by (simp add: puts_def split_beta split_root split_again split_last)
  ultimately have "run (sys_step bincode) (fresh_sys env)
      ((BeginWrite # puts (smalls 0 31 @ larges 3)) @ puts [large 3, large 4, large 5]) =
      Some (?s ?w, replicate 35 Done @ [Done, Done, Done])" by (rule run_append)
  moreover have "(BeginWrite # puts (smalls 0 31 @ larges 3)) @ puts [large 3, large 4, large 5] =
      BeginWrite # puts (smalls 0 31 @ larges 6)" by (simp add: puts_def larges_def upt_rec numeral_eq_Suc)
  moreover have "replicate 35 Done @ [Done, Done, Done] = replicate 38 Done" by (simp add: numeral_eq_Suc)
  moreover have "flush bincode (e_pager env) (w_overlay ?w) = None"
    by (rule flush_panics [of 6 "leaf_of (larges 6)"])
      (use e node_size_smalls_larges [of 0 0 6] in \<open>simp_all add: split_writer_def demo_open_def smalls_def\<close>)
  then have "sys_step bincode (?s ?w) Commit = None" by (simp add: commit_def commit_pages_def)
  ultimately show ?thesis using e by auto
qed

end
