(* ===== verification/Bank_Demo.thy ===== *)
theory Bank_Demo
  imports Region_Props
begin

text \<open>
  examples/bank_demo.rs: the programs of the bank, as the application the runtime is for, and
  the script of \<open>main\<close> that runs them and asserts what they did.

  The serialisation of the request and of the pair of balances is bincode's, a parameter.
  An i64 is a 64-bit word read as signed; arithmetic that overflows panics, as in a debug
  build. Console output is left out.
\<close>

section \<open>The programs\<close>

type_synonym i64 = "64 word"

record transfer_request =
  req_from :: string
  req_to :: string
  req_amount :: i64

record bank_lib =
  ser_request :: "transfer_request \<Rightarrow> bytes"
  de_request :: "bytes \<Rightarrow> transfer_request option"
  ser_balances :: "i64 \<times> i64 \<Rightarrow> bytes"
  de_balances :: "bytes \<Rightarrow> (i64 \<times> i64) option"

definition as_bytes :: "string \<Rightarrow> bytes" where
  "as_bytes s = map of_char s"

text \<open>\<open>format!\<close> of an integer, and of a number padded with zeroes to 20 digits.\<close>

fun show_nat :: "nat \<Rightarrow> string" where
  "show_nat n = (if n < 10 then [char_of (48 + n)] else show_nat (n div 10) @ [char_of (48 + n mod 10)])"

declare show_nat.simps [simp del]

definition show_i64 :: "i64 \<Rightarrow> string" where
  "show_i64 x = (if sint x < 0 then CHR ''-'' # show_nat (nat (- sint x)) else show_nat (nat (sint x)))"

definition pad20 :: "string \<Rightarrow> string" where
  "pad20 s = replicate (20 - length s) CHR ''0'' @ s"

definition checked :: "int \<Rightarrow> (i64 \<Rightarrow> prog) \<Rightarrow> prog" where
  "checked z k = (if - (2 ^ 63) \<le> z \<and> z < 2 ^ 63 then k (word_of_int z) else Panic)"

definition get_balance :: "string \<Rightarrow> (i64 \<Rightarrow> prog) \<Rightarrow> prog" where
  "get_balance acct k = Read ''ACCOUNTS'' (as_bytes acct)
     (try_else (\<lambda>data. if length data \<noteq> 8 then Panic else k (of_le_bytes data)))"

definition with_request :: "bank_lib \<Rightarrow> commarea \<Rightarrow> (transfer_request \<Rightarrow> prog) \<Rightarrow> prog" where
  "with_request B c k = (case c of None \<Rightarrow> Panic
     | Some data \<Rightarrow> (case de_request B data of None \<Rightarrow> Panic | Some req \<Rightarrow> k req))"

definition open_accounts :: cics_program where
  "open_accounts b c =
     Write ''ACCOUNTS'' (as_bytes ''ALICE'') (le_bytes 8 (1000 :: i64)) (try_else (\<lambda>_.
     Write ''ACCOUNTS'' (as_bytes ''BOB'') (le_bytes 8 (500 :: i64)) (try_else (\<lambda>_.
     Finish (Inr (Return None))))))"

definition debit :: "bank_lib \<Rightarrow> cics_program" where
  "debit B b c = with_request B c (\<lambda>req.
     get_balance (req_from req) (\<lambda>balance.
       if sint balance < sint (req_amount req)
       then Finish (Inl (InvalidRequest (''insufficient funds in '' @ req_from req @ '': have '' @ show_i64 balance @
         '', need '' @ show_i64 (req_amount req))))
       else checked (sint balance - sint (req_amount req)) (\<lambda>rest.
         Rewrite ''ACCOUNTS'' (as_bytes (req_from req)) (le_bytes 8 rest) (try_else (\<lambda>_.
         Finish (Inr (Return None)))))))"

definition credit :: "bank_lib \<Rightarrow> cics_program" where
  "credit B b c = with_request B c (\<lambda>req.
     get_balance (req_to req) (\<lambda>balance.
       checked (sint balance + sint (req_amount req)) (\<lambda>sum.
         Rewrite ''ACCOUNTS'' (as_bytes (req_to req)) (le_bytes 8 sum) (try_else (\<lambda>_.
         Finish (Inr (Return None)))))))"

definition audit_log :: "bank_lib \<Rightarrow> cics_program" where
  "audit_log B b c = with_request B c (\<lambda>req.
     Write ''AUDIT'' (as_bytes (pad20 (show_nat (unat (task_id b)))))
       (as_bytes (req_from req @ '' -> '' @ req_to req @ '' : '' @ show_i64 (req_amount req))) (try_else (\<lambda>_.
     Finish (Inr (Return None)))))"

definition statement :: "bank_lib \<Rightarrow> cics_program" where
  "statement B b c = with_request B c (\<lambda>req.
     get_balance (req_from req) (\<lambda>from_balance.
     get_balance (req_to req) (\<lambda>to_balance.
     Finish (Inr (Return (Some (ser_balances B (from_balance, to_balance))))))))"

definition transfer :: "bank_lib \<Rightarrow> cics_program" where
  "transfer B b c = with_request B c (\<lambda>req.
     Link ''DEBIT'' c (try_else (\<lambda>_.
     Link ''CREDIT'' c (try_else (\<lambda>_.
     Start ''AUD1'' ''AUDIT_LOG'' c
     (Finish (Inr (Xctl ''STATEMENT'' c))))))))"

definition list_audit :: cics_program where
  "list_audit b c = Browse ''AUDIT'' None 100 (try_else (\<lambda>_. Finish (Inr (Return None))))"

definition register_programs :: "bank_lib \<Rightarrow> 'e region \<Rightarrow> 'e region" where
  "register_programs B g =
     (let g1 = region_define_program g ''OPEN_ACCOUNTS'' open_accounts;
          g2 = region_define_program g1 ''DEBIT'' (debit B);
          g3 = region_define_program g2 ''CREDIT'' (credit B);
          g4 = region_define_program g3 ''AUDIT_LOG'' (audit_log B);
          g5 = region_define_program g4 ''STATEMENT'' (statement B);
          g6 = region_define_program g5 ''TRANSFER'' (transfer B)
      in region_define_program g6 ''LIST_AUDIT'' list_audit)"

section \<open>The script\<close>

text \<open>The \<open>?\<close> operator: an error ends the function it stands in.\<close>

definition and_then :: "('g \<times> (cics_error + 'a)) option \<Rightarrow> ('a \<Rightarrow> 'g \<Rightarrow> ('g \<times> (cics_error + 'b)) option) \<Rightarrow>
    ('g \<times> (cics_error + 'b)) option" where
  "and_then m k = (case m of None \<Rightarrow> None | Some (g, Inl er) \<Rightarrow> Some (g, Inl er) | Some (g, Inr x) \<Rightarrow> k x g)"

text \<open>The function \<open>transfer\<close>, not the program of that name.\<close>

definition transfer_fn :: "('e, 'w) store_ops \<Rightarrow> bank_lib \<Rightarrow> 'e region \<Rightarrow> string \<Rightarrow> string \<Rightarrow> i64 \<Rightarrow>
    ('e region \<times> (cics_error + i64 \<times> i64)) option" where
  "transfer_fn S B g from_acct to_acct amount =
     (let req = \<lparr>req_from = from_acct, req_to = to_acct, req_amount = amount\<rparr>;
          c = ser_request B req
      in and_then (start_task S g ''XFER'' ''TRANSFER'' (Some c))
           (\<lambda>result g'. do { data \<leftarrow> result; b \<leftarrow> de_balances B data; Some (g', Inr b) }))"

text \<open>What \<open>main\<close> does to each region it opens, and how it reads the balances.\<close>

definition configure :: "bank_lib \<Rightarrow> 'e region \<Rightarrow> 'e region option" where
  "configure B g =
     do { (_, g1) \<leftarrow> region_define_file g ''ACCOUNTS'';
          (_, g2) \<leftarrow> region_define_file g1 ''AUDIT'';
          Some (register_programs B g2) }"

definition show_balances :: "('e, 'w) store_ops \<Rightarrow> bank_lib \<Rightarrow> 'e region \<Rightarrow>
    ('e region \<times> (cics_error + i64 \<times> i64)) option" where
  "show_balances S B g =
     and_then (start_task S g ''SHOW'' ''STATEMENT''
         (Some (ser_request B \<lparr>req_from = ''ALICE'', req_to = ''BOB'', req_amount = 0\<rparr>)))
       (\<lambda>result g'. do { data \<leftarrow> result; b \<leftarrow> de_balances B data; Some (g', Inr b) })"

text \<open>The tasks of the first region, and those of the region opened anew on the same file.\<close>

definition first_session :: "('e, 'w) store_ops \<Rightarrow> bank_lib \<Rightarrow> 'e region \<Rightarrow>
    ('e region \<times> (cics_error + unit)) option" where
  "first_session S B g =
     and_then (start_task S g ''SETU'' ''OPEN_ACCOUNTS'' None) (\<lambda>_ g.
     and_then (transfer_fn S B g ''ALICE'' ''BOB'' 200) (\<lambda>balances g.
     if balances \<noteq> (800, 700) then None else
     and_then (start_task S g ''LIST'' ''LIST_AUDIT'' None) (\<lambda>_ g.
     case transfer_fn S B g ''ALICE'' ''BOB'' 10000 of
       None \<Rightarrow> None
     | Some (g, Inr _) \<Rightarrow> None
     | Some (g, Inl er) \<Rightarrow>
         and_then (show_balances S B g) (\<lambda>balances g.
         if balances \<noteq> (800, 700) then None else Some (g, Inr ())))))"

definition second_session :: "('e, 'w) store_ops \<Rightarrow> bank_lib \<Rightarrow> 'e region \<Rightarrow>
    ('e region \<times> (cics_error + unit)) option" where
  "second_session S B g =
     and_then (show_balances S B g) (\<lambda>balances g.
     if balances \<noteq> (800, 700) then None else Some (g, Inr ()))"

text \<open>
  The file is new when \<open>main\<close> starts; the second \<open>open\<close> finds in it what the first region wrote,
  and the same disk. None is a panic: an assertion, an \<open>unwrap\<close> or an \<open>expect\<close> that fails, or a
  panic of the store.
\<close>

definition main :: "lib \<Rightarrow> bank_lib \<Rightarrow> nat \<Rightarrow> bool list \<Rightarrow> (cics_error + unit) option" where
  "main L B lim syncs =
     (case open_region L lim syncs None of
        None \<Rightarrow> None
      | Some (Inl er) \<Rightarrow> Some (Inl er)
      | Some (Inr region) \<Rightarrow> do {
          region \<leftarrow> configure B region;
          (region, r) \<leftarrow> first_session (txn_store L) B region;
          case r of
            Inl er \<Rightarrow> Some (Inl er)
          | Inr _ \<Rightarrow>
              let p = e_pager (g_env region) in
              (case open_region L (p_limit p) (p_syncs p) (Some (p_file p)) of
                 None \<Rightarrow> None
               | Some (Inl er) \<Rightarrow> Some (Inl er)
               | Some (Inr region2) \<Rightarrow> do {
                   region2 \<leftarrow> configure B region2;
                   (_, r2) \<leftarrow> second_session (txn_store L) B region2;
                   Some r2 }) })"

end
