(* ===== verification/Bank_Runs.thy ===== *)
theory Bank_Runs
  imports Bank_Demo Region_Total
begin

text \<open>
  What the programs of the bank and the functions of the script do, call by call: over plain
  sorted lists, for any accounts and balances that fit, and over the counting store of
  Region_Total for the script of \<open>main\<close>, with the step from there to the B-tree store (\<open>carried\<close>).
\<close>

section \<open>A transfer over rows\<close>

text \<open>The programs that \<open>register_programs\<close> puts in an empty table.\<close>

definition bank_programs :: "bank_lib \<Rightarrow> program_manager" where
  "bank_programs B = g_programs (register_programs B \<lparr>g_env = (), g_programs = new_programs, g_fct = new_fct,
     g_task_ids = new_task_ids\<rparr>)"

lemma bank_programs_simps [simp]:
  "bank_programs B ''DEBIT'' = Some (debit B)" "bank_programs B ''CREDIT'' = Some (credit B)"
  "bank_programs B ''STATEMENT'' = Some (statement B)" "bank_programs B ''TRANSFER'' = Some (transfer B)"
  "bank_programs B ''AUDIT_LOG'' = Some (audit_log B)" "bank_programs B ''OPEN_ACCOUNTS'' = Some open_accounts"
  "bank_programs B ''LIST_AUDIT'' = Some list_audit"
  by (simp_all add: bank_programs_def register_programs_def region_define_program_def define_program_def Let_def)

lemma within_checked [simp]: "within F s (checked z k) \<longleftrightarrow> (- (2 ^ 63) \<le> z \<and> z < 2 ^ 63 \<longrightarrow> within F s (k (word_of_int z)))"
  by (auto simp: checked_def)

lemma within_get_balance [simp]: "(\<And>x. within F s (k x)) \<Longrightarrow> within F s (get_balance acct k)"
  by (simp add: get_balance_def)

lemma within_with_request [simp]: "(\<And>r. within F s (k r)) \<Longrightarrow> within F s (with_request B c k)"
  by (simp add: with_request_def split: option.split)

lemma bank_within: "programs_within UNIV False (bank_programs B)"
  by (auto simp: programs_within_def bank_programs_def register_programs_def region_define_program_def
      define_program_def new_programs_def Let_def open_accounts_def debit_def credit_def audit_log_def
      statement_def transfer_def list_audit_def split: if_splits)

lemma as_bytes_inj [simp]: "as_bytes s = as_bytes t \<longleftrightarrow> s = t"
proof -
  have "inj (of_char :: char \<Rightarrow> byte)"
  proof (rule injI)
    fix c d :: char
    assume "(of_char c :: byte) = of_char d"
    then have "word_of_nat (of_char c) = (word_of_nat (of_char d) :: byte)" unfolding of_nat_of_char .
    from arg_cong [OF this, of unat] have "(of_char c :: nat) mod 256 = of_char d mod 256"
      unfolding unsigned_of_nat take_bit_eq_mod by simp
    then have "(of_char c :: nat) = of_char d" unfolding of_char_mod_256 .
    then show "c = d" by simp
  qed
  then show ?thesis unfolding as_bytes_def by (metis inj_map_eq_map)
qed

text \<open>What a request needs: two accounts with balances, and sums that fit.\<close>

record account_case =
  ac_fid :: file_id
  ac_req :: transfer_request
  ac_x :: i64
  ac_y :: i64

definition case_ok :: "bank_lib \<Rightarrow> file_control_table \<Rightarrow> bytes \<Rightarrow> account_case \<Rightarrow> rows \<Rightarrow> bool" where
  "case_ok B fct c a ys \<longleftrightarrow> files fct ''ACCOUNTS'' = Some (ac_fid a) \<and> de_request B c = Some (ac_req a) \<and>
     req_from (ac_req a) \<noteq> req_to (ac_req a) \<and>
     view ys (ac_fid a) (as_bytes (req_from (ac_req a))) = Some (le_bytes 8 (ac_x a)) \<and>
     view ys (ac_fid a) (as_bytes (req_to (ac_req a))) = Some (le_bytes 8 (ac_y a)) \<and>
     0 \<le> sint (req_amount (ac_req a)) \<and> - (2 ^ 63) \<le> sint (ac_x a) - sint (req_amount (ac_req a)) \<and>
     sint (ac_y a) + sint (req_amount (ac_req a)) < 2 ^ 63"

lemma of_le_bytes_i64 [simp]: "of_le_bytes (le_bytes 8 (w :: i64)) = w"
  by (rule of_le_bytes_le_bytes) (rule bit_word_eqI, simp add: bit_simps)

lemma execute_get_balance:
  assumes "files fct ''ACCOUNTS'' = Some A" "view ys A (as_bytes acct) = Some (le_bytes 8 x)"
  shows "execute rows_store fct loop b (get_balance acct k) (ideal_task xs outs (Some ys) q) =
    execute rows_store fct loop b (k x) (ideal_task xs outs (Some ys) q)"
  using assms by (simp add: get_balance_def task_read_def exec_read_def resolve_file_def view_def)

lemma execute_rewrite:
  assumes "files fct file = Some A" "view ys A key \<noteq> None"
  shows "execute rows_store fct loop b (Rewrite file key data k) (ideal_task xs outs (Some ys) q) =
    execute rows_store fct loop b (k (Inr ())) (ideal_task xs outs (Some (ins (storage_key A key) data ys)) q)"
  using assms by (auto simp: task_rewrite_def exec_rewrite_def resolve_file_def view_def ideal_task_def)

lemma run_debit:
  assumes "case_ok B fct c a ys"
  defines "f \<equiv> as_bytes (req_from (ac_req a))" and "m \<equiv> req_amount (ac_req a)"
  shows "sint m \<le> sint (ac_x a) \<Longrightarrow>
      run_program_loop rows_store (bank_programs B) fct b ''DEBIT'' (Some c) (ideal_task xs outs (Some ys) q) =
        Some (Inr None, ideal_task xs outs (Some (ins (storage_key (ac_fid a) f) (le_bytes 8 (ac_x a - m)) ys)) q)"
    "sint (ac_x a) < sint m \<Longrightarrow>
      \<exists>msg. run_program_loop rows_store (bank_programs B) fct b ''DEBIT'' (Some c) (ideal_task xs outs (Some ys) q) =
        Some (Inl (InvalidRequest msg), ideal_task xs outs (Some ys) q)"
proof -
  have ok: "files fct ''ACCOUNTS'' = Some (ac_fid a)" "de_request B c = Some (ac_req a)"
      "view ys (ac_fid a) f = Some (le_bytes 8 (ac_x a))" "0 \<le> sint m" "- (2 ^ 63) \<le> sint (ac_x a) - sint m"
    using assms(1) by (simp_all add: case_ok_def f_def m_def)
  have "sint (ac_x a) < 2 ^ 63" using sint_lt [of "ac_x a"] by simp
  then have r: "sint (ac_x a) - sint m < 2 ^ 63" using ok(4) by linarith
  note ex = execute_get_balance [OF ok(1) ok(3) [unfolded f_def]]
  show "run_program_loop rows_store (bank_programs B) fct b ''DEBIT'' (Some c) (ideal_task xs outs (Some ys) q) =
        Some (Inr None, ideal_task xs outs (Some (ins (storage_key (ac_fid a) f) (le_bytes 8 (ac_x a - m)) ys)) q)"
    if "sint m \<le> sint (ac_x a)"
    using that ok r
    by (simp add: run_program_loop.simps resolve_program_def debit_def with_request_def ex checked_def
        execute_rewrite f_def m_def not_less del: execute.simps(5)) 
  show "\<exists>msg. run_program_loop rows_store (bank_programs B) fct b ''DEBIT'' (Some c) (ideal_task xs outs (Some ys) q) =
        Some (Inl (InvalidRequest msg), ideal_task xs outs (Some ys) q)" if "sint (ac_x a) < sint m"
    using that ok(2) by (simp add: run_program_loop.simps resolve_program_def debit_def with_request_def ex m_def)
qed

lemma run_credit:
  assumes "case_ok B fct c a zs"
  defines "f \<equiv> as_bytes (req_to (ac_req a))" and "m \<equiv> req_amount (ac_req a)"
  assumes "view ys (ac_fid a) f = Some (le_bytes 8 (ac_y a))"
  shows "run_program_loop rows_store (bank_programs B) fct b ''CREDIT'' (Some c) (ideal_task xs outs (Some ys) q) =
    Some (Inr None, ideal_task xs outs (Some (ins (storage_key (ac_fid a) f) (le_bytes 8 (ac_y a + m)) ys)) q)"
proof -
  have ok: "files fct ''ACCOUNTS'' = Some (ac_fid a)" "de_request B c = Some (ac_req a)"
      "0 \<le> sint m" "sint (ac_y a) + sint m < 2 ^ 63"
    using assms(1) by (simp_all add: case_ok_def f_def m_def)
  have "- (2 ^ 63) \<le> sint (ac_y a)" using sint_ge [of "ac_y a"] by simp
  then have r: "- (2 ^ 63) \<le> sint (ac_y a) + sint m" using ok(3) by linarith
  note ex = execute_get_balance [OF ok(1) assms(4) [unfolded f_def]]
  show ?thesis
    using ok r assms(4)
    by (simp add: run_program_loop.simps resolve_program_def credit_def with_request_def ex checked_def
        execute_rewrite f_def m_def del: execute.simps(5))
qed

lemma run_statement:
  assumes "files fct ''ACCOUNTS'' = Some A" "de_request B c = Some req"
    "view ys A (as_bytes (req_from req)) = Some (le_bytes 8 x)" "view ys A (as_bytes (req_to req)) = Some (le_bytes 8 y)"
  shows "run_program_loop rows_store (bank_programs B) fct b ''STATEMENT'' (Some c) (ideal_task xs outs (Some ys) q) =
    Some (Inr (Some (ser_balances B (x, y))), ideal_task xs outs (Some ys) q)"
  using assms
  by (simp add: run_program_loop.simps resolve_program_def statement_def with_request_def execute_get_balance)

text \<open>The rows after a transfer: both accounts changed, nothing else.\<close>

definition moved :: "account_case \<Rightarrow> rows \<Rightarrow> rows" where
  "moved a ys =
     (let A = ac_fid a; m = req_amount (ac_req a) in
      ins (storage_key A (as_bytes (req_to (ac_req a)))) (le_bytes 8 (ac_y a + m))
        (ins (storage_key A (as_bytes (req_from (ac_req a)))) (le_bytes 8 (ac_x a - m)) ys))"

lemma run_transfer:
  assumes ok: "case_ok B fct c a ys" and b: "link_level b < MAX_LINK_DEPTH"
  defines "m \<equiv> req_amount (ac_req a)"
  shows "sint m \<le> sint (ac_x a) \<Longrightarrow>
      run_program_loop rows_store (bank_programs B) fct b ''TRANSFER'' (Some c) (ideal_task xs outs (Some ys) q) =
        Some (Inr (Some (ser_balances B (ac_x a - m, ac_y a + m))), ideal_task xs outs (Some (moved a ys))
          (q @ [\<lparr>ps_tranid = ''AUD1'', ps_program = ''AUDIT_LOG'', ps_commarea = Some c\<rparr>]))"
    "sint (ac_x a) < sint m \<Longrightarrow>
      \<exists>msg. run_program_loop rows_store (bank_programs B) fct b ''TRANSFER'' (Some c) (ideal_task xs outs (Some ys) q) =
        Some (Inl (InvalidRequest msg), ideal_task xs outs (Some ys) q)"
proof -
  let ?A = "ac_fid a" and ?f = "as_bytes (req_from (ac_req a))" and ?t = "as_bytes (req_to (ac_req a))"
  let ?loop = "run_program_loop rows_store (bank_programs B) fct"
  let ?b = "b\<lparr>link_level := link_level b + 1\<rparr>"
  have req: "de_request B c = Some (ac_req a)" "files fct ''ACCOUNTS'' = Some ?A" "?f \<noteq> ?t"
      "view ys ?A ?t = Some (le_bytes 8 (ac_y a))"
    using ok by (simp_all add: case_ok_def)
  have "link_level b \<noteq> - 1" using b link_level_not_last [of "link_level b"] by simp
  moreover have "\<not> MAX_LINK_DEPTH < link_level b + 1" using b by (simp add: inc_le not_less)
  ultimately have link: "task_link ?loop b p d t = ?loop ?b p d t" for p d t
    by (simp add: task_link_def)
  show "?loop b ''TRANSFER'' (Some c) (ideal_task xs outs (Some ys) q) =
        Some (Inr (Some (ser_balances B (ac_x a - m, ac_y a + m))), ideal_task xs outs (Some (moved a ys))
          (q @ [\<lparr>ps_tranid = ''AUD1'', ps_program = ''AUDIT_LOG'', ps_commarea = Some c\<rparr>]))"
    if "sint m \<le> sint (ac_x a)"
  proof -
    let ?ys = "ins (storage_key ?A ?f) (le_bytes 8 (ac_x a - m)) ys"
    have "view ?ys ?A ?t = Some (le_bytes 8 (ac_y a))" using req(3,4) by simp
    note cr = run_credit [OF ok this, of ?b xs outs q]
    have "ins (storage_key ?A ?t) (le_bytes 8 (ac_y a + m)) ?ys = moved a ys" by (simp add: moved_def m_def Let_def)
    moreover have "view (moved a ys) ?A ?f = Some (le_bytes 8 (ac_x a - m))"
        "view (moved a ys) ?A ?t = Some (le_bytes 8 (ac_y a + m))"
      using req(3) by (simp_all add: moved_def m_def Let_def)
    moreover have "task_start (ideal_task xs outs (Some zs) q) tr p d =
        ideal_task xs outs (Some zs) (q @ [\<lparr>ps_tranid = tr, ps_program = p, ps_commarea = d\<rparr>])" for zs tr p d
      by (simp add: task_start_def ideal_task_def)
    ultimately show ?thesis
      using run_debit(1) [OF ok, of ?b xs outs q] that cr req
      by (subst run_program_loop.simps)
        (simp add: resolve_program_def transfer_def with_request_def link run_statement m_def)
  qed
  show "\<exists>msg. ?loop b ''TRANSFER'' (Some c) (ideal_task xs outs (Some ys) q) =
        Some (Inl (InvalidRequest msg), ideal_task xs outs (Some ys) q)" if "sint (ac_x a) < sint m"
  proof -
    have "\<exists>msg. ?loop ?b ''DEBIT'' (Some c) (ideal_task xs outs (Some ys) q) =
        Some (Inl (InvalidRequest msg), ideal_task xs outs (Some ys) q)"
      by (rule run_debit(2) [OF ok]) (use that in \<open>simp add: m_def\<close>)
    then obtain msg where "?loop ?b ''DEBIT'' (Some c) (ideal_task xs outs (Some ys) q) =
        Some (Inl (InvalidRequest msg), ideal_task xs outs (Some ys) q)" by blast
    then show ?thesis
      using req by (subst run_program_loop.simps) (simp add: resolve_program_def transfer_def with_request_def link)
  qed
qed

section \<open>The tasks of the demo, over a store that counts\<close>

definition bank_fct :: file_control_table where
  "bank_fct = \<lparr>files = [''ACCOUNTS'' \<mapsto> 0, ''AUDIT'' \<mapsto> 1], next_id = 2\<rparr>"

lemma bank_resolve [simp]: "resolve_file bank_fct ''ACCOUNTS'' = Inr 0" "resolve_file bank_fct ''AUDIT'' = Inr 1"
  by (simp_all add: resolve_file_def bank_fct_def)

abbreviation alice :: bytes where
  "alice \<equiv> storage_key 0 (as_bytes ''ALICE'')"

abbreviation bob :: bytes where
  "bob \<equiv> storage_key 0 (as_bytes ''BOB'')"

text \<open>What the audit task of number 3 writes.\<close>

definition audit_key :: bytes where
  "audit_key = storage_key 1 (as_bytes (pad20 (show_nat 3)))"

definition audit_line :: bytes where
  "audit_line = as_bytes (''ALICE -> BOB : '' @ show_i64 200)"

definition accounts :: "i64 \<Rightarrow> i64 \<Rightarrow> rows \<Rightarrow> rows" where
  "accounts x y rest = (alice, le_bytes 8 x) # (bob, le_bytes 8 y) # rest"

lemma bank_keys:
  "alice < bob" "\<not> bob < alice" "alice < audit_key" "bob < audit_key" "\<not> audit_key < alice" "\<not> audit_key < bob"
  "alice \<noteq> bob" "alice \<noteq> audit_key" "bob \<noteq> audit_key"
  by (auto simp: storage_key_less as_bytes_def audit_key_def)

lemma show_nat_small: "show_nat 3 = ''3''" "show_nat 200 = ''200''"
  by (simp_all add: show_nat.simps char_of_def bit_Suc_0_iff)

lemma bank_sizes:
  "length alice \<le> KEY_CAP" "length bob \<le> KEY_CAP" "length audit_key \<le> KEY_CAP"
  "value_pages (le_bytes 8 (x :: i64)) = 0" "value_pages audit_line = 0"
  by (simp_all add: storage_key_def as_bytes_def pad20_def show_nat_small value_pages_def INLINE_VALUE_LIMIT_def
      show_i64_def audit_key_def audit_line_def)

text \<open>The libraries read back what they wrote.\<close>

definition bank_laws :: "bank_lib \<Rightarrow> bool" where
  "bank_laws B \<longleftrightarrow>
     (\<forall>r. length (req_from r) < 2 ^ 63 \<longrightarrow> length (req_to r) < 2 ^ 63 \<longrightarrow> de_request B (ser_request B r) = Some r) \<and>
     (\<forall>b. de_balances B (ser_balances B b) = Some b)"

abbreviation alice_to_bob :: "i64 \<Rightarrow> transfer_request" where
  "alice_to_bob m \<equiv> \<lparr>req_from = ''ALICE'', req_to = ''BOB'', req_amount = m\<rparr>"

lemma bank_lawsD:
  assumes "bank_laws B"
  shows "de_request B (ser_request B (alice_to_bob m)) = Some (alice_to_bob m)" "de_balances B (ser_balances B b) = Some b"
  using assms by (cases b; simp add: bank_laws_def)+

abbreviation metered_task :: "rows \<Rightarrow> nat \<Rightarrow> rows \<Rightarrow> pending_start list \<Rightarrow> (metered, rows) task" where
  "metered_task xs n ys q \<equiv> \<lparr>k_env = \<lparr>mt_rows = xs, mt_left = n\<rparr>, k_txn = Some ys, k_starts = q\<rparr>"

lemmas bank_eval = resolve_program_def task_read_def task_write_def task_rewrite_def exec_read_def exec_write_def
  exec_rewrite_def spend_def Let_def ins_def accounts_def bank_sizes bank_keys with_request_def get_balance_def

lemma open_accounts_run:
  "run_program_loop (metered_store 0) (bank_programs B) bank_fct b ''OPEN_ACCOUNTS'' None (metered_task [] (n + 2) [] q) =
    Some (Inr None, metered_task [] n (accounts 1000 500 []) q)"
  by (simp add: run_program_loop.simps bank_programs_simps open_accounts_def bank_eval)

lemma map_of_accounts [simp]:
  "map_of (accounts x y zs) alice = Some (le_bytes 8 x)" "map_of (accounts x y zs) bob = Some (le_bytes 8 y)"
  using bank_keys by (simp_all add: accounts_def)

text \<open>The account of the request, in a task that runs.\<close>

lemma balances_read:
  "execute (metered_store 0) bank_fct loop b (get_balance ''ALICE'' k) (metered_task xs n (accounts x y zs) q) =
    execute (metered_store 0) bank_fct loop b (k x) (metered_task xs n (accounts x y zs) q)"
  "execute (metered_store 0) bank_fct loop b (get_balance ''BOB'' k) (metered_task xs n (accounts x y zs) q) =
    execute (metered_store 0) bank_fct loop b (k y) (metered_task xs n (accounts x y zs) q)"
  by (simp_all add: bank_eval)

lemma ins_accounts:
  "\<forall>k \<in> fst ` set zs. bob < k \<Longrightarrow> ins alice (le_bytes 8 x') (accounts x y zs) = accounts x' y zs"
  "\<forall>k \<in> fst ` set zs. bob < k \<Longrightarrow> ins bob (le_bytes 8 y') (accounts x y zs) = accounts x y' zs"
proof -
  assume z: "\<forall>k \<in> fst ` set zs. bob < k"
  then have "\<forall>k \<in> fst ` set zs. alice < k" using bank_keys(1) by (meson order.strict_trans)
  then have "filter (\<lambda>e. alice < fst e) zs = zs" "filter (\<lambda>e. fst e < alice) zs = []"
      "filter (\<lambda>e. bob < fst e) zs = zs" "filter (\<lambda>e. fst e < bob) zs = []"
    using z by (auto simp: filter_id_conv filter_empty_conv)
  then show "ins alice (le_bytes 8 x') (accounts x y zs) = accounts x' y zs"
    "ins bob (le_bytes 8 y') (accounts x y zs) = accounts x y' zs"
    using bank_keys by (simp_all add: ins_def accounts_def)
qed

lemma debit_run:
  assumes "bank_laws B" "sint m \<le> sint x" "0 \<le> sint m" "\<forall>k \<in> fst ` set zs. bob < k"
  shows "run_program_loop (metered_store 0) (bank_programs B) bank_fct b ''DEBIT'' (Some (ser_request B (alice_to_bob m)))
      (metered_task xs (Suc n) (accounts x y zs) q) =
    Some (Inr None, metered_task xs n (accounts (x - m) y zs) q)"
proof -
  have "- (2 ^ 63) \<le> sint x - sint m" "sint x - sint m < 2 ^ 63"
    using assms(2,3) sint_lt [of x] by simp_all
  moreover have "word_of_int (sint x - sint m) = x - m" by simp
  ultimately show ?thesis
    using assms ins_accounts(1) [OF assms(4)]
    by (simp add: run_program_loop.simps debit_def with_request_def bank_lawsD checked_def balances_read
      task_rewrite_def exec_rewrite_def resolve_program_def bank_sizes spend_def Let_def)
qed

lemma credit_run:
  assumes "bank_laws B" "0 \<le> sint m" "sint y + sint m < 2 ^ 63" "\<forall>k \<in> fst ` set zs. bob < k"
  shows "run_program_loop (metered_store 0) (bank_programs B) bank_fct b ''CREDIT'' (Some (ser_request B (alice_to_bob m)))
      (metered_task xs (Suc n) (accounts x y zs) q) =
    Some (Inr None, metered_task xs n (accounts x (y + m) zs) q)"
proof -
  have "- (2 ^ 63) \<le> sint y + sint m"
    using assms(2) sint_ge [of y] by simp
  moreover have "word_of_int (sint y + sint m) = y + m" by simp
  ultimately show ?thesis
    using assms ins_accounts(2) [OF assms(4)]
    by (simp add: run_program_loop.simps credit_def with_request_def bank_lawsD checked_def balances_read
      task_rewrite_def exec_rewrite_def resolve_program_def bank_sizes spend_def Let_def)
qed

lemma statement_run:
  assumes "bank_laws B"
  shows "run_program_loop (metered_store 0) (bank_programs B) bank_fct b ''STATEMENT'' (Some (ser_request B (alice_to_bob m)))
      (metered_task xs n (accounts x y zs) q) =
    Some (Inr (Some (ser_balances B (x, y))), metered_task xs n (accounts x y zs) q)"
  using assms
  by (simp add: run_program_loop.simps statement_def with_request_def bank_lawsD balances_read resolve_program_def)

abbreviation audit_start :: "bank_lib \<Rightarrow> i64 \<Rightarrow> pending_start" where
  "audit_start B m \<equiv> \<lparr>ps_tranid = ''AUD1'', ps_program = ''AUDIT_LOG'', ps_commarea = Some (ser_request B (alice_to_bob m))\<rparr>"

lemma link_from_task:
  "link_level b = 1 \<Longrightarrow> task_link loop b p c t = loop (b\<lparr>link_level := 2\<rparr>) p c t"
  by (simp add: task_link_def MAX_LINK_DEPTH_def)

lemma transfer_run:
  assumes "bank_laws B" "sint m \<le> sint x" "0 \<le> sint m" "sint y + sint m < 2 ^ 63" "\<forall>k \<in> fst ` set zs. bob < k"
    "link_level b = 1"
  shows "run_program_loop (metered_store 0) (bank_programs B) bank_fct b ''TRANSFER'' (Some (ser_request B (alice_to_bob m)))
      (metered_task xs (Suc (Suc n)) (accounts x y zs) q) =
    Some (Inr (Some (ser_balances B (x - m, y + m))), metered_task xs n (accounts (x - m) (y + m) zs) (q @ [audit_start B m]))"
  using assms
  by (subst run_program_loop.simps)
    (simp add: resolve_program_def transfer_def with_request_def bank_lawsD link_from_task debit_run credit_run
      task_start_def statement_run)

lemma overdraft_run:
  assumes "bank_laws B" "sint x < sint m" "link_level b = 1"
  shows "\<exists>msg. run_program_loop (metered_store 0) (bank_programs B) bank_fct b ''TRANSFER'' (Some (ser_request B (alice_to_bob m)))
      (metered_task xs n (accounts x y zs) q) = Some (Inl (InvalidRequest msg), metered_task xs n (accounts x y zs) q)"
proof -
  have "\<exists>msg. run_program_loop (metered_store 0) (bank_programs B) bank_fct (b\<lparr>link_level := 2\<rparr>) ''DEBIT''
      (Some (ser_request B (alice_to_bob m))) (metered_task xs n (accounts x y zs) q) =
      Some (Inl (InvalidRequest msg), metered_task xs n (accounts x y zs) q)"
    using assms
    by (simp add: run_program_loop.simps debit_def with_request_def bank_lawsD balances_read resolve_program_def)
  then show ?thesis
    using assms by (subst run_program_loop.simps)
      (auto simp: resolve_program_def transfer_def with_request_def bank_lawsD link_from_task)
qed

lemma audit_run:
  assumes "bank_laws B" "task_id b = 3"
  shows "run_program_loop (metered_store 0) (bank_programs B) bank_fct b ''AUDIT_LOG'' (Some (ser_request B (alice_to_bob 200)))
      (metered_task xs (Suc n) (accounts x y []) q) =
    Some (Inr None, metered_task xs n (accounts x y [(audit_key, audit_line)]) q)"
  using assms
  by (simp add: run_program_loop.simps audit_log_def bank_lawsD bank_eval bank_keys(8,9) [symmetric]
      audit_key_def [symmetric] audit_line_def [symmetric, simplified])

lemma list_audit_run:
  assumes "keyed ys"
  shows "run_program_loop (metered_store 0) (bank_programs B) bank_fct b ''LIST_AUDIT'' None (metered_task xs n ys q) =
    Some (Inr None, metered_task xs n ys q)"
  using assms
  by (simp add: run_program_loop.simps list_audit_def resolve_program_def task_browse_def exec_browse_def Let_def
      strip_rows_keyed keyed_select)

lemma keyed_accounts: "keyed (accounts x y [(audit_key, audit_line)])"
  by (simp add: keyed_def accounts_def storage_key_def audit_key_def)

text \<open>The regions of \<open>main\<close>, and a task that ends normally without starting another.\<close>

definition bank_region :: "bank_lib \<Rightarrow> task_id \<Rightarrow> 'e \<Rightarrow> 'e region" where
  "bank_region B ids e = \<lparr>g_env = e, g_programs = bank_programs B, g_fct = bank_fct, g_task_ids = ids\<rparr>"

lemma region_over_bank [simp]: "region_over f (bank_region B ids e) = bank_region B ids f" "g_env (bank_region B ids e) = e"
  by (simp_all add: region_over_def bank_region_def)

abbreviation counted :: "rows \<Rightarrow> nat \<Rightarrow> metered" where
  "counted xs n \<equiv> \<lparr>mt_rows = xs, mt_left = n\<rparr>"

lemma task_alone:
  assumes "run_program_loop (metered_store 0) (bank_programs B) bank_fct \<lparr>task_id = ids, tranid = tr, link_level = 1\<rparr> p c
      (metered_task xs n xs []) = Some (Inr r, metered_task xs (Suc m) ys [])"
  shows "start_task (metered_store 0) (bank_region B ids (counted xs n)) tr p c =
    Some (bank_region B (ids + 1) (counted ys m), Inr r)"
  using assms
  by (simp add: start_task_def bank_region_def dispatch.simps next_task_id_def run_task_def end_task_def spend_def)

lemma setup_task:
  "start_task (metered_store 0) (bank_region B ids (counted [] (n + 3))) ''SETU'' ''OPEN_ACCOUNTS'' None =
    Some (bank_region B (ids + 1) (counted (accounts 1000 500 []) n), Inr None)"
  by (rule task_alone) (use open_accounts_run [of B _ "Suc n"] in \<open>simp add: numeral_3_eq_3\<close>)

lemma transfer_run_task:
  assumes "bank_laws B"
  shows "run_task (metered_store 0) (bank_programs B) bank_fct 2
      \<lparr>ps_tranid = ''XFER'', ps_program = ''TRANSFER'', ps_commarea = Some (ser_request B (alice_to_bob 200))\<rparr> []
      (counted (accounts 1000 500 []) (n + 3)) =
    Some (Inr (Some (ser_balances B (800, 700))), [audit_start B 200], counted (accounts 800 700 []) n, Inr ())"
proof -
  let ?b = "\<lparr>task_id = 2, tranid = ''XFER'', link_level = 1\<rparr>" and ?c = "Some (ser_request B (alice_to_bob 200))"
  have "run_program_loop (metered_store 0) (bank_programs B) bank_fct ?b ''TRANSFER'' ?c
      (metered_task (accounts 1000 500 []) (Suc (Suc (Suc n))) (accounts 1000 500 []) []) =
    Some (Inr (Some (ser_balances B (1000 - 200, 500 + 200))),
      metered_task (accounts 1000 500 []) (Suc n) (accounts (1000 - 200) (500 + 200) []) ([] @ [audit_start B 200]))"
    by (rule transfer_run [OF assms]) simp_all
  then show ?thesis
    by (simp add: run_task_def end_task_def spend_def eval_nat_numeral)
qed

lemma transfer_task:
  assumes "bank_laws B"
  shows "transfer_fn (metered_store 0) B (bank_region B 2 (counted (accounts 1000 500 []) (n + 5))) ''ALICE'' ''BOB'' 200 =
    Some (bank_region B 4 (counted (accounts 800 700 [(audit_key, audit_line)]) n), Inr (800, 700))"
proof -
  have a: "run_task (metered_store 0) (bank_programs B) bank_fct 3 (audit_start B 200) []
      (counted (accounts 800 700 []) (Suc (Suc n))) =
    Some (Inr None, [], counted (accounts 800 700 [(audit_key, audit_line)]) n, Inr ())"
    using audit_run [OF assms, of "\<lparr>task_id = 3, tranid = ''AUD1'', link_level = 1\<rparr>" "accounts 800 700 []" "Suc n"]
    by (simp add: run_task_def end_task_def spend_def)
  show ?thesis
    using transfer_run_task [OF assms, of "n + 2"]
    by (simp add: transfer_fn_def and_then_def start_task_def bank_region_def dispatch.simps next_task_id_def a
        bank_lawsD(2) [OF assms] Let_def add.commute [of 5])
qed

lemma list_task:
  "start_task (metered_store 0) (bank_region B ids (counted (accounts x y [(audit_key, audit_line)]) (Suc n))) ''LIST''
      ''LIST_AUDIT'' None =
    Some (bank_region B (ids + 1) (counted (accounts x y [(audit_key, audit_line)]) n), Inr None)"
  by (rule task_alone) (rule list_audit_run [OF keyed_accounts])

lemma overdraft_task:
  assumes "bank_laws B" "sint x < sint m"
  shows "\<exists>er. transfer_fn (metered_store 0) B (bank_region B ids (counted (accounts x y zs) n)) ''ALICE'' ''BOB'' m =
    Some (bank_region B (ids + 1) (counted (accounts x y zs) n), Inl er)"
  using overdraft_run [OF assms, of "\<lparr>task_id = ids, tranid = ''XFER'', link_level = 1\<rparr>" "accounts x y zs" n y zs "[]"]
  by (auto simp: transfer_fn_def and_then_def start_task_def bank_region_def dispatch.simps next_task_id_def
      run_task_def end_task_def Let_def)

lemma show_task:
  assumes "bank_laws B"
  shows "show_balances (metered_store 0) B (bank_region B ids (counted (accounts x y zs) (Suc n))) =
    Some (bank_region B (ids + 1) (counted (accounts x y zs) n), Inr (x, y))"
  using task_alone [OF statement_run [OF assms, of _ 0 _ "Suc n"], where ids = ids and tr = "''SHOW''"]
  by (simp add: show_balances_def and_then_def bank_lawsD(2) [OF assms])

lemma first_session_run:
  assumes "bank_laws B"
  shows "first_session (metered_store 0) B (bank_region B 1 (counted [] (Suc n + 10))) =
    Some (bank_region B 7 (counted (accounts 800 700 [(audit_key, audit_line)]) (Suc n)), Inr ())"
proof -
  obtain er where o: "transfer_fn (metered_store 0) B (bank_region B 5
      (counted (accounts 800 700 [(audit_key, audit_line)]) (n + 2))) ''ALICE'' ''BOB'' 10000 =
    Some (bank_region B 6 (counted (accounts 800 700 [(audit_key, audit_line)]) (n + 2)), Inl er)"
    using overdraft_task [OF assms, of 800 10000 5 700 "[(audit_key, audit_line)]" "n + 2"] by auto
  show ?thesis
    using setup_task [of B 1 "n + 8"] transfer_task [OF assms, of "n + 3"] list_task [of B 4 800 700 "n + 2"] o
      show_task [OF assms, of 6 800 700 "[(audit_key, audit_line)]" "Suc n"]
    by (simp add: first_session_def and_then_def eval_nat_numeral)
qed

lemma second_session_run:
  assumes "bank_laws B"
  shows "second_session (metered_store 0) B (bank_region B 1 (counted (accounts 800 700 zs) (Suc n))) =
    Some (bank_region B 2 (counted (accounts 800 700 zs) n), Inr ())"
  using show_task [OF assms, of 1 800 700 zs n] by (simp add: second_session_def and_then_def)

section \<open>The same over the B-tree store\<close>

text \<open>A function of the script over one store, and over a store that simulates it.\<close>

definition carried :: "('e \<Rightarrow> 'f \<Rightarrow> bool) \<Rightarrow> ('e region \<times> 'r) option \<Rightarrow> ('f region \<times> 'r) option \<Rightarrow> bool" where
  "carried rest m m' \<longleftrightarrow>
     (\<forall>g r. m = Some (g, r) \<longrightarrow> (\<exists>f. m' = Some (region_over f g, r) \<and> rest (g_env g) f))"

lemma carriedD: "carried rest (Some (g, r)) m' \<Longrightarrow> \<exists>f. m' = Some (region_over f g, r) \<and> rest (g_env g) f"
  by (simp add: carried_def)

lemma carried_return: "rest (g_env g) f \<Longrightarrow> carried rest (Some (g, r)) (Some (region_over f g, r))"
  by (auto simp: carried_def)

lemma carried_None: "carried rest None m'"
  by (simp add: carried_def)

lemma carried_and_then:
  assumes "carried rest m m'" "\<And>x g f. rest (g_env g) f \<Longrightarrow> carried rest (k x g) (k' x (region_over f g))"
  shows "carried rest (and_then m k) (and_then m' k')"
  unfolding carried_def
proof (intro allI impI)
  fix g r
  assume s: "and_then m k = Some (g, r)"
  then obtain g1 r1 where m: "m = Some (g1, r1)" by (auto simp: and_then_def split: option.splits)
  then obtain f1 where f1: "m' = Some (region_over f1 g1, r1)" "rest (g_env g1) f1"
    using assms(1) by (auto simp: carried_def)
  show "\<exists>f. and_then m' k' = Some (region_over f g, r) \<and> rest (g_env g) f"
  proof (cases r1)
    case (Inl er)
    then show ?thesis using s m f1 by (auto simp: and_then_def)
  next
    case (Inr x)
    then show ?thesis using s m f1(1) assms(2) [OF f1(2), of x] by (auto simp: and_then_def carried_def)
  qed
qed

context store_simulation
begin

lemma start_task_carried:
  "rest (g_env g) f \<Longrightarrow> carried rest (start_task S g tran p c) (start_task S' (region_over f g) tran p c)"
  unfolding carried_def using start_task_sim by blast

lemma reply_carried:
  "rest (g_env g) f \<Longrightarrow> carried rest (do { data \<leftarrow> result; b \<leftarrow> de_balances B data; Some (g, Inr b) })
    (do { data \<leftarrow> result; b \<leftarrow> de_balances B data; Some (region_over f g, Inr b) })"
  by (auto simp: carried_def bind_eq_Some_conv)

lemma transfer_fn_carried:
  "rest (g_env g) f \<Longrightarrow> carried rest (transfer_fn S B g a b m) (transfer_fn S' B (region_over f g) a b m)"
  unfolding transfer_fn_def Let_def by (intro carried_and_then start_task_carried reply_carried)

lemma show_balances_carried:
  "rest (g_env g) f \<Longrightarrow> carried rest (show_balances S B g) (show_balances S' B (region_over f g))"
  unfolding show_balances_def by (intro carried_and_then start_task_carried reply_carried)

lemma second_session_carried:
  "rest (g_env g) f \<Longrightarrow> carried rest (second_session S B g) (second_session S' B (region_over f g))"
  unfolding second_session_def
  by (intro carried_and_then show_balances_carried) (simp_all add: carried_return carried_None)

lemma first_session_carried:
  assumes "rest (g_env g) f"
  shows "carried rest (first_session S B g) (first_session S' B (region_over f g))"
proof -
  have overdraft: "carried rest
      (case transfer_fn S B g a b m of None \<Rightarrow> None | Some (g, Inr _) \<Rightarrow> None | Some (g, Inl er) \<Rightarrow> k g)
      (case transfer_fn S' B (region_over f g) a b m of None \<Rightarrow> None | Some (g, Inr _) \<Rightarrow> None | Some (g, Inl er) \<Rightarrow> k' g)"
    if "rest (g_env g) f" "\<And>g f. rest (g_env g) f \<Longrightarrow> carried rest (k g) (k' (region_over f g))" for g f a b m k k'
  proof (cases "transfer_fn S B g a b m")
    case (Some x)
    then show ?thesis using transfer_fn_carried [OF that(1), of B a b m] that(2)
      by (cases x; cases "snd x") (auto simp: carried_None dest!: carriedD)
  qed (simp add: carried_None)
  show ?thesis unfolding first_session_def
    by (intro carried_and_then start_task_carried transfer_fn_carried assms)
      (auto intro!: carried_None carried_and_then start_task_carried show_balances_carried overdraft carried_return)
qed

end

end
