(* ===== verification/Bank_Props.thy ===== *)
theory Bank_Props
  imports Bank_Runs
begin

text \<open>
  The bank over the whole stack: a transfer is atomic and conserves money, and \<open>main\<close> of the
  demo ends with all its assertions true, on any disk with room and no faults.
\<close>

section \<open>A transfer over the store\<close>

lemma sint_checked: "- (2 ^ 63) \<le> z \<Longrightarrow> z < 2 ^ 63 \<Longrightarrow> sint (word_of_int z :: i64) = z"
  by (simp add: signed_of_int signed_take_bit_int_eq_self)

text \<open>C36: A transfer is atomic and conserves money, over the whole stack. When the TRANSFER task
  ends, the B-tree store holds the old rows when the account is overdrawn (the task ABENDs)
  or the commit fails, and else both new balances, with the audit task started and the new
  balances as result; no other record of any file changes, and the sum stays the same.\<close>

theorem bank_transfer:
  assumes "store_idle L e xs" "case_ok B fct c a xs"
    "run_task (txn_store L) (bank_programs B) fct num \<lparr>ps_tranid = tr, ps_program = ''TRANSFER'', ps_commarea = Some c\<rparr>
       q e = Some (out, q', e', r)"
  defines "x \<equiv> ac_x a" and "y \<equiv> ac_y a" and "m \<equiv> req_amount (ac_req a)"
  shows "(if sint x < sint m
     then (\<exists>msg. out = Inl (InvalidRequest msg)) \<and> q' = q \<and> store_idle L e' xs
     else out = Inr (Some (ser_balances B (x - m, y + m))) \<and>
       q' = q @ [\<lparr>ps_tranid = ''AUD1'', ps_program = ''AUDIT_LOG'', ps_commarea = Some c\<rparr>] \<and>
       store_idle L e' (if r = Inr () then moved a xs else xs) \<and> sint (x - m) + sint (y + m) = sint x + sint y) \<and>
    view (moved a xs) = (view xs)(ac_fid a := (view xs (ac_fid a))
      (as_bytes (req_from (ac_req a)) \<mapsto> le_bytes 8 (x - m), as_bytes (req_to (ac_req a)) \<mapsto> le_bytes 8 (y + m)))"
proof -
  let ?b = "\<lparr>task_id = num, tranid = tr, link_level = 1\<rparr>"
  have b: "link_level ?b < MAX_LINK_DEPTH" by (simp add: MAX_LINK_DEPTH_def)
  from task_atomic [OF assms(1) bank_within assms(3)] obtain ys where ys:
      "run_program_loop rows_store (bank_programs B) fct ?b ''TRANSFER'' (Some c) (ideal_task xs [] (Some xs) q) =
         Some (out, ideal_task xs [] (Some ys) q')"
      "store_idle L e' (case (out, r) of (Inr _, Inr _) \<Rightarrow> ys | _ \<Rightarrow> xs)" by auto
  note run = run_transfer [OF assms(2) b, of xs "[]" q, unfolded ys(1), folded x_def y_def m_def]
  have "view (moved a xs) = (view xs)(ac_fid a := (view xs (ac_fid a))
      (as_bytes (req_from (ac_req a)) \<mapsto> le_bytes 8 (x - m), as_bytes (req_to (ac_req a)) \<mapsto> le_bytes 8 (y + m)))"
    by (simp add: moved_def x_def y_def m_def Let_def)
  moreover have "(\<exists>msg. out = Inl (InvalidRequest msg)) \<and> q' = q \<and> store_idle L e' xs" if "sint x < sint m"
    using run(2) [OF that] ys(2) by (auto simp: ideal_task_def)
  moreover have "out = Inr (Some (ser_balances B (x - m, y + m))) \<and>
       q' = q @ [\<lparr>ps_tranid = ''AUD1'', ps_program = ''AUDIT_LOG'', ps_commarea = Some c\<rparr>] \<and>
       store_idle L e' (if r = Inr () then moved a xs else xs) \<and> sint (x - m) + sint (y + m) = sint x + sint y"
    if le: "\<not> sint x < sint m"
  proof -
    have o: "out = Inr (Some (ser_balances B (x - m, y + m)))" "ys = moved a xs"
        "q' = q @ [\<lparr>ps_tranid = ''AUD1'', ps_program = ''AUDIT_LOG'', ps_commarea = Some c\<rparr>]"
      using run(1) le by (simp_all add: ideal_task_def not_less)
    have rg: "0 \<le> sint m" "- (2 ^ 63) \<le> sint x - sint m" "sint y + sint m < 2 ^ 63"
      using assms(2) by (simp_all add: case_ok_def x_def y_def m_def)
    have "sint x < 2 ^ 63" "- (2 ^ 63) \<le> sint y" using sint_lt [of x] sint_ge [of y] by simp_all
    then have "sint (x - m) = sint x - sint m" "sint (y + m) = sint y + sint m"
      using sint_checked [of "sint x - sint m"] sint_checked [of "sint y + sint m"] rg by simp_all
    then show ?thesis using o ys(2) by (cases r) simp_all
  qed
  ultimately show ?thesis by simp
qed

section \<open>The whole demo\<close>

lemma configure_new:
  "configure B \<lparr>g_env = e, g_programs = new_programs, g_fct = new_fct, g_task_ids = new_task_ids\<rparr> = Some (bank_region B 1 e)"
proof -
  have "register_programs B \<lparr>g_env = e, g_programs = new_programs, g_fct = f, g_task_ids = new_task_ids\<rparr> =
      \<lparr>g_env = e, g_programs = bank_programs B, g_fct = f, g_task_ids = new_task_ids\<rparr>" for f
    by (simp add: register_programs_def bank_programs_def region_define_program_def Let_def)
  then show ?thesis
    by (simp add: configure_def region_define_file_def define_file_def new_fct_def bank_region_def bank_fct_def
        new_task_ids_def fun_upd_twist)
qed

text \<open>C40: The demo's \<open>main\<close>, over all layers, ends with Ok: on a disk with room for 300 pages and no faults,
  and with any serialisation library that reads back what it wrote, no layer panics and no
  assertion fails. The balances are 800 and 700 after the transfer, after the overdraft that ABENDs, and
  when the store is closed and opened again.\<close>

theorem main_ok:
  assumes "lib_ok L" "lib_sizes L" "bank_laws B" "300 \<le> lim" "lim \<le> 2 ^ 52"
  shows "main L B lim [] = Some (Inr ())"
proof -
  let ?rest = "at_rest L 11 0" and ?zs = "[(audit_key, audit_line)]"
  obtain env where e: "open_env L lim [] None = Some (Inr env)"
    using open_new_total [OF assms(1,2), of lim] assms(4) by auto
  have "?rest (counted [] 11) env"
    by (rule at_rest_fresh [OF assms(1,2) e assms(5)]) (use assms(4) in simp_all)
  then have "carried ?rest (first_session (metered_store 0) B (bank_region B 1 (counted [] 11)))
      (first_session (txn_store L) B (bank_region B 1 env))"
    using txn_total.first_session_carried [where g = "bank_region B 1 (counted [] 11)"] by simp
  then obtain env1 where 1: "first_session (txn_store L) B (bank_region B 1 env) = Some (bank_region B 7 env1, Inr ())"
      "?rest (counted (accounts 800 700 ?zs) 1) env1"
    using first_session_run [OF assms(3), of 0] by (auto dest!: carriedD)
  obtain env2 where 2: "open_env L (p_limit (e_pager env1)) (p_syncs (e_pager env1)) (Some (p_file (e_pager env1))) = Some (Inr env2)"
      "?rest (counted (accounts 800 700 ?zs) 1) env2"
    by (rule at_rest_reopen [OF 1(2)])
  have "carried ?rest (second_session (metered_store 0) B (bank_region B 1 (counted (accounts 800 700 ?zs) 1)))
      (second_session (txn_store L) B (bank_region B 1 env2))"
    using txn_total.second_session_carried [where g = "bank_region B 1 (counted (accounts 800 700 ?zs) 1)"] 2(2) by simp
  then obtain env3 where 3: "second_session (txn_store L) B (bank_region B 1 env2) = Some (bank_region B 2 env3, Inr ())"
    using second_session_run [OF assms(3), of ?zs 0] by (auto dest!: carriedD)
  show ?thesis
    using e 1(1) 2(1) 3 by (simp add: main_def open_region_def configure_new Let_def)
qed

text \<open>bincode's format of a request and of a pair of balances.\<close>

definition bincode_bank :: bank_lib where
  "bincode_bank =
     \<lparr>ser_request = (\<lambda>r. put_bytes (as_bytes (req_from r)) @ put_bytes (as_bytes (req_to r)) @ put_u64 (req_amount r)),
      de_request = (\<lambda>bs. do { (f, bs1) \<leftarrow> get_bytes bs; (t, bs2) \<leftarrow> get_bytes bs1; (m, _) \<leftarrow> get_u64 bs2;
        Some \<lparr>req_from = map (char_of \<circ> unat) f, req_to = map (char_of \<circ> unat) t, req_amount = m\<rparr> }),
      ser_balances = (\<lambda>(x, y). put_u64 x @ put_u64 y),
      de_balances = (\<lambda>bs. do { (x, bs1) \<leftarrow> get_u64 bs; (y, _) \<leftarrow> get_u64 bs1; Some (x, y) })\<rparr>"

lemma length_as_bytes: "length (as_bytes s) = length s"
  by (simp add: as_bytes_def)

lemma from_bytes: "map (char_of \<circ> unat) (as_bytes s) = s"
proof -
  have "char_of (unat (of_char c :: byte)) = c" for c
  proof -
    have "unat (of_char c :: byte) = unat (of_nat (of_char c) :: byte)" unfolding of_nat_of_char ..
    then have "unat (of_char c :: byte) = of_char c mod 256" by (simp add: unsigned_of_nat take_bit_eq_mod)
    then show ?thesis by simp
  qed
  then show ?thesis by (simp add: as_bytes_def comp_def)
qed

lemma bincode_bank_laws: "bank_laws bincode_bank"
proof -
  have "de_request bincode_bank (ser_request bincode_bank r) = Some r"
    if "length (req_from r) < 2 ^ 63" "length (req_to r) < 2 ^ 63" for r
    using that codecD [OF codec_bytes, of "as_bytes (req_from r)"] codecD [OF codec_bytes, of "as_bytes (req_to r)"]
      codecD [OF codec_u64, of "req_amount r" "[]"]
    by (simp add: bincode_bank_def from_bytes length_as_bytes)
  moreover have "de_balances bincode_bank (ser_balances bincode_bank b) = Some b" for b
    using codecD [OF codec_u64, of "fst b"] codecD [OF codec_u64, of "snd b" "[]"]
    by (simp add: bincode_bank_def split_beta)
  ultimately show ?thesis by (simp add: bank_laws_def)
qed

theorem main_ok_witness: "main bincode bincode_bank 300 [] = Some (Inr ())"
  by (rule main_ok [OF lib_ok_bincode lib_sizes_bincode bincode_bank_laws]) simp_all

text \<open>A transfer of 200 from ALICE (1000) to BOB (500), on the store that the set-up task leaves.\<close>

definition demo_case :: account_case where
  "demo_case = \<lparr>ac_fid = 0, ac_req = alice_to_bob 200, ac_x = 1000, ac_y = 500\<rparr>"

lemma demo_case: "bank_laws B \<Longrightarrow> case_ok B bank_fct (ser_request B (alice_to_bob 200)) demo_case (accounts 1000 500 [])"
  by (simp add: case_ok_def bank_lawsD demo_case_def bank_fct_def view_def)

theorem bank_transfer_witness:
  "\<exists>e e'. store_idle bincode e (accounts 1000 500 []) \<and>
    run_task (txn_store bincode) (bank_programs bincode_bank) bank_fct 2
      \<lparr>ps_tranid = ''XFER'', ps_program = ''TRANSFER'', ps_commarea = Some (ser_request bincode_bank (alice_to_bob 200))\<rparr> [] e =
        Some (Inr (Some (ser_balances bincode_bank (800, 700))), [audit_start bincode_bank 200], e', Inr ()) \<and>
    store_idle bincode e' (moved demo_case (accounts 1000 500 []))"
proof -
  let ?rest = "at_rest bincode 6 0"
  obtain env where env: "open_env bincode 300 [] None = Some (Inr env)"
    using open_new_total [OF lib_ok_bincode lib_sizes_bincode, of 300] by auto
  have "?rest (counted [] 6) env"
    by (rule at_rest_fresh [OF lib_ok_bincode lib_sizes_bincode env]) simp_all
  from txn_total.start_task_carried [of bincode 6 0 "bank_region bincode_bank 1 (counted [] 6)" env "''SETU''" "''OPEN_ACCOUNTS''" None]
  obtain e where e: "?rest (counted (accounts 1000 500 []) 3) e"
    using setup_task [of bincode_bank 1 3] \<open>?rest (counted [] 6) env\<close> by (auto dest!: carriedD)
  obtain e' where e': "run_task (txn_store bincode) (bank_programs bincode_bank) bank_fct 2
      \<lparr>ps_tranid = ''XFER'', ps_program = ''TRANSFER'', ps_commarea = Some (ser_request bincode_bank (alice_to_bob 200))\<rparr> [] e =
        Some (Inr (Some (ser_balances bincode_bank (800, 700))), [audit_start bincode_bank 200], e', Inr ())"
    using txn_total.run_task_sim [OF e] transfer_run_task [OF bincode_bank_laws, of 0] by fastforce
  have idle: "store_idle bincode e (accounts 1000 500 [])" using e by (simp add: at_rest_def solid_idle)
  show ?thesis
    using bank_transfer [OF idle demo_case [OF bincode_bank_laws] e'] idle e' by (auto simp: demo_case_def)
qed

end
