(* ===== verification/Spec2Isabelle.thy ===== *)
theory Spec2Isabelle
  imports Page_Account Task_Queue Late_Reader Interleaving Panics Leaf_Split Bank_Props
begin

text \<open>
  A verification of cics-tx: an embedded transactional store (src/src/storage), a copy-on-write
  B-tree with an atomic swap of its meta page, and on top of it a CICS-style runtime
  (src/src/runtime). Every function of the two directories is modelled.

  \<^bold>\<open>The parts and how they interact.\<close> A program calls \<open>EXEC CICS\<close> services on an \<open>ExecCtx\<close>
  (region.rs), which finds programs in the program table (program.rs) and files in the file
  control table (file_control.rs), and does the file commands on a write transaction (txn.rs). A
  transaction works on the B-tree (btree.rs), whose nodes stay in an overlay until \<open>commit\<close>
  encodes them (codec.rs) and has the pager write them (pager.rs); large values are written to
  overflow chains (overflow.rs) at once, and the pages a transaction frees go to the free list
  (freelist.rs), from where later transactions take them when no registered reader needs them.

  \<^bold>\<open>Which theory models what.\<close>

  \<^item> Cics_Prelude: machine types, the parts of the Rust library in use (vectors, binary search,
    \<open>chunks\<close>), bytes and integers, the shared lemmas and \<open>named_theorems\<close>.
  \<^item> Pages (the types written to disk; codec.rs), Bincode (bincode and crc32fast, the libraries,
    as one concrete instance), Pager (pager.rs), Chains (overflow.rs, freelist.rs).
  \<^item> BTree_Ops: btree.rs, on the record \<open>ctx\<close>; its theorems are in BTree_Inv (well-formed trees),
    Ctx_Frame (page accounts, what an operation leaves alone), BTree_Insert, BTree_Delete,
    BTree_Store (the tree as a sorted list), BTree_Total (the operations return) and BTree_Props.
  \<^item> Txn: txn.rs, on the records \<open>environment\<close>, \<open>read_txn\<close> and \<open>write_txn\<close>; Txn_Inv and Txn_Commit
    (invariants of transactions and of commit), Durability (crashes), MVCC (readers and writers
    as a state machine, and the machine on plain lists it refines), Recovery (opening), Store_Props.
  \<^item> File_Control: error.rs and file_control.rs; File_Props.
  \<^item> Programs: task.rs and program.rs; Region: region.rs, with \<open>run_program_loop\<close> as a partial
    function, so that a run that never ends is the value None; Region_Refine, Region_Inv and
    Region_Runs hold its calculus; Region_Props, and Task_Queue, which follows the dispatcher
    task by task and has the results that depend on the rest.
  \<^item> Short_Keys, with Node_Fit: nodes fit in their pages, and commit returns, when keys are short.
  \<^item> Budget (how many pages a number of operations takes), Region_Sim (a region over one store
    does what it does over another) and Region_Total: a region with pages to spare does not panic.
  \<^item> Bank_Demo: the programs and the script of examples/bank_demo.rs; Bank_Runs, Bank_Props.
  \<^item> Page_Account: where every page is along a run. The invariants \<open>cinv\<close> (a context) and
    \<open>writer_ok\<close> (a transaction) say that the pages of the tree, of its values, of the
    transaction's lists and a rest \<open>K\<close> are all those below \<open>next_page\<close>, each once; here \<open>K\<close> is
    identified as the chains on which the free lists of the run's commits were written.
  \<^item> Interleaving: the operations of a writer taken apart into their page writes, with readers in
    between; Late_Reader: \<open>begin_read\<close> taken apart into its two steps, where that is harmless;
    Panics: the writer's operations stopped by a panic at any of their page writes.
  \<^item> Reader_Race, Leaf_Split and Sync_Fault: three behaviours in which the code does not keep its
    promises, as concrete runs.

  \<^bold>\<open>How the model reads.\<close> Each function of the source is a definition of the same name: state is
  passed and returned, a panic (\<open>expect\<close>, \<open>unwrap\<close>, an index out of range, an integer overflow in
  a build with overflow checks) is None, an error is \<open>Inl\<close> of its value. Page numbers,
  transaction ids, task numbers and link levels are words of the source's width. A borrowed
  \<open>ctx\<close> is a record of what it borrows; a lock is a flag or the atomicity of a step.

  The file is a list of pages with two contents, what reads see and what is durable, with the
  writes since the last sync kept apart. A write past \<open>p_limit\<close> pages (the room on the disk) and a
  sync that \<open>p_syncs\<close> says fails return errors. A crash keeps, loses or tears any of the writes
  since the last sync, where a torn meta page fails its checksum.

  \<^bold>\<open>Parameters.\<close> bincode and crc32fast are not part of the repository. They are the record \<open>lib\<close>;
  what the code relies on is the locale \<open>serde_laws\<close> (a value that fits in a page is read back from
  its encoding) and \<open>lib_sizes\<close> (the sizes of bincode's fixed width format); Bincode proves both of
  an implementation of the format, which the witnesses use. A program is the application's code.
  It is the tree of the calls it makes with what it does on each answer (\<open>prog\<close>). The
  commands use a store only by its operations, the record \<open>store_ops\<close>: \<open>txn_store\<close> is the B-tree
  store, \<open>rows_store\<close> a sorted list, and both interpret the locale \<open>task_store\<close>.

  \<^bold>\<open>What is proved.\<close> Of the tree: put, delete, get and range are those of a sorted list, return
  when there is room, and lose no page: each is in the tree, in a value, in the free list or in
  the chain of a free list (C1 to C3, C10 to C13, C17). Of transactions:
  runs of readers and writers are allowed by a specification on lists (snapshot isolation), also
  when readers read between the page writes of the writers; a crash leaves the committed data, a
  crash inside commit leaves the old or the new data whole, commit goes through when nodes fit and
  there is room (C4 to C9), and a panic rolls back its transaction (C14). Of file control: files are
  tables of their own and each command does to its table what its name says (C18 to C23). Of regions: what a region does over the B-tree
  store it does over sorted lists, tasks are atomic, LINK is bounded, only a cycle of XCTLs goes
  on for ever, started tasks run first in first out, the result is the originating task's or the
  error of a commit that failed, files stay apart and every key belongs to one (C24 to C34). Over all layers: a bank transfer is atomic and conserves money (C36). With
  keys of at most 60 bytes commit does not panic, whatever fails on the disk (C38).

  Three theorems show where the store does not keep these promises: after a sync of the meta page
  failed (C15), when \<open>begin_read\<close> registers after two commits (C35; C16 says how late is not too
  late), and when leaves are split at the middle of their entries although these have very
  different sizes (C37).

  From the outside in, a region returns whenever the same run over counted sorted lists
  does, on a disk with enough pages (C39); so the demo's \<open>main\<close> ends with all its assertions
  true (C40).

  \<^bold>\<open>Bounds and fuel.\<close> No definition has fuel: the descents of the tree, the chains and the
  program loop are partial functions in the option monad, and where the code returns this is a
  theorem (\<open>BTree_Total\<close>, \<open>progress\<close>, \<open>programs_end\<close>). Room is bounded by \<open>2 ^ 52\<close> pages (a file of
  \<open>2 ^ 64\<close> bytes), so that page numbers do not wrap around; a put needs two pages per level of the
  tree, one more for a new root and those of its value.

  \<^bold>\<open>What is not modelled.\<close> The Display texts of the errors and the console output of the bank
  demo; the tests, which are checks of behaviour stated here as theorems; the writes of one page
  seen half done, and the two zero pages of a new file being lost or refused (\<open>set_len\<close>); release
  builds, where integer overflow wraps around instead of panicking; a panic that unwinds through
  the program loop (Panics follows it out of the transaction only); state that a program closure
  captures between its runs.
\<close>

end
